(* ===== verification/Prelude.thy ===== *)
theory Prelude
  imports Main "HOL-Library.Word"
begin

text \<open>
  The prelude of the dkvs development: the machine types of the C++ sources, the
  correspondence between \<^verbatim>\<open>char\<close> and \<^verbatim>\<open>uint8_t\<close>, the exceptions the sources can raise,
  and the generic facts on lists, words and majorities that several components share.

  \<^item> \<^verbatim>\<open>std::string\<close> and \<^verbatim>\<open>std::string_view\<close> are \<^typ>\<open>string\<close> (a \<^typ>\<open>char\<close> is one byte);
  \<^item> \<^verbatim>\<open>uint8_t\<close>, \<^verbatim>\<open>uint32_t\<close>, \<^verbatim>\<open>uint64_t\<close> are words of that width, and so is \<^verbatim>\<open>int32_t\<close>
    (read with \<^term>\<open>sint\<close> where its sign matters);
  \<^item> \<^verbatim>\<open>std::size_t\<close> values that are lengths of live containers are \<^typ>\<open>nat\<close>.
\<close>

unbundle bit_operations_syntax

named_theorems codec_simps \<open>evaluation of encoders and decoders\<close>
named_theorems storage_simps \<open>unfolding of storage operations\<close>
named_theorems raft_defs \<open>unfolding of the RaftNode operations\<close>

type_synonym u8 = "8 word"
type_synonym u16 = "16 word"
type_synonym u32 = "32 word"
type_synonym u64 = "64 word"
type_synonym i32 = "32 word"

text \<open>The C++ exceptions that the modelled code can raise.\<close>

datatype exn = Bad_alloc | Out_of_range | System_error

section \<open>Bytes and characters\<close>

definition byte_of_char :: "char \<Rightarrow> u8" where
  "byte_of_char c = word_of_nat (of_char c)"

definition char_of_byte :: "u8 \<Rightarrow> char" where
  "char_of_byte b = char_of (unat b)"

lemma of_char_less_256: "(of_char c :: nat) < 256"
  by (metis mod_less_divisor of_char_mod_256 zero_less_numeral)

lemma unat_of_nat_id:
  "n < 2 ^ LENGTH('a) \<Longrightarrow> unat (word_of_nat n :: 'a::len word) = n"
  by (simp add: unat_of_nat)

lemma unat_pred: "x < w \<Longrightarrow> unat (w - 1) = unat (w :: 'a::len word) - 1"
  by (intro unat_minus_one) auto

lemma unat_pred_less: "x < w \<Longrightarrow> unat (w - 1) < unat (w :: 'a::len word)"
  by (auto simp: unat_pred word_less_nat_alt)

lemma unat_u8_less [simp]: "unat (w :: u8) < 256"
  using unsigned_less [of w] by simp

lemma unat_u32_less [simp]: "unat (w :: u32) < 4294967296"
  using unsigned_less [of w] by simp

lemma unat_u64_less [simp]: "unat (w :: u64) < 18446744073709551616"
  using unsigned_less [of w] by simp

lemma byte_of_char_of_byte [simp]: "byte_of_char (char_of_byte b) = b"
  by (simp add: byte_of_char_def char_of_byte_def)

lemma char_of_byte_of_char [simp]: "char_of_byte (byte_of_char c) = c"
proof -
  have "unat (word_of_nat (of_char c) :: u8) = of_char c"
    using of_char_less_256 [of c] by (simp add: unat_of_nat_id)
  then show ?thesis
    by (simp add: byte_of_char_def char_of_byte_def)
qed

lemma byte_of_char_inject [simp]: "byte_of_char c = byte_of_char d \<longleftrightarrow> c = d"
  by (metis char_of_byte_of_char)

lemma char_of_byte_inject [simp]: "char_of_byte a = char_of_byte b \<longleftrightarrow> a = b"
  by (metis byte_of_char_of_byte)

section \<open>Bytes of a word\<close>

text \<open>\<open>byte_at k v\<close> is \<^verbatim>\<open>(v >> k) & 0xFF\<close>, \<open>shift_in v b\<close> is \<^verbatim>\<open>(v << 8) | b\<close>.\<close>

definition byte_at :: "nat \<Rightarrow> 'a::len word \<Rightarrow> u8" where
  "byte_at k v = ucast (drop_bit k v AND 0xFF)"

definition shift_in :: "'a::len word \<Rightarrow> u8 \<Rightarrow> 'a word" where
  "shift_in v b = push_bit 8 v OR ucast b"

lemma mask_8_u: "(0xFF :: 'a::len word) = mask 8"
  by (simp add: mask_eq_exp_minus_1)

lemma unat_and_FF [simp]: "unat (x AND 0xFF :: 'a::len word) < 256"
proof -
  have "unat (take_bit 8 x) < 2 ^ 8"
    by (simp only: unsigned_take_bit_eq take_bit_nat_less_exp)
  then show ?thesis
    by (simp add: mask_8_u take_bit_eq_mask)
qed

lemma bit_byte_at:
  "8 \<le> LENGTH('a) \<Longrightarrow> bit (byte_at k (v :: 'a::len word)) n \<longleftrightarrow> n < 8 \<and> bit v (k + n)"
  by (auto simp: byte_at_def mask_8_u bit_simps)

lemma bit_shift_in:
  "bit (shift_in v b :: 'a::len word) n \<longleftrightarrow>
     n < LENGTH('a) \<and> (if n < 8 then bit b n else bit v (n - 8))"
  by (auto simp: shift_in_def bit_simps dest: bit_imp_le_length)

lemma shift_in_byte_at:
  assumes "8 \<le> LENGTH('a)"
  shows "shift_in (drop_bit (k + 8) v) (byte_at k v) = drop_bit k (v :: 'a::len word)"
proof (rule bit_word_eqI)
  fix n
  assume "n < LENGTH('a)"
  moreover have "k + 8 + (n - 8) = k + n" if "\<not> n < 8"
    using that by simp
  ultimately show "bit (shift_in (drop_bit (k + 8) v) (byte_at k v)) n \<longleftrightarrow> bit (drop_bit k v) n"
    using assms by (auto simp: bit_shift_in bit_byte_at bit_drop_bit_eq)
qed

text \<open>
  Conversely, the low byte after a shift is the byte shifted in, and the higher bytes are the
  bytes of the word before it.
\<close>

lemma byte_at_0_shift_in:
  "8 \<le> LENGTH('a) \<Longrightarrow> byte_at 0 (shift_in v b :: 'a::len word) = b"
  by (intro bit_word_eqI) (auto simp: bit_byte_at bit_shift_in)

lemma byte_at_shift_in:
  "k + 16 \<le> LENGTH('a) \<Longrightarrow> byte_at (k + 8) (shift_in v b :: 'a::len word) = byte_at k v"
  by (intro bit_word_eqI) (auto simp: bit_byte_at bit_shift_in)

end
