(* ===== verification/KvStore.thy ===== *)
theory KvStore
  imports Prelude "HOL-Library.AList"
begin

text \<open>
  The state machine (\<^verbatim>\<open>include/dkvs/kv_store.hpp\<close>, \<^verbatim>\<open>src/kv_store.cpp\<close>). \<^verbatim>\<open>data_\<close> is an association list with
  distinct keys; the order of an \<^verbatim>\<open>unordered_map\<close> is never observed by the program. Every method holds
  \<^verbatim>\<open>mutex_\<close> for its whole body and is one atomic step.
\<close>

section \<open>Operations\<close>

record KVStore =
  data :: "(string \<times> string) list"

definition KVStore_new :: KVStore where
  "KVStore_new = \<lparr>data = []\<rparr>"

definition KVStore_set :: "string \<Rightarrow> string \<Rightarrow> KVStore \<Rightarrow> KVStore" where
  "KVStore_set key val s = s\<lparr>data := AList.update key val (data s)\<rparr>"

definition KVStore_get :: "KVStore \<Rightarrow> string \<Rightarrow> string option" where
  "KVStore_get s key = map_of (data s) key"

definition KVStore_remove :: "string \<Rightarrow> KVStore \<Rightarrow> bool \<times> KVStore" where
  "KVStore_remove key s =
     (let d = AList.delete key (data s) in (length (data s) - length d > 0, s\<lparr>data := d\<rparr>))"

definition KVStore_contains :: "KVStore \<Rightarrow> string \<Rightarrow> bool" where
  "KVStore_contains s key = (map_of (data s) key \<noteq> None)"

definition KVStore_size :: "KVStore \<Rightarrow> nat" where
  "KVStore_size s = length (data s)"

section \<open>The interface of a map\<close>

text \<open>What the server relies on: the operations act on a finite map.\<close>

locale store_interface =
  fixes view :: "'s \<Rightarrow> string \<Rightarrow> string option"
    and valid :: "'s \<Rightarrow> bool"
    and new :: "'s"
    and put_pair :: "string \<Rightarrow> string \<Rightarrow> 's \<Rightarrow> 's"
    and look :: "'s \<Rightarrow> string \<Rightarrow> string option"
    and drop_key :: "string \<Rightarrow> 's \<Rightarrow> bool \<times> 's"
    and has :: "'s \<Rightarrow> string \<Rightarrow> bool"
    and count :: "'s \<Rightarrow> nat"
  assumes new_valid: "valid new" and new_view: "view new = Map.empty"
    and put_valid: "valid s \<Longrightarrow> valid (put_pair k v s)"
    and put_view: "valid s \<Longrightarrow> view (put_pair k v s) = (view s)(k \<mapsto> v)"
    and look_view: "valid s \<Longrightarrow> look s k = view s k"
    and drop_valid: "valid s \<Longrightarrow> valid (snd (drop_key k s))"
    and drop_view: "valid s \<Longrightarrow> view (snd (drop_key k s)) = (view s)(k := None)"
    and drop_found: "valid s \<Longrightarrow> fst (drop_key k s) \<longleftrightarrow> k \<in> dom (view s)"
    and has_view: "valid s \<Longrightarrow> has s k \<longleftrightarrow> k \<in> dom (view s)"
    and count_view: "valid s \<Longrightarrow> count s = card (dom (view s))"
begin

lemma look_put: "valid s \<Longrightarrow> look (put_pair k v s) k' = (if k' = k then Some v else look s k')"
  by (simp add: look_view put_valid put_view)

lemma look_drop: "valid s \<Longrightarrow> look (snd (drop_key k s)) k' = (if k' = k then None else look s k')"
  by (simp add: look_view drop_valid drop_view)

lemma has_look: "valid s \<Longrightarrow> has s k \<longleftrightarrow> look s k \<noteq> None"
  by (simp add: has_view look_view domIff)

lemma finite_dom: "valid s \<Longrightarrow> count s \<noteq> 0 \<Longrightarrow> finite (dom (view s))"
  by (simp add: count_view card_ge_0_finite)

lemma count_put: "valid s \<Longrightarrow> has s k \<Longrightarrow> count (put_pair k v s) = count s"
  by (simp add: count_view put_valid put_view has_view insert_absorb)

text \<open>A sequence of updates, each a write or a removal, acts on the view as it does on a map.\<close>

lemma updates_view:
  "valid s \<Longrightarrow> valid (fold (\<lambda>(k, w). case w of Some v \<Rightarrow> put_pair k v | None \<Rightarrow> (\<lambda>s. snd (drop_key k s))) us s)
     \<and> view (fold (\<lambda>(k, w). case w of Some v \<Rightarrow> put_pair k v | None \<Rightarrow> (\<lambda>s. snd (drop_key k s))) us s)
       = fold (\<lambda>(k, w) m. m(k := w)) us (view s)"
  by (induction us arbitrary: s) (auto simp: put_valid drop_valid put_view drop_view split: option.splits)

end

definition KVStore_ok :: "KVStore \<Rightarrow> bool" where
  "KVStore_ok s \<longleftrightarrow> distinct (map fst (data s))"

definition KVStore_view :: "KVStore \<Rightarrow> string \<Rightarrow> string option" where
  "KVStore_view s = map_of (data s)"

lemma delete_length:
  "distinct (map fst xs) \<Longrightarrow> length (AList.delete k xs) < length xs \<longleftrightarrow> k \<in> fst ` set xs"
proof (induction xs)
  case (Cons x xs)
  then show ?case
    by (cases x) (auto simp: AList.delete_eq image_iff less_Suc_eq_le)
qed simp

interpretation kv: store_interface KVStore_view KVStore_ok KVStore_new KVStore_set KVStore_get KVStore_remove
    KVStore_contains KVStore_size
proof unfold_locales
  fix s k
  assume ok: "KVStore_ok s"
  show "fst (KVStore_remove k s) \<longleftrightarrow> k \<in> dom (KVStore_view s)"
    using ok delete_length [of "data s" k]
    by (simp add: KVStore_remove_def KVStore_ok_def KVStore_view_def dom_map_of_conv_image_fst)
  show "KVStore_size s = card (dom (KVStore_view s))"
    using ok by (simp add: KVStore_size_def KVStore_ok_def KVStore_view_def dom_map_of_conv_image_fst
        distinct_card flip: set_map)
qed (auto simp: KVStore_ok_def KVStore_view_def KVStore_new_def KVStore_set_def KVStore_get_def KVStore_remove_def
    KVStore_contains_def Let_def update_conv' delete_conv' distinct_update distinct_delete)

section \<open>Sequences of updates\<close>

text \<open>A write or a removal.\<close>

definition kv_update :: "string \<times> string option \<Rightarrow> KVStore \<Rightarrow> KVStore" where
  "kv_update u s = (case u of (k, Some v) \<Rightarrow> KVStore_set k v s | (k, None) \<Rightarrow> snd (KVStore_remove k s))"

lemma kv_update_eq:
  "kv_update = (\<lambda>(k, w). case w of Some v \<Rightarrow> KVStore_set k v | None \<Rightarrow> (\<lambda>s. snd (KVStore_remove k s)))"
  by (auto simp: kv_update_def fun_eq_iff split: option.splits)

lemma updates_ok: "KVStore_ok (fold kv_update us KVStore_new)"
  unfolding kv_update_eq using kv.updates_view [OF kv.new_valid] by blast

text \<open>
  After any sequence of writes and removals, \<^verbatim>\<open>get\<close>, \<^verbatim>\<open>contains\<close>, \<^verbatim>\<open>size\<close> and the result of \<^verbatim>\<open>remove\<close> are
  those of the finite map obtained by the same updates of the empty map.
\<close>

theorem store_refines_map:
  "KVStore_get (fold kv_update us KVStore_new) k = fold (\<lambda>(k, w) m. m(k := w)) us Map.empty k
   \<and> (KVStore_contains (fold kv_update us KVStore_new) k \<longleftrightarrow> k \<in> dom (fold (\<lambda>(k, w) m. m(k := w)) us Map.empty))
   \<and> (fst (KVStore_remove k (fold kv_update us KVStore_new)) \<longleftrightarrow> k \<in> dom (fold (\<lambda>(k, w) m. m(k := w)) us Map.empty))
   \<and> KVStore_size (fold kv_update us KVStore_new) = card (dom (fold (\<lambda>(k, w) m. m(k := w)) us Map.empty))"
proof -
  have view: "KVStore_view (fold kv_update us KVStore_new) = fold (\<lambda>(k, w) m. m(k := w)) us Map.empty"
    unfolding kv_update_eq using kv.updates_view [OF kv.new_valid, of us] kv.new_view by simp
  show ?thesis
    using kv.look_view [OF updates_ok] kv.has_view [OF updates_ok] kv.drop_found [OF updates_ok]
      kv.count_view [OF updates_ok] by (simp add: view)
qed

end
