(* ===== verification/Codec.thy ===== *)
theory Codec
  imports Prelude
begin

text \<open>
  The binary codec of \<^verbatim>\<open>include/dkvs/codec.hpp\<close> and \<^verbatim>\<open>src/codec.cpp\<close>: \<^verbatim>\<open>Encoder\<close>, \<^verbatim>\<open>Decoder\<close>
  and the table-driven \<^verbatim>\<open>crc32\<close>. The locale \<open>wire\<close> is the contract between an encoder and its
  decoder on which every message format of the program rests (\<open>canonical_wire\<close> adds that the
  decoder accepts nothing but encodings); both are interpreted on the \<^verbatim>\<open>u8\<close>, \<^verbatim>\<open>u32\<close>, \<^verbatim>\<open>u64\<close> and
  \<^verbatim>\<open>str\<close> operations. The checksum is shown equal to the bit-serial CRC-32 and to detect every error
  burst of at most four bytes.
\<close>

section \<open>Encoder\<close>

record Encoder =
  buf :: string

definition Encoder_new :: Encoder where
  "Encoder_new = \<lparr>buf = []\<rparr>"

definition Encoder_push :: "u8 \<Rightarrow> Encoder \<Rightarrow> Encoder" where
  "Encoder_push b e = e\<lparr>buf := buf e @ [char_of_byte b]\<rparr>"

definition Encoder_u8 :: "u8 \<Rightarrow> Encoder \<Rightarrow> Encoder" where
  "Encoder_u8 v e = Encoder_push v e"

definition Encoder_u32 :: "u32 \<Rightarrow> Encoder \<Rightarrow> Encoder" where
  "Encoder_u32 v e =
     foldl (\<lambda>e shift. Encoder_push (byte_at shift v) e) e [24, 16, 8, 0]"

definition Encoder_u64 :: "u64 \<Rightarrow> Encoder \<Rightarrow> Encoder" where
  "Encoder_u64 v e =
     foldl (\<lambda>e shift. Encoder_push (byte_at shift v) e) e
       [56, 48, 40, 32, 24, 16, 8, 0]"

definition Encoder_str :: "string \<Rightarrow> Encoder \<Rightarrow> Encoder" where
  "Encoder_str s e =
     (let e' = Encoder_u32 (word_of_nat (length s)) e in e'\<lparr>buf := buf e' @ s\<rparr>)"

definition Encoder_take :: "Encoder \<Rightarrow> string" where
  "Encoder_take e = buf e"

section \<open>Decoder\<close>

record Decoder =
  ddata :: string
  dpos :: nat

definition Decoder_new :: "string \<Rightarrow> Decoder" where
  "Decoder_new bytes = \<lparr>ddata = bytes, dpos = 0\<rparr>"

definition Decoder_done :: "Decoder \<Rightarrow> bool" where
  "Decoder_done d \<longleftrightarrow> dpos d = length (ddata d)"

definition Decoder_remaining :: "Decoder \<Rightarrow> nat" where
  "Decoder_remaining d = length (ddata d) - dpos d"

text \<open>One round of the integer loops: \<^verbatim>\<open>v = (v << 8) | static_cast<uint8_t>(data_[pos_++])\<close>.\<close>

definition Decoder_shift_in :: "'a::len word \<times> Decoder \<Rightarrow> 'a word \<times> Decoder" where
  "Decoder_shift_in vd =
     (let (v, d) = vd
      in (shift_in v (byte_of_char (ddata d ! dpos d)), d\<lparr>dpos := dpos d + 1\<rparr>))"

definition Decoder_u8 :: "Decoder \<Rightarrow> u8 option \<times> Decoder" where
  "Decoder_u8 d =
     (if Decoder_remaining d < 1 then (None, d)
      else (Some (byte_of_char (ddata d ! dpos d)), d\<lparr>dpos := dpos d + 1\<rparr>))"

definition Decoder_u32 :: "Decoder \<Rightarrow> u32 option \<times> Decoder" where
  "Decoder_u32 d =
     (if Decoder_remaining d < 4 then (None, d)
      else let (v, d') = (Decoder_shift_in ^^ 4) (0, d) in (Some v, d'))"

definition Decoder_u64 :: "Decoder \<Rightarrow> u64 option \<times> Decoder" where
  "Decoder_u64 d =
     (if Decoder_remaining d < 8 then (None, d)
      else let (v, d') = (Decoder_shift_in ^^ 8) (0, d) in (Some v, d'))"

definition Decoder_str :: "Decoder \<Rightarrow> string option \<times> Decoder" where
  "Decoder_str d =
     (let (len, d1) = Decoder_u32 d
      in case len of
           None \<Rightarrow> (None, d1)
         | Some l \<Rightarrow>
             if Decoder_remaining d1 < unat l then (None, d1)
             else (Some (take (unat l) (drop (dpos d1) (ddata d1))),
                   d1\<lparr>dpos := dpos d1 + unat l\<rparr>))"

section \<open>CRC-32\<close>

definition crc_step :: "u32 \<Rightarrow> u32" where
  "crc_step c = (if c AND 1 \<noteq> 0 then 0xEDB88320 XOR drop_bit 1 c else drop_bit 1 c)"

definition makeCrcTable :: "u32 list" where
  "makeCrcTable = map (\<lambda>i. (crc_step ^^ 8) (word_of_nat i)) [0..<256]"

definition crc32_byte :: "u32 \<Rightarrow> char \<Rightarrow> u32" where
  "crc32_byte crc ch =
     (makeCrcTable ! unat ((crc XOR ucast (byte_of_char ch)) AND 0xFF)) XOR drop_bit 8 crc"

definition crc32 :: "string \<Rightarrow> u32" where
  "crc32 data = foldl crc32_byte 0xFFFFFFFF data XOR 0xFFFFFFFF"

text \<open>
  The reference: the bit-serial CRC-32 of the IEEE polynomial, one message bit at a time, least
  significant bit first.
\<close>

definition crc_bit :: "u32 \<Rightarrow> bool \<Rightarrow> u32" where
  "crc_bit c b = (if bit c 0 \<noteq> b then 0xEDB88320 XOR drop_bit 1 c else drop_bit 1 c)"

definition message_bits :: "string \<Rightarrow> bool list" where
  "message_bits s = concat (map (\<lambda>ch. map (bit (byte_of_char ch)) [0..<8]) s)"

definition crc32_serial :: "string \<Rightarrow> u32" where
  "crc32_serial s = NOT (foldl crc_bit (NOT 0) (message_bits s))"


section \<open>What the encoder appends\<close>

definition be32 :: "u32 \<Rightarrow> string" where
  "be32 v = map (\<lambda>shift. char_of_byte (byte_at shift v)) [24, 16, 8, 0]"

definition be64 :: "u64 \<Rightarrow> string" where
  "be64 v = map (\<lambda>shift. char_of_byte (byte_at shift v))
     [56, 48, 40, 32, 24, 16, 8, 0]"

definition lstr :: "string \<Rightarrow> string" where
  "lstr s = be32 (word_of_nat (length s)) @ s"

lemma buf_Encoder_new [codec_simps]: "buf Encoder_new = []"
  by (simp add: Encoder_new_def)

lemma buf_Encoder_u8 [codec_simps]: "buf (Encoder_u8 v e) = buf e @ [char_of_byte v]"
  by (simp add: Encoder_u8_def Encoder_push_def)

lemma buf_Encoder_u32 [codec_simps]: "buf (Encoder_u32 v e) = buf e @ be32 v"
  by (simp add: Encoder_u32_def Encoder_push_def be32_def)

lemma buf_Encoder_u64 [codec_simps]: "buf (Encoder_u64 v e) = buf e @ be64 v"
  by (simp add: Encoder_u64_def Encoder_push_def be64_def)

lemma buf_Encoder_str [codec_simps]: "buf (Encoder_str s e) = buf e @ lstr s"
  by (simp add: Encoder_str_def Let_def buf_Encoder_u32 lstr_def)

lemma Encoder_take_buf [codec_simps]: "Encoder_take e = buf e"
  by (simp add: Encoder_take_def)

lemma length_be32 [simp]: "length (be32 v) = 4"
  by (simp add: be32_def)

lemma length_be64 [simp]: "length (be64 v) = 8"
  by (simp add: be64_def)

lemma length_lstr [simp]: "length (lstr s) = 4 + length s"
  by (simp add: lstr_def)

section \<open>The decoder's view\<close>

definition wf_Decoder :: "Decoder \<Rightarrow> bool" where
  "wf_Decoder d \<longleftrightarrow> dpos d \<le> length (ddata d)"

definition rest :: "Decoder \<Rightarrow> string" where
  "rest d = drop (dpos d) (ddata d)"

definition advance :: "nat \<Rightarrow> Decoder \<Rightarrow> Decoder" where
  "advance n d = d\<lparr>dpos := dpos d + n\<rparr>"

lemma rest_Decoder_new [simp]: "rest (Decoder_new s) = s"
  by (simp add: rest_def Decoder_new_def)

lemma wf_Decoder_new [simp]: "wf_Decoder (Decoder_new s)"
  by (simp add: wf_Decoder_def Decoder_new_def)

lemma rest_advance [simp]: "rest (advance n d) = drop n (rest d)"
  by (simp add: rest_def advance_def add.commute)

lemma advance_advance [simp]: "advance n (advance m d) = advance (m + n) d"
  by (simp add: advance_def add.assoc)

lemma advance_0 [simp]: "advance 0 d = d"
  by (simp add: advance_def)

lemma wf_Decoder_advance [simp]: "wf_Decoder d \<Longrightarrow> n \<le> length (rest d) \<Longrightarrow> wf_Decoder (advance n d)"
  by (simp add: wf_Decoder_def advance_def rest_def)

text \<open>
  \<open>moves_on d d'\<close>: the decoder \<open>d'\<close> is over the same buffer as \<open>d\<close>, has not moved back, and has
  not run past the end.
\<close>

definition moves_on :: "Decoder \<Rightarrow> Decoder \<Rightarrow> bool" where
  "moves_on d d' \<longleftrightarrow> wf_Decoder d' \<and> ddata d' = ddata d \<and> dpos d \<le> dpos d'"

lemma moves_on_refl [simp]: "moves_on d d \<longleftrightarrow> wf_Decoder d"
  by (simp add: moves_on_def)

lemma moves_on_trans [trans]: "moves_on d d' \<Longrightarrow> moves_on d' d'' \<Longrightarrow> moves_on d d''"
  by (simp add: moves_on_def)

lemma moves_on_wf: "moves_on d d' \<Longrightarrow> wf_Decoder d'"
  by (simp add: moves_on_def)

lemma moves_on_advance [simp]:
  "wf_Decoder d \<Longrightarrow> n \<le> length (rest d) \<Longrightarrow> moves_on d (advance n d)"
  by (simp add: moves_on_def wf_Decoder_def advance_def rest_def)

lemma remaining_rest [codec_simps]: "Decoder_remaining d = length (rest d)"
  by (simp add: Decoder_remaining_def rest_def)

lemma done_rest [codec_simps]: "wf_Decoder d \<Longrightarrow> Decoder_done d \<longleftrightarrow> rest d = []"
  by (auto simp: Decoder_done_def wf_Decoder_def rest_def)

lemma ddata_at [codec_simps]: "rest d \<noteq> [] \<Longrightarrow> ddata d ! dpos d = hd (rest d)"
  by (simp add: rest_def hd_drop_conv_nth)

lemma Decoder_u8_rest:
  "Decoder_u8 d = (case rest d of [] \<Rightarrow> (None, d) | c # _ \<Rightarrow> (Some (byte_of_char c), advance 1 d))"
  by (cases "rest d")
    (auto simp: Decoder_u8_def remaining_rest advance_def ddata_at)

lemma shift_in_rest:
  "rest d = c # cs \<Longrightarrow>
   Decoder_shift_in (v, d) = (shift_in v (byte_of_char c), advance 1 d)"
  by (simp add: Decoder_shift_in_def ddata_at advance_def)

section \<open>Integers on the wire\<close>

lemma drop_bit_32_u32 [simp]: "drop_bit 32 (v :: u32) = 0"
  by (intro bit_word_eqI) (auto simp: bit_simps dest: bit_imp_le_length)

lemma drop_bit_64_u64 [simp]: "drop_bit 64 (v :: u64) = 0"
  by (intro bit_word_eqI) (auto simp: bit_simps dest: bit_imp_le_length)

lemma Decoder_u32_be32:
  assumes "rest d = be32 v @ r"
  shows "Decoder_u32 d = (Some v, advance 4 d)"
proof -
  have step: "Decoder_shift_in (drop_bit (k + 8) v, advance n d) = (drop_bit k v, advance (n + 1) d)"
    if "drop n (rest d) = char_of_byte (byte_at k v) # cs" for k n cs
    using that by (simp add: shift_in_rest [of "advance n d"] shift_in_byte_at)
  have "(Decoder_shift_in ^^ 4) (0, d) = (v, advance 4 d)"
    using step [of 0 24] step [of 1 16] step [of 2 8] step [of 3 0] assms
    by (simp add: eval_nat_numeral be32_def)
  then show ?thesis
    using assms by (simp add: Decoder_u32_def remaining_rest)
qed

lemma Decoder_u64_be64:
  assumes "rest d = be64 v @ r"
  shows "Decoder_u64 d = (Some v, advance 8 d)"
proof -
  have step: "Decoder_shift_in (drop_bit (k + 8) v, advance n d) = (drop_bit k v, advance (n + 1) d)"
    if "drop n (rest d) = char_of_byte (byte_at k v) # cs" for k n cs
    using that by (simp add: shift_in_rest [of "advance n d"] shift_in_byte_at)
  have "(Decoder_shift_in ^^ 8) (0, d) = (v, advance 8 d)"
    using step [of 0 56] step [of 1 48] step [of 2 40] step [of 3 32]
      step [of 4 24] step [of 5 16] step [of 6 8] step [of 7 0] assms
    by (simp add: eval_nat_numeral be64_def)
  then show ?thesis
    using assms by (simp add: Decoder_u64_def remaining_rest)
qed

lemmas byte_at_u32 = byte_at_0_shift_in [where 'a = 32, simplified]
  byte_at_shift_in [where 'a = 32 and k = 0, simplified]
  byte_at_shift_in [where 'a = 32 and k = 8, simplified]
  byte_at_shift_in [where 'a = 32 and k = 16, simplified]

lemmas byte_at_u64 = byte_at_0_shift_in [where 'a = 64, simplified]
  byte_at_shift_in [where 'a = 64 and k = 0, simplified]
  byte_at_shift_in [where 'a = 64 and k = 8, simplified]
  byte_at_shift_in [where 'a = 64 and k = 16, simplified]
  byte_at_shift_in [where 'a = 64 and k = 24, simplified]
  byte_at_shift_in [where 'a = 64 and k = 32, simplified]
  byte_at_shift_in [where 'a = 64 and k = 40, simplified]
  byte_at_shift_in [where 'a = 64 and k = 48, simplified]

lemma Decoder_u32_Cons:
  assumes "rest d = a # b # c # e # r"
  shows "Decoder_u32 d = (Some (foldl shift_in 0 (map byte_of_char [a, b, c, e])), advance 4 d)"
  using assms
  by (simp add: Decoder_u32_def remaining_rest eval_nat_numeral shift_in_rest)

lemma Decoder_u64_Cons:
  assumes "rest d = a # b # c # e # f # g # h # i # r"
  shows "Decoder_u64 d =
    (Some (foldl shift_in 0 (map byte_of_char [a, b, c, e, f, g, h, i])), advance 8 d)"
  using assms
  by (simp add: Decoder_u64_def remaining_rest eval_nat_numeral shift_in_rest)

lemma Decoder_u32_None: "length (rest d) < 4 \<Longrightarrow> Decoder_u32 d = (None, d)"
  by (simp add: Decoder_u32_def remaining_rest)

lemma Decoder_u64_None: "length (rest d) < 8 \<Longrightarrow> Decoder_u64 d = (None, d)"
  by (simp add: Decoder_u64_def remaining_rest)

lemma Decoder_u32_SomeD:
  assumes "Decoder_u32 d = (Some v, d')"
  shows "\<exists>r. rest d = be32 v @ r \<and> d' = advance 4 d"
proof -
  from assms have "4 \<le> length (rest d)"
    by (metis Decoder_u32_None not_le option.distinct(1) fst_conv)
  then obtain a b c e r where r: "rest d = a # b # c # e # r"
    by (auto simp: Suc_le_length_iff eval_nat_numeral)
  from assms Decoder_u32_Cons [OF r] show ?thesis
    by (auto simp: r be32_def byte_at_u32)
qed

lemma Decoder_u64_SomeD:
  assumes "Decoder_u64 d = (Some v, d')"
  shows "\<exists>r. rest d = be64 v @ r \<and> d' = advance 8 d"
proof -
  from assms have "8 \<le> length (rest d)"
    by (metis Decoder_u64_None not_le option.distinct(1) fst_conv)
  then obtain a b c e f g h i r where r: "rest d = a # b # c # e # f # g # h # i # r"
    by (auto simp: Suc_le_length_iff eval_nat_numeral)
  from assms Decoder_u64_Cons [OF r] show ?thesis
    by (auto simp: r be64_def byte_at_u64)
qed

section \<open>The contract of a wire format\<close>

text \<open>
  \<open>decode_n dec n\<close> is a counted loop that stops at the first item that does not decode, as the
  loop over the entries of an AppendEntries frame does.
\<close>

fun decode_n :: "(Decoder \<Rightarrow> 'a option \<times> Decoder) \<Rightarrow> nat \<Rightarrow> Decoder \<Rightarrow> 'a list option \<times> Decoder" where
  "decode_n dec 0 d = (Some [], d)"
| "decode_n dec (Suc n) d =
     (case dec d of
        (None, d') \<Rightarrow> (None, d')
      | (Some x, d') \<Rightarrow>
          (case decode_n dec n d' of
             (None, d'') \<Rightarrow> (None, d'')
           | (Some xs, d'') \<Rightarrow> (Some (x # xs), d'')))"

locale wire =
  fixes enc :: "'a \<Rightarrow> string"
    and dec :: "Decoder \<Rightarrow> 'a option \<times> Decoder"
    and ok :: "'a \<Rightarrow> bool"
  assumes dec_enc:
      "ok v \<Longrightarrow> wf_Decoder d \<Longrightarrow> rest d = enc v @ r \<Longrightarrow> dec d = (Some v, advance (length (enc v)) d)"
    and dec_wf: "wf_Decoder d \<Longrightarrow> dec d = (x, d') \<Longrightarrow> moves_on d d'"
begin

lemma dec_encE:
  assumes "ok v" "wf_Decoder d" "rest d = enc v @ r"
  obtains d' where "dec d = (Some v, d')" "wf_Decoder d'" "rest d' = r"
  using dec_enc [OF assms] dec_wf [OF assms(2)] assms(3) by (auto simp: moves_on_def)

lemma prefix_free:
  assumes "ok v" "ok w" "enc v @ r = enc w @ s"
  shows "v = w \<and> r = s"
proof -
  let ?d = "Decoder_new (enc v @ r)"
  have "dec ?d = (Some v, advance (length (enc v)) ?d)"
    using assms(1) by (intro dec_enc) auto
  moreover have "dec ?d = (Some w, advance (length (enc w)) ?d)"
    using assms(2,3) by (intro dec_enc) auto
  ultimately show ?thesis
    using assms(3) by auto
qed

lemma decode_n_enc:
  assumes "\<forall>v \<in> set vs. ok v" "wf_Decoder d" "rest d = concat (map enc vs) @ r"
  shows "decode_n dec (length vs) d = (Some vs, advance (length (concat (map enc vs))) d)"
  using assms
proof (induction vs arbitrary: d)
  case Nil
  then show ?case by simp
next
  case (Cons v vs)
  from Cons.prems have "dec d = (Some v, advance (length (enc v)) d)"
    by (intro dec_enc) auto
  moreover from Cons.prems
  have "decode_n dec (length vs) (advance (length (enc v)) d)
      = (Some vs, advance (length (concat (map enc vs))) (advance (length (enc v)) d))"
    by (intro Cons.IH) auto
  ultimately show ?case by simp
qed

lemma decode_n_wf:
  assumes "wf_Decoder d" "decode_n dec n d = (x, d')"
  shows "moves_on d d'"
  using assms
proof (induction n arbitrary: d x d')
  case 0
  then show ?case by simp
next
  case (Suc n)
  from Suc.prems(2) obtain y d1 where y: "dec d = (y, d1)"
    by (cases "dec d")
  from dec_wf [OF Suc.prems(1) y] have d1: "moves_on d d1" .
  show ?case
  proof (cases y)
    case None
    with Suc.prems(2) y d1 show ?thesis by simp
  next
    case (Some v)
    obtain z d2 where z: "decode_n dec n d1 = (z, d2)"
      by (cases "decode_n dec n d1")
    from Suc.IH [OF moves_on_wf [OF d1] z] have "moves_on d1 d2" .
    with Suc.prems(2) y z Some d1 show ?thesis
      by (auto split: option.splits intro: moves_on_trans)
  qed
qed

end

locale canonical_wire = wire +
  assumes dec_SomeD: "wf_Decoder d \<Longrightarrow> dec d = (Some v, d') \<Longrightarrow>
      ok v \<and> (\<exists>r. rest d = enc v @ r) \<and> d' = advance (length (enc v)) d"
begin

lemma dec_SomeE:
  assumes "wf_Decoder d" "dec d = (Some v, d')"
  obtains "ok v" "wf_Decoder d'" "rest d = enc v @ rest d'"
  using dec_SomeD [OF assms] dec_wf [OF assms] by (auto simp: moves_on_def)

lemma truncated:
  assumes "ok v" "wf_Decoder d" "rest d = take n (enc v)" "n < length (enc v)"
  shows "fst (dec d) = None"
proof (rule ccontr)
  assume "fst (dec d) \<noteq> None"
  then obtain w d' where w: "dec d = (Some w, d')"
    by (cases "dec d") auto
  from dec_SomeD [OF assms(2) w] assms(3) obtain r where "ok w" "take n (enc v) = enc w @ r"
    by auto
  then have "enc v @ [] = enc w @ (r @ drop n (enc v))"
    by (metis append_Nil2 append_assoc append_take_drop_id)
  with \<open>ok w\<close> assms(1) have "drop n (enc v) = []"
    by (metis append_is_Nil_conv prefix_free)
  with assms(4) show False by simp
qed

lemma decode_n_SomeD:
  assumes "wf_Decoder d" "decode_n dec n d = (Some vs, d')"
  shows "(\<forall>v \<in> set vs. ok v) \<and> length vs = n \<and> (\<exists>r. rest d = concat (map enc vs) @ r)
    \<and> d' = advance (length (concat (map enc vs))) d"
  using assms
proof (induction n arbitrary: d vs)
  case 0
  then show ?case by simp
next
  case (Suc n)
  from Suc.prems(2) obtain v ws d1 where v: "dec d = (Some v, d1)"
    and ws: "decode_n dec n d1 = (Some ws, d')" and vs: "vs = v # ws"
    by (auto split: prod.splits option.splits)
  from dec_wf [OF Suc.prems(1) v] have "wf_Decoder d1" by (rule moves_on_wf)
  from Suc.IH [OF this ws] dec_SomeD [OF Suc.prems(1) v] vs show ?case
    by auto
qed

end

lemma Decoder_str_Some:
  assumes "Decoder_u32 d = (Some l, d1)"
  shows "Decoder_str d =
    (if length (rest d1) < unat l then (None, d1)
     else (Some (take (unat l) (rest d1)), advance (unat l) d1))"
  using assms by (simp add: Decoder_str_def remaining_rest rest_def advance_def)

lemma Decoder_str_None:
  assumes "Decoder_u32 d = (None, d1)"
  shows "Decoder_str d = (None, d1)"
  using assms by (simp add: Decoder_str_def)

lemma Decoder_u8_wf:
  assumes "wf_Decoder d" "Decoder_u8 d = (x, d')"
  shows "moves_on d d'"
  using assms by (cases "rest d") (auto simp: Decoder_u8_rest)

lemma Decoder_u32_wf:
  assumes "wf_Decoder d" "Decoder_u32 d = (x, d')"
  shows "moves_on d d'"
proof (cases x)
  case None
  with assms show ?thesis
    by (auto simp: Decoder_u32_def split: if_splits prod.splits)
next
  case (Some v)
  with assms(2) obtain r where "rest d = be32 v @ r" "d' = advance 4 d"
    by (auto dest: Decoder_u32_SomeD)
  with assms(1) show ?thesis
    by simp
qed

lemma Decoder_u64_wf:
  assumes "wf_Decoder d" "Decoder_u64 d = (x, d')"
  shows "moves_on d d'"
proof (cases x)
  case None
  with assms show ?thesis
    by (auto simp: Decoder_u64_def split: if_splits prod.splits)
next
  case (Some v)
  with assms(2) obtain r where "rest d = be64 v @ r" "d' = advance 8 d"
    by (auto dest: Decoder_u64_SomeD)
  with assms(1) show ?thesis
    by simp
qed

lemma Decoder_str_wf:
  assumes "wf_Decoder d" "Decoder_str d = (x, d')"
  shows "moves_on d d'"
proof -
  obtain y d1 where y: "Decoder_u32 d = (y, d1)"
    by (cases "Decoder_u32 d")
  from Decoder_u32_wf [OF assms(1) y] have d1: "moves_on d d1" .
  show ?thesis
  proof (cases y)
    case None
    with assms(2) y d1 show ?thesis by (auto simp: Decoder_str_None)
  next
    case (Some l)
    with assms(2) y d1 show ?thesis
      by (auto simp: Decoder_str_Some moves_on_wf split: if_splits
          intro!: moves_on_trans [OF d1] moves_on_advance)
  qed
qed

lemma Decoder_str_lstr:
  assumes "length v < 2 ^ 32" "rest d = lstr v @ r"
  shows "Decoder_str d = (Some v, advance (length (lstr v)) d)"
proof -
  have l: "unat (word_of_nat (length v) :: u32) = length v"
    using assms(1) by (intro unat_of_nat_id) simp
  have "Decoder_u32 d = (Some (word_of_nat (length v)), advance 4 d)"
    using assms(2) by (intro Decoder_u32_be32) (simp add: lstr_def)
  from Decoder_str_Some [OF this] show ?thesis
    using assms(2) by (simp add: l lstr_def)
qed

lemma Decoder_str_SomeD:
  assumes "Decoder_str d = (Some v, d')"
  shows "length v < 2 ^ 32 \<and> (\<exists>r. rest d = lstr v @ r) \<and> d' = advance (length (lstr v)) d"
proof -
  obtain l d1 where l: "Decoder_u32 d = (Some l, d1)"
    using assms by (cases "Decoder_u32 d"; cases "fst (Decoder_u32 d)") (auto simp: Decoder_str_def)
  from Decoder_str_Some [OF l] assms
  have v: "v = take (unat l) (rest d1)" "d' = advance (unat l) d1" "unat l \<le> length (rest d1)"
    by (auto split: if_splits)
  then have len: "length v = unat l" by simp
  from Decoder_u32_SomeD [OF l] obtain r where r: "rest d = be32 l @ r" "d1 = advance 4 d"
    by auto
  with v len have "rest d = lstr v @ drop (unat l) r"
    by (simp add: lstr_def)
  moreover have "length v < 2 ^ 32" "d' = advance (length (lstr v)) d"
    using v(2) r(2) len by simp_all
  ultimately show ?thesis
    by blast
qed

interpretation wire_u8: canonical_wire "\<lambda>v. [char_of_byte v]" Decoder_u8 "\<lambda>_. True"
  by unfold_locales (auto simp: Decoder_u8_rest Decoder_u8_wf split: list.splits)

interpretation wire_u32: canonical_wire be32 Decoder_u32 "\<lambda>_. True"
  by unfold_locales (auto simp: Decoder_u32_be32 Decoder_u32_wf dest: Decoder_u32_SomeD)

interpretation wire_u64: canonical_wire be64 Decoder_u64 "\<lambda>_. True"
  by unfold_locales (auto simp: Decoder_u64_be64 Decoder_u64_wf dest: Decoder_u64_SomeD)

interpretation wire_str: canonical_wire lstr Decoder_str "\<lambda>s. length s < 2 ^ 32"
  by unfold_locales (auto simp: Decoder_str_lstr Decoder_str_wf dest: Decoder_str_SomeD)

section \<open>The checksum\<close>

text \<open>
  One shift of the register is linear and injective; \<open>crc_step ^^ k\<close> on a word whose low \<open>k\<close> bits
  are clear is a plain shift. From these three facts the table lookup, the bit-serial form and the
  burst detection all follow.
\<close>

lemma crc_step_alt: "crc_step c = (if bit c 0 then 0xEDB88320 else 0) XOR drop_bit 1 c"
  by (simp add: crc_step_def one_and_eq bit_0 and_one_eq odd_iff_mod_2_eq_one)

lemma crc_step_xor: "crc_step (a XOR b) = crc_step a XOR crc_step b"
  by (auto simp: crc_step_alt bit_simps drop_bit_xor ac_simps xor.left_commute)

lemma crc_steps_xor: "(crc_step ^^ k) (a XOR b) = (crc_step ^^ k) a XOR (crc_step ^^ k) b"
  by (induction k) (simp_all add: crc_step_xor)

lemma crc_step_top: "bit (crc_step c) 31 \<longleftrightarrow> bit c 0"
  by (auto simp: crc_step_alt bit_simps dest: bit_imp_le_length)

lemma inj_crc_step: "inj crc_step"
proof (rule injI)
  fix a b :: u32
  assume eq: "crc_step a = crc_step b"
  then have low: "bit a 0 \<longleftrightarrow> bit b 0"
    by (metis crc_step_top)
  with eq have "drop_bit 1 a = drop_bit 1 b"
    by (auto simp: crc_step_alt split: if_splits dest: arg_cong [where f = "\<lambda>x. 0xEDB88320 XOR x"])
  then have high: "bit a (Suc n) \<longleftrightarrow> bit b (Suc n)" for n
    by (metis bit_drop_bit_eq comp_apply plus_1_eq_Suc)
  show "a = b"
  proof (rule bit_word_eqI)
    fix n
    show "bit a n \<longleftrightarrow> bit b n"
      using low high by (cases n) auto
  qed
qed

lemma inj_crc_steps: "inj (crc_step ^^ k)"
proof (induction k)
  case (Suc k)
  then have "inj (crc_step \<circ> (crc_step ^^ k))"
    by (intro inj_compose inj_crc_step)
  then show ?case by (simp add: comp_def)
qed simp

lemma crc_steps_clear:
  "(\<And>n. n < k \<Longrightarrow> \<not> bit c n) \<Longrightarrow> (crc_step ^^ k) c = drop_bit k c"
proof (induction k)
  case 0
  then show ?case by simp
next
  case (Suc k)
  then have "(crc_step ^^ k) c = drop_bit k c" by simp
  moreover have "\<not> bit (drop_bit k c) 0"
    using Suc.prems [of k] by (simp add: bit_drop_bit_eq)
  then have "crc_step (drop_bit k c) = drop_bit (Suc k) c"
    by (simp add: crc_step_alt)
  ultimately show ?case
    by simp
qed

lemma crc32_byte_steps: "crc32_byte c ch = (crc_step ^^ 8) (c XOR ucast (byte_of_char ch))"
proof -
  let ?x = "c XOR ucast (byte_of_char ch)"
  have table: "makeCrcTable ! unat (?x AND 0xFF) = (crc_step ^^ 8) (?x AND 0xFF)"
    by (simp only: makeCrcTable_def nth_map_upt unat_and_FF add_0 diff_zero of_nat_unat ucast_id)
  have "(crc_step ^^ 8) (?x AND NOT 0xFF) = drop_bit 8 (?x AND NOT 0xFF)"
    by (rule crc_steps_clear) (auto simp: mask_8_u bit_simps)
  also have "\<dots> = drop_bit 8 c"
    by (intro bit_word_eqI) (auto simp: mask_8_u bit_simps dest: bit_imp_le_length)
  finally have high: "(crc_step ^^ 8) (?x AND NOT 0xFF) = drop_bit 8 c" .
  have "?x = (?x AND 0xFF) XOR (?x AND NOT 0xFF)"
    by (intro bit_word_eqI) (auto simp: mask_8_u bit_simps)
  then have "(crc_step ^^ 8) ?x = (crc_step ^^ 8) (?x AND 0xFF) XOR (crc_step ^^ 8) (?x AND NOT 0xFF)"
    by (metis crc_steps_xor)
  then show ?thesis
    by (simp only: crc32_byte_def table high)
qed

lemma crc_bit_step: "crc_bit c b = crc_step (c XOR of_bool b)"
  by (auto simp: crc_bit_def crc_step_alt bit_simps drop_bit_xor)

text \<open>At most 32 message bits are shifted in as one word.\<close>

definition bits_word :: "bool list \<Rightarrow> u32" where
  "bits_word bs = horner_sum of_bool 2 bs"

lemma bit_bits_word: "bit (bits_word bs) n \<longleftrightarrow> n < 32 \<and> n < length bs \<and> bs ! n"
  by (auto simp: bits_word_def bit_horner_sum_bit_word_iff)

lemma foldl_crc_bit:
  assumes "length bs \<le> 32"
  shows "foldl crc_bit c bs = (crc_step ^^ length bs) (c XOR bits_word bs)"
  using assms
proof (induction bs rule: rev_induct)
  case Nil
  then show ?case by (simp add: bits_word_def)
next
  case (snoc b bs)
  let ?k = "length bs" and ?b = "push_bit (length bs) (of_bool b) :: u32"
  have "(crc_step ^^ ?k) ?b = drop_bit ?k ?b"
    by (rule crc_steps_clear) (simp add: bit_simps)
  also have "\<dots> = of_bool b"
    using snoc.prems by (intro bit_word_eqI) (auto simp: bit_simps)
  finally have b: "(crc_step ^^ ?k) ?b = of_bool b" .
  have w: "bits_word (bs @ [b]) = bits_word bs XOR ?b"
    by (intro bit_word_eqI) (auto simp: bit_bits_word bit_simps nth_append)
  have "foldl crc_bit c (bs @ [b]) = crc_step ((crc_step ^^ ?k) (c XOR bits_word bs) XOR of_bool b)"
    using snoc by (simp add: crc_bit_step [of "(crc_step ^^ length bs) (c XOR bits_word bs)"])
  also have "\<dots> = crc_step ((crc_step ^^ ?k) (c XOR bits_word (bs @ [b])))"
    by (simp add: w crc_steps_xor b xor.assoc [symmetric])
  finally show ?case by simp
qed


lemma byte_bits_word: "bits_word (map (bit (b :: u8)) [0..<8]) = ucast b"
proof (rule bit_word_eqI)
  fix n
  show "bit (bits_word (map (bit b) [0..<8])) n \<longleftrightarrow> bit (ucast b :: u32) n"
    using bit_imp_le_length [of b n] by (cases "n < 8") (auto simp: bit_bits_word bit_ucast_iff)
qed

lemma crc32_byte_bits: "crc32_byte c ch = foldl crc_bit c (map (bit (byte_of_char ch)) [0..<8])"
proof -
  have "foldl crc_bit c (map (bit (byte_of_char ch)) [0..<8])
      = (crc_step ^^ length (map (bit (byte_of_char ch)) [0..<8])) (c XOR ucast (byte_of_char ch))"
    by (subst foldl_crc_bit) (simp_all only: byte_bits_word, simp)
  then show ?thesis
    by (simp only: crc32_byte_steps length_map length_upt diff_zero)
qed

lemma foldl_crc32_byte: "foldl crc32_byte c s = foldl crc_bit c (message_bits s)"
  by (induction s arbitrary: c) (simp_all add: message_bits_def crc32_byte_bits)

lemma inj_crc_bit: "foldl crc_bit a bs = foldl crc_bit b bs \<longleftrightarrow> a = b"
proof (induction bs arbitrary: a b)
  case (Cons m bs)
  have "crc_bit a m = crc_bit b m \<longleftrightarrow> a XOR of_bool m = b XOR of_bool m"
    by (simp add: crc_bit_step inj_eq [OF inj_crc_step])
  also have "\<dots> \<longleftrightarrow> a = b"
    by (metis xor.assoc xor.right_neutral xor_self_eq)
  finally show ?case
    using Cons by simp
qed simp

lemma message_bits_append [simp]: "message_bits (s @ t) = message_bits s @ message_bits t"
  by (simp add: message_bits_def)

lemma length_message_bits [simp]: "length (message_bits s) = 8 * length s"
  by (induction s) (simp_all add: message_bits_def)

lemma inj_message_bits: "length s = length t \<Longrightarrow> message_bits s = message_bits t \<Longrightarrow> s = t"
proof (induction s t rule: list_induct2)
  case (Cons c s d t)
  from Cons.prems have "map (bit (byte_of_char c)) [0..<8] = map (bit (byte_of_char d)) [0..<8]"
    and "message_bits s = message_bits t"
    by (auto simp: message_bits_def)
  then have "byte_of_char c = byte_of_char d"
    by (intro bit_word_eqI) auto
  with Cons.IH \<open>message_bits s = message_bits t\<close> show ?case by simp
qed simp

lemma inj_bits_word:
  "length bs = length cs \<Longrightarrow> length bs \<le> 32 \<Longrightarrow> bits_word bs = bits_word cs \<Longrightarrow> bs = cs"
proof (intro nth_equalityI)
  fix i
  assume "length bs = length cs" "length bs \<le> 32" "bits_word bs = bits_word cs" "i < length bs"
  then show "bs ! i \<longleftrightarrow> cs ! i"
    using bit_bits_word [of bs i] bit_bits_word [of cs i] by simp
qed


lemma crc32_state_burst:
  assumes "length a = length b" "length a \<le> 4" "a \<noteq> b"
  shows "foldl crc32_byte c a \<noteq> foldl crc32_byte c b"
proof
  assume eq: "foldl crc32_byte c a = foldl crc32_byte c b"
  have "(crc_step ^^ (8 * length a)) (c XOR bits_word (message_bits a))
      = (crc_step ^^ (8 * length a)) (c XOR bits_word (message_bits b))"
    using eq assms(1,2) by (simp add: foldl_crc32_byte foldl_crc_bit)
  then have "c XOR (c XOR bits_word (message_bits a)) = c XOR (c XOR bits_word (message_bits b))"
    by (metis inj_crc_steps injD)
  then have "bits_word (message_bits a) = bits_word (message_bits b)"
    by (simp only: xor.assoc [symmetric] xor_self_eq xor.left_neutral)
  then have "message_bits a = message_bits b"
    using assms(1,2) by (intro inj_bits_word) simp_all
  with assms(1,3) show False
    by (blast dest: inj_message_bits)
qed

lemma crc32_eq_serial: "crc32 s = crc32_serial s"
proof -
  have ones: "(0xFFFFFFFF :: u32) = NOT 0" by simp
  have flip_all: "x XOR NOT 0 = NOT x" for x :: u32
    by (intro bit_word_eqI) (simp add: bit_simps)
  show ?thesis
    by (simp only: crc32_def crc32_serial_def foldl_crc32_byte ones flip_all)
qed

lemma crc32_burst:
  assumes "length a = length b" "length a \<le> 4" "a \<noteq> b"
  shows "crc32 (s @ a @ t) \<noteq> crc32 (s @ b @ t)"
proof -
  have "foldl crc32_byte (foldl crc32_byte 0xFFFFFFFF s) a \<noteq> foldl crc32_byte (foldl crc32_byte 0xFFFFFFFF s) b"
    using assms by (rule crc32_state_burst)
  then have "foldl crc32_byte 0xFFFFFFFF (s @ a @ t) \<noteq> foldl crc32_byte 0xFFFFFFFF (s @ b @ t)"
    by (simp add: foldl_crc32_byte [of _ t] inj_crc_bit)
  moreover have "x XOR m = y XOR m \<longleftrightarrow> x = y" for x y m :: u32
    by (metis xor.assoc xor.right_neutral xor_self_eq)
  ultimately show ?thesis
    by (simp only: crc32_def not_False_eq_True)
qed

section \<open>The checksum is CRC-32, and what it detects\<close>

text \<open>
  C24: The table-driven \<^verbatim>\<open>crc32\<close> computes the bit-serial CRC with the reflected IEEE polynomial: the
  message fed bit by bit, low bit of each byte first, into a register that starts with all ones and
  is complemented at the end.
\<close>

theorem crc32_computes_crc: "crc32 s = crc32_serial s"
  by (rule crc32_eq_serial)

text \<open>
  C25: Any change confined to four consecutive bytes of a message changes its checksum, whatever
  precedes and follows them.
\<close>

theorem crc32_detects_burst:
  assumes "length a = length b" "length a \<le> 4" "a \<noteq> b"
  shows "crc32 (s @ a @ t) \<noteq> crc32 (s @ b @ t)"
  using assms by (rule crc32_burst)

theorem crc32_detects_burst_witness:
  "length ''abc'' = length ''abd'' \<and> crc32 (''x'' @ ''abc'' @ ''yz'') \<noteq> crc32 (''x'' @ ''abd'' @ ''yz'')"
  using crc32_detects_burst [of "''abc''" "''abd''" "''x''" "''yz''"] by simp

end
