(* ===== verification/Command.thy ===== *)
theory Command
  imports Codec
begin

text \<open>
  State-machine commands and log entries (\<^verbatim>\<open>include/dkvs/command.hpp\<close>, \<^verbatim>\<open>src/command.cpp\<close>). The byte
  format of a command and of a log entry are wire formats in the sense of the codec's locales; the
  log-entry format is shared by the write-ahead log and by AppendEntries frames.
\<close>

section \<open>Commands\<close>

datatype Op = Set_Op | Get_Op | Del_Op

record Command =
  cmd_op :: Op
  cmd_key :: string
  cmd_value :: string

record LogEntry =
  entry_term :: u64
  entry_command :: string

fun Op_byte :: "Op \<Rightarrow> u8" where
  "Op_byte Set_Op = 1"
| "Op_byte Get_Op = 2"
| "Op_byte Del_Op = 3"

definition Op_of_byte :: "u8 \<Rightarrow> Op" where
  "Op_of_byte b = (if b = 1 then Set_Op else if b = 2 then Get_Op else Del_Op)"

definition Command_encode :: "Command \<Rightarrow> string" where
  "Command_encode c =
     (let enc = Encoder_new;
          enc = Encoder_u8 (Op_byte (cmd_op c)) enc;
          enc = Encoder_str (cmd_key c) enc;
          enc = Encoder_str (cmd_value c) enc
      in Encoder_take enc)"

definition Command_decode :: "string \<Rightarrow> Command option" where
  "Command_decode bytes =
     (let dec = Decoder_new bytes;
          (ob, dec) = Decoder_u8 dec;
          (key, dec) = Decoder_str dec;
          (val, dec) = Decoder_str dec
      in if ob = None \<or> key = None \<or> val = None \<or> \<not> Decoder_done dec then None
         else if the ob < Op_byte Set_Op \<or> the ob > Op_byte Del_Op then None
         else Some \<lparr>cmd_op = Op_of_byte (the ob), cmd_key = the key, cmd_value = the val\<rparr>)"

section \<open>The format of a command\<close>

definition sized :: "string \<Rightarrow> bool" where
  "sized s \<longleftrightarrow> length s < 2 ^ 32"

definition Command_ok :: "Command \<Rightarrow> bool" where
  "Command_ok c \<longleftrightarrow> sized (cmd_key c) \<and> sized (cmd_value c)"

lemma Op_of_byte_Op_byte [simp]: "Op_of_byte (Op_byte p) = p"
  by (cases p) (simp_all add: Op_of_byte_def)

lemma Op_byte_range [simp]: "Op_byte p \<noteq> 0" "Op_byte p \<le> 3"
  by (cases p; simp)+

lemma Op_byte_Op_of_byte:
  assumes "b \<noteq> 0" "b \<le> (3 :: u8)"
  shows "Op_byte (Op_of_byte b) = b"
proof -
  have "unat b \<noteq> 0" "unat b \<le> 3"
    using assms by (simp_all add: word_le_nat_alt unat_eq_0)
  then have "unat b \<in> {1, 2, 3}"
    by auto
  then have "b = 1 \<or> b = 2 \<or> b = 3"
    by (auto simp: word_unat_eq_iff)
  then show ?thesis
    by (auto simp: Op_of_byte_def)
qed

lemma Command_encode_eq:
  "Command_encode c = char_of_byte (Op_byte (cmd_op c)) # lstr (cmd_key c) @ lstr (cmd_value c)"
  by (simp add: Command_encode_def codec_simps)

lemma Command_decode_encode:
  assumes "Command_ok c"
  shows "Command_decode (Command_encode c) = Some c"
proof -
  let ?d = "Decoder_new (Command_encode c)"
  have len: "length (cmd_key c) < 2 ^ 32" "length (cmd_value c) < 2 ^ 32"
    using assms by (simp_all add: Command_ok_def sized_def)
  obtain d1 where d1: "Decoder_u8 ?d = (Some (Op_byte (cmd_op c)), d1)" "wf_Decoder d1"
      "rest d1 = lstr (cmd_key c) @ lstr (cmd_value c)"
    by (rule wire_u8.dec_encE [where v = "Op_byte (cmd_op c)" and d = ?d])
      (auto simp: Command_encode_eq)
  obtain d2 where d2: "Decoder_str d1 = (Some (cmd_key c), d2)" "wf_Decoder d2"
      "rest d2 = lstr (cmd_value c) @ []"
    using wire_str.dec_encE [OF len(1) d1(2,3)] by auto
  obtain d3 where d3: "Decoder_str d2 = (Some (cmd_value c), d3)" "wf_Decoder d3" "rest d3 = []"
    using wire_str.dec_encE [OF len(2) d2(2,3)] by auto
  show ?thesis
    using d1 d2 d3
    by (simp add: Command_decode_def done_rest not_less)
qed

lemma Command_decode_SomeD:
  assumes "Command_decode bytes = Some c"
  shows "Command_ok c \<and> bytes = Command_encode c"
proof -
  let ?d = "Decoder_new bytes"
  obtain b d1 where b: "Decoder_u8 ?d = (b, d1)" by (cases "Decoder_u8 ?d")
  obtain k d2 where k: "Decoder_str d1 = (k, d2)" by (cases "Decoder_str d1")
  obtain v d3 where v: "Decoder_str d2 = (v, d3)" by (cases "Decoder_str d2")
  from assms b k v obtain ob key val where some: "b = Some ob" "k = Some key" "v = Some val"
    and fin: "Decoder_done d3" and range: "ob \<noteq> 0" "ob \<le> 3"
    and c: "c = \<lparr>cmd_op = Op_of_byte ob, cmd_key = key, cmd_value = val\<rparr>"
    by (auto simp: Command_decode_def not_less split: if_splits)
  have 1: "wf_Decoder d1" "rest ?d = [char_of_byte ob] @ rest d1"
    by (rule wire_u8.dec_SomeE [OF wf_Decoder_new b [unfolded some]], assumption)+
  have 2: "sized key" "wf_Decoder d2" "rest d1 = lstr key @ rest d2"
    by (rule wire_str.dec_SomeE [OF 1(1) k [unfolded some]], simp add: sized_def)+
  have 3: "sized val" "wf_Decoder d3" "rest d2 = lstr val @ rest d3"
    by (rule wire_str.dec_SomeE [OF 2(2) v [unfolded some]], simp add: sized_def)+
  have "rest d3 = []"
    using fin 3(2) by (simp add: done_rest)
  with c 1 2 3 range show ?thesis
    by (simp add: Command_encode_eq Command_ok_def Op_byte_Op_of_byte)
qed

section \<open>The format of a log entry\<close>

text \<open>
  \<^verbatim>\<open>u64 term + u32 cmd_len + cmd bytes\<close>: the payload of a write-ahead-log record and the element of
  an AppendEntries frame. Both sites decode the term, then the command, and then test both.
\<close>

definition LogEntry_bytes :: "LogEntry \<Rightarrow> string" where
  "LogEntry_bytes e = be64 (entry_term e) @ lstr (entry_command e)"

definition LogEntry_ok :: "LogEntry \<Rightarrow> bool" where
  "LogEntry_ok e \<longleftrightarrow> sized (entry_command e)"

definition Decoder_LogEntry :: "Decoder \<Rightarrow> LogEntry option \<times> Decoder" where
  "Decoder_LogEntry dec =
     (let (t, dec) = Decoder_u64 dec;
          (c, dec) = Decoder_str dec
      in (if t = None \<or> c = None then None
          else Some \<lparr>entry_term = the t, entry_command = the c\<rparr>, dec))"

lemma Decoder_LogEntry_cases:
  obtains t c d1 d2 where "Decoder_u64 d = (t, d1)" "Decoder_str d1 = (c, d2)"
    "Decoder_LogEntry d = (if t = None \<or> c = None then None
       else Some \<lparr>entry_term = the t, entry_command = the c\<rparr>, d2)"
  by (cases "Decoder_u64 d"; cases "Decoder_str (snd (Decoder_u64 d))")
    (auto simp: Decoder_LogEntry_def)

lemma Decoder_LogEntry_wf:
  assumes "wf_Decoder d" "Decoder_LogEntry d = (x, d')"
  shows "moves_on d d'"
proof -
  obtain t c d1 where t: "Decoder_u64 d = (t, d1)" and c: "Decoder_str d1 = (c, d')"
    using assms(2) by (cases rule: Decoder_LogEntry_cases [of d]) auto
  from Decoder_u64_wf [OF assms(1) t] have d1: "moves_on d d1" .
  from Decoder_str_wf [OF moves_on_wf [OF d1] c] show ?thesis
    by (rule moves_on_trans [OF d1])
qed

lemma Decoder_LogEntry_enc:
  assumes "LogEntry_ok e" "wf_Decoder d" "rest d = LogEntry_bytes e @ r"
  shows "Decoder_LogEntry d = (Some e, advance (length (LogEntry_bytes e)) d)"
  using assms Decoder_u64_be64 [of d "entry_term e"]
    Decoder_str_lstr [of "entry_command e" "advance 8 d" r]
  by (simp add: Decoder_LogEntry_def LogEntry_bytes_def LogEntry_ok_def sized_def)

lemma Decoder_LogEntry_SomeD:
  assumes "wf_Decoder d" "Decoder_LogEntry d = (Some e, d')"
  shows "LogEntry_ok e \<and> (\<exists>r. rest d = LogEntry_bytes e @ r) \<and> d' = advance (length (LogEntry_bytes e)) d"
proof -
  obtain t c d1 where t: "Decoder_u64 d = (Some t, d1)" and c: "Decoder_str d1 = (Some c, d')"
    and e: "e = \<lparr>entry_term = t, entry_command = c\<rparr>"
    using assms(2) by (cases rule: Decoder_LogEntry_cases [of d]) (auto split: if_splits)
  obtain r where r: "rest d = be64 t @ r" "d1 = advance 8 d"
    using Decoder_u64_SomeD [OF t] by blast
  obtain r' where "length c < 2 ^ 32" "r = lstr c @ r'" "d' = advance (4 + length c) d1"
    using Decoder_str_SomeD [OF c] r by auto
  with r show ?thesis
    by (simp add: e LogEntry_bytes_def LogEntry_ok_def sized_def)
qed

interpretation wire_entry: canonical_wire LogEntry_bytes Decoder_LogEntry LogEntry_ok
  by unfold_locales
    (simp_all add: Decoder_LogEntry_enc Decoder_LogEntry_wf Decoder_LogEntry_SomeD)

lemma length_LogEntry_bytes [simp]: "length (LogEntry_bytes e) = 12 + length (entry_command e)"
  by (simp add: LogEntry_bytes_def)

section \<open>Commands on the wire\<close>

text \<open>
  C26: \<^verbatim>\<open>Command::decode\<close> accepts a byte string exactly when it is the encoding of a command whose key
  and value have a 32-bit length, and then returns that command: decoding inverts encoding, no
  two commands share an encoding, and truncated, extended or mistagged input is refused.
\<close>

theorem Command_decode_iff:
  "Command_decode bytes = Some c \<longleftrightarrow> Command_ok c \<and> bytes = Command_encode c"
  using Command_decode_encode Command_decode_SomeD by blast

end
