(* ===== verification/Protocol.thy ===== *)
theory Protocol
  imports Command
begin

text \<open>
  The client protocol (\<^verbatim>\<open>include/dkvs/protocol.hpp\<close>, \<^verbatim>\<open>src/protocol.cpp\<close>): parsing of a request line. A
  \<^verbatim>\<open>string_view\<close> that is advanced is the list of the characters that are left.
\<close>

section \<open>Parsing\<close>

datatype Kind = Command_Kind | Ping | Status | Quit

record ClientRequest =
  req_kind :: Kind
  req_command :: Command

definition blank :: "char \<Rightarrow> bool" where
  "blank c \<longleftrightarrow> c = CHR '' '' \<or> c = CHR 0x09"

fun trimLeft :: "string \<Rightarrow> string" where
  "trimLeft [] = []"
| "trimLeft (c # s) = (if blank c then trimLeft s else c # s)"

definition takeToken :: "string \<Rightarrow> string \<times> string" where
  "takeToken s =
     (let rem = trimLeft s; n = length (takeWhile (\<lambda>c. \<not> blank c) rem)
      in (take n rem, drop n rem))"

definition upcase :: "char \<Rightarrow> char" where
  "upcase c =
     (let b = (of_char c :: nat) in
      if of_char (CHR ''a'') \<le> b \<and> b \<le> of_char (CHR ''z'')
      then char_of (b - of_char (CHR ''a'') + of_char (CHR ''A'')) else c)"

fun equalsIgnoreCase :: "string \<Rightarrow> string \<Rightarrow> bool" where
  "equalsIgnoreCase (a # s) (b # t) = (upcase a = upcase b \<and> equalsIgnoreCase s t)"
| "equalsIgnoreCase [] [] = True"
| "equalsIgnoreCase _ _ = False"

text \<open>A default-constructed \<^verbatim>\<open>Command\<close>.\<close>

definition Command_new :: Command where
  "Command_new = \<lparr>cmd_op = Get_Op, cmd_key = [], cmd_value = []\<rparr>"

definition parseClientRequest :: "string \<Rightarrow> ClientRequest option" where
  "parseClientRequest line =
     (let (verb, rem) = takeToken line in
      if verb = [] then None
      else if equalsIgnoreCase verb ''PING'' then Some \<lparr>req_kind = Ping, req_command = Command_new\<rparr>
      else if equalsIgnoreCase verb ''STATUS'' then Some \<lparr>req_kind = Status, req_command = Command_new\<rparr>
      else if equalsIgnoreCase verb ''QUIT'' then Some \<lparr>req_kind = Quit, req_command = Command_new\<rparr>
      else if equalsIgnoreCase verb ''SET'' then
        let (key, rem) = takeToken rem in
        if key = [] then None
        else
          let rem = (if rem \<noteq> [] \<and> hd rem = CHR '' '' then tl rem else rem)
          in Some \<lparr>req_kind = Command_Kind,
                   req_command = \<lparr>cmd_op = Set_Op, cmd_key = key, cmd_value = rem\<rparr>\<rparr>
      else if equalsIgnoreCase verb ''GET'' \<or> equalsIgnoreCase verb ''DEL'' \<or> equalsIgnoreCase verb ''DELETE'' then
        let (key, rem) = takeToken rem in
        if key = [] \<or> trimLeft rem \<noteq> [] then None
        else Some \<lparr>req_kind = Command_Kind,
                   req_command = \<lparr>cmd_op = (if equalsIgnoreCase verb ''GET'' then Get_Op else Del_Op),
                                  cmd_key = key, cmd_value = []\<rparr>\<rparr>
      else None)"

section \<open>Tokens\<close>

definition word :: "string \<Rightarrow> bool" where
  "word s \<longleftrightarrow> s \<noteq> [] \<and> (\<forall>c \<in> set s. \<not> blank c)"

lemma blank_space [simp]: "blank (CHR '' '')"
  by (simp add: blank_def)

lemma trimLeft_blanks: "\<forall>c \<in> set s. blank c \<Longrightarrow> trimLeft (s @ t) = trimLeft t"
  by (induction s) auto

lemma trimLeft_word: "word s \<Longrightarrow> trimLeft (s @ t) = s @ t"
  by (cases s) (auto simp: word_def)

lemma trimLeft_eq: "trimLeft s = dropWhile blank s"
  by (induction s) auto

lemma takeToken_word:
  assumes "\<forall>c \<in> set b. blank c" "word s" "t = [] \<or> blank (hd t)"
  shows "takeToken (b @ s @ t) = (s, t)"
proof -
  have "takeWhile (\<lambda>c. \<not> blank c) (s @ t) = s"
    using assms(2,3) by (cases t) (auto simp: word_def takeWhile_append)
  then show ?thesis
    using assms(1,2) by (simp add: takeToken_def trimLeft_blanks trimLeft_word)
qed

lemma takeToken_split:
  assumes "takeToken s = (k, r)"
  shows "\<exists>b. s = b @ k @ r \<and> (\<forall>c \<in> set b. blank c)" "k = [] \<or> word k" "r = [] \<or> blank (hd r)"
proof -
  let ?p = "\<lambda>c. \<not> blank c" and ?t = "dropWhile blank s"
  have "takeToken s = (takeWhile ?p ?t, dropWhile ?p ?t)"
    unfolding takeToken_def Let_def trimLeft_eq takeWhile_eq_take [symmetric] dropWhile_eq_drop [symmetric] ..
  with assms have kr: "k = takeWhile ?p ?t" "r = dropWhile ?p ?t"
    by simp_all
  then have "takeWhile blank s @ k @ r = s"
    by simp
  then show "\<exists>b. s = b @ k @ r \<and> (\<forall>c \<in> set b. blank c)"
    by (intro exI [of _ "takeWhile blank s"] conjI) (auto dest: set_takeWhileD)
  show "k = [] \<or> word k"
    unfolding kr(1) word_def by (auto dest: set_takeWhileD)
  show "r = [] \<or> blank (hd r)"
    unfolding kr(2) using hd_dropWhile [of ?p ?t] by blast
qed

section \<open>Verbs\<close>

definition upper :: "string \<Rightarrow> string" where
  "upper s = map upcase s"

lemma equalsIgnoreCase_iff: "equalsIgnoreCase s t \<longleftrightarrow> upper s = upper t"
  unfolding upper_def by (induction s t rule: equalsIgnoreCase.induct) auto

text \<open>The verbs are in capitals; a request may write them in any case.\<close>

lemma verb_iff:
  "equalsIgnoreCase v ''PING'' \<longleftrightarrow> upper v = ''PING''" "equalsIgnoreCase v ''STATUS'' \<longleftrightarrow> upper v = ''STATUS''"
  "equalsIgnoreCase v ''QUIT'' \<longleftrightarrow> upper v = ''QUIT''" "equalsIgnoreCase v ''SET'' \<longleftrightarrow> upper v = ''SET''"
  "equalsIgnoreCase v ''GET'' \<longleftrightarrow> upper v = ''GET''" "equalsIgnoreCase v ''DEL'' \<longleftrightarrow> upper v = ''DEL''"
  "equalsIgnoreCase v ''DELETE'' \<longleftrightarrow> upper v = ''DELETE''"
proof -
  have "upper ''PING'' = ''PING''" "upper ''STATUS'' = ''STATUS''" "upper ''QUIT'' = ''QUIT''"
      "upper ''SET'' = ''SET''" "upper ''GET'' = ''GET''" "upper ''DEL'' = ''DEL''" "upper ''DELETE'' = ''DELETE''"
    by (simp_all add: upper_def upcase_def)
  then show "equalsIgnoreCase v ''PING'' \<longleftrightarrow> upper v = ''PING''" "equalsIgnoreCase v ''STATUS'' \<longleftrightarrow> upper v = ''STATUS''"
      "equalsIgnoreCase v ''QUIT'' \<longleftrightarrow> upper v = ''QUIT''" "equalsIgnoreCase v ''SET'' \<longleftrightarrow> upper v = ''SET''"
      "equalsIgnoreCase v ''GET'' \<longleftrightarrow> upper v = ''GET''" "equalsIgnoreCase v ''DEL'' \<longleftrightarrow> upper v = ''DEL''"
      "equalsIgnoreCase v ''DELETE'' \<longleftrightarrow> upper v = ''DELETE''"
    by (simp_all add: equalsIgnoreCase_iff)
qed

lemma upper_word: "word (upper s) \<Longrightarrow> word s"
proof -
  have *: "blank c \<Longrightarrow> upcase c = c" for c
    by (auto simp: blank_def upcase_def)
  assume "word (upper s)"
  then show "word s"
    unfolding word_def upper_def using * by (metis image_eqI list.map_disc_iff list.set_map)
qed

lemma verb_word:
  "upper v \<in> {''PING'', ''STATUS'', ''QUIT'', ''SET'', ''GET'', ''DEL'', ''DELETE''} \<Longrightarrow> word v"
  by (rule upper_word) (auto simp: word_def blank_def)

text \<open>The line of a request, with the verb as given.\<close>

definition render :: "string \<Rightarrow> ClientRequest \<Rightarrow> string" where
  "render v r = (case req_kind r of
     Command_Kind \<Rightarrow> v @ CHR '' '' # cmd_key (req_command r)
       @ (if cmd_op (req_command r) = Set_Op then CHR '' '' # cmd_value (req_command r) else [])
   | _ \<Rightarrow> v)"

definition verb_of :: "string \<Rightarrow> ClientRequest \<Rightarrow> bool" where
  "verb_of v r \<longleftrightarrow> (case req_kind r of
     Ping \<Rightarrow> upper v = ''PING'' | Status \<Rightarrow> upper v = ''STATUS'' | Quit \<Rightarrow> upper v = ''QUIT''
   | Command_Kind \<Rightarrow> (case cmd_op (req_command r) of Set_Op \<Rightarrow> upper v = ''SET''
       | Get_Op \<Rightarrow> upper v = ''GET'' | Del_Op \<Rightarrow> upper v \<in> {''DEL'', ''DELETE''}))"

definition request_wf :: "ClientRequest \<Rightarrow> bool" where
  "request_wf r \<longleftrightarrow> (if req_kind r = Command_Kind
     then word (cmd_key (req_command r)) \<and> (cmd_op (req_command r) \<noteq> Set_Op \<longrightarrow> cmd_value (req_command r) = [])
     else req_command r = Command_new)"

lemma takeToken_alone: "word s \<Longrightarrow> takeToken s = (s, [])"
  using takeToken_word [of "[]" s "[]"] by simp

lemma takeToken_first: "word s \<Longrightarrow> takeToken (s @ CHR '' '' # t) = (s, CHR '' '' # t)"
  using takeToken_word [of "[]" s "CHR '' '' # t"] by simp

lemma takeToken_next:
  "word s \<Longrightarrow> t = [] \<or> blank (hd t) \<Longrightarrow> takeToken (CHR '' '' # s @ t) = (s, t)"
  using takeToken_word [of "'' ''" s t] by simp

lemma takeToken_only: "word s \<Longrightarrow> takeToken (CHR '' '' # s) = (s, [])"
  using takeToken_next [of s "[]"] by simp

text \<open>
  C29: every request has a line that parses to it: any case of the verb, keys without blanks, and any
  value, including empty values and values with leading, inner and trailing blanks.
\<close>

theorem parse_render:
  assumes "request_wf r" "verb_of v r"
  shows "parseClientRequest (render v r) = Some r"
proof -
  have v: "word v"
    using assms(2) by (intro verb_word) (auto simp: verb_of_def split: Kind.splits Op.splits)
  obtain k c where "r = \<lparr>req_kind = k, req_command = c\<rparr>"
    by (cases r)
  moreover obtain p key val where "c = \<lparr>cmd_op = p, cmd_key = key, cmd_value = val\<rparr>"
    by (cases c)
  ultimately have r: "r = \<lparr>req_kind = k, req_command = \<lparr>cmd_op = p, cmd_key = key, cmd_value = val\<rparr>\<rparr>"
    by simp
  show ?thesis
  proof (cases "k = Command_Kind")
    case False
    with assms v show ?thesis
      unfolding r by (cases k) (auto simp: parseClientRequest_def render_def verb_of_def request_wf_def takeToken_alone
          verb_iff word_def)
  next
    case True
    then have key: "word key" "p \<noteq> Set_Op \<Longrightarrow> val = []"
      using assms(1) by (auto simp: r request_wf_def)
    then have "key \<noteq> []" "v \<noteq> []"
      using v by (auto simp: word_def)
    with True assms(2) v key show ?thesis
      unfolding r by (cases p) (auto simp: parseClientRequest_def render_def verb_of_def takeToken_first takeToken_next
          takeToken_only verb_iff)
  qed
qed

theorem parse_render_witness:
  "parseClientRequest ''sEt greeting  hello world '' =
     Some \<lparr>req_kind = Command_Kind,
           req_command = \<lparr>cmd_op = Set_Op, cmd_key = ''greeting'', cmd_value = '' hello world ''\<rparr>\<rparr>"
  using parse_render [of "\<lparr>req_kind = Command_Kind,
      req_command = \<lparr>cmd_op = Set_Op, cmd_key = ''greeting'', cmd_value = '' hello world ''\<rparr>\<rparr>" "''sEt''"]
  by (simp add: request_wf_def verb_of_def render_def word_def blank_def upper_def upcase_def char_of_eq_iff)

text \<open>
  C30: what the parser accepts is well-formed: a command has a key that is not empty and contains no
  blank, only \<^verbatim>\<open>SET\<close> carries a value, and the key and the value are parts of the line.
\<close>

theorem parse_request_wf:
  assumes "parseClientRequest line = Some r"
  shows "request_wf r \<and> length (cmd_key (req_command r)) + length (cmd_value (req_command r)) \<le> length line"
proof -
  obtain verb s where verb: "takeToken line = (verb, s)"
    by fastforce
  obtain key t where key: "takeToken s = (key, t)"
    by fastforce
  have len: "length s \<le> length line" "length key + length t \<le> length s"
    using takeToken_split(1) [OF verb] takeToken_split(1) [OF key] by auto
  have "key = [] \<or> word key"
    by (rule takeToken_split(2) [OF key])
  with assms len show ?thesis
    by (auto simp: parseClientRequest_def verb key request_wf_def Command_new_def word_def split: if_splits)
qed

theorem parse_request_wf_witness:
  "parseClientRequest ''get a'' = Some \<lparr>req_kind = Command_Kind,
     req_command = \<lparr>cmd_op = Get_Op, cmd_key = ''a'', cmd_value = []\<rparr>\<rparr>
   \<and> request_wf \<lparr>req_kind = Command_Kind, req_command = \<lparr>cmd_op = Get_Op, cmd_key = ''a'', cmd_value = []\<rparr>\<rparr>"
proof -
  have "parseClientRequest ''get a'' = Some \<lparr>req_kind = Command_Kind,
      req_command = \<lparr>cmd_op = Get_Op, cmd_key = ''a'', cmd_value = []\<rparr>\<rparr>"
    by (simp add: parseClientRequest_def takeToken_def blank_def upcase_def char_of_eq_iff)
  with parse_request_wf [OF this] show ?thesis
    by simp
qed

end
