(* ===== verification/RaftMsgs.thy ===== *)
theory RaftMsgs
  imports Command
begin

text \<open>
  The two Raft RPCs and their replies, with the binary format of each
  (\<^verbatim>\<open>include/dkvs/raft_msgs.hpp\<close>, \<^verbatim>\<open>src/raft_msgs.cpp\<close>). A message is a tag byte followed by its
  fields. Every decoder accepts exactly the encodings of its own message (for the replies, up to
  the value of a non-zero flag byte). \<^verbatim>\<open>AppendEntriesArgs::decode\<close> calls \<^verbatim>\<open>reserve\<close> with the
  count read from the frame before it reads the entries; whether that allocation succeeds is a
  parameter of the model, and its failure is the exception \<^term>\<open>Bad_alloc\<close>.
\<close>

section \<open>Messages\<close>

datatype MsgType = RequestVoteArgs_Msg | RequestVoteReply_Msg | AppendEntriesArgs_Msg | AppendEntriesReply_Msg

fun MsgType_byte :: "MsgType \<Rightarrow> u8" where
  "MsgType_byte RequestVoteArgs_Msg = 1"
| "MsgType_byte RequestVoteReply_Msg = 2"
| "MsgType_byte AppendEntriesArgs_Msg = 3"
| "MsgType_byte AppendEntriesReply_Msg = 4"

record RequestVoteArgs =
  rv_term :: u64
  rv_candidateId :: u32
  rv_lastLogIndex :: u64
  rv_lastLogTerm :: u64

record RequestVoteReply =
  rvr_term :: u64
  rvr_voteGranted :: bool

record AppendEntriesArgs =
  ae_term :: u64
  ae_leaderId :: u32
  ae_prevLogIndex :: u64
  ae_prevLogTerm :: u64
  ae_leaderCommit :: u64
  ae_entries :: "LogEntry list"

record AppendEntriesReply =
  aer_term :: u64
  aer_success :: bool
  aer_conflictIndex :: u64

section \<open>Encoding and decoding\<close>

definition RequestVoteArgs_encode :: "RequestVoteArgs \<Rightarrow> string" where
  "RequestVoteArgs_encode a =
     (let enc = Encoder_new;
          enc = Encoder_u8 (MsgType_byte RequestVoteArgs_Msg) enc;
          enc = Encoder_u64 (rv_term a) enc;
          enc = Encoder_u32 (rv_candidateId a) enc;
          enc = Encoder_u64 (rv_lastLogIndex a) enc;
          enc = Encoder_u64 (rv_lastLogTerm a) enc
      in Encoder_take enc)"

definition RequestVoteArgs_decode :: "string \<Rightarrow> RequestVoteArgs option" where
  "RequestVoteArgs_decode bytes =
     (let dec = Decoder_new bytes;
          (tag, dec) = Decoder_u8 dec
      in if tag = None \<or> the tag \<noteq> MsgType_byte RequestVoteArgs_Msg then None
         else
           let (trm, dec) = Decoder_u64 dec;
               (candidate, dec) = Decoder_u32 dec;
               (lastIdx, dec) = Decoder_u64 dec;
               (lastTerm, dec) = Decoder_u64 dec
           in if trm = None \<or> candidate = None \<or> lastIdx = None \<or> lastTerm = None \<or> \<not> Decoder_done dec
              then None
              else Some \<lparr>rv_term = the trm, rv_candidateId = the candidate,
                         rv_lastLogIndex = the lastIdx, rv_lastLogTerm = the lastTerm\<rparr>)"

definition RequestVoteReply_encode :: "RequestVoteReply \<Rightarrow> string" where
  "RequestVoteReply_encode r =
     (let enc = Encoder_new;
          enc = Encoder_u8 (MsgType_byte RequestVoteReply_Msg) enc;
          enc = Encoder_u64 (rvr_term r) enc;
          enc = Encoder_u8 (if rvr_voteGranted r then 1 else 0) enc
      in Encoder_take enc)"

definition RequestVoteReply_decode :: "string \<Rightarrow> RequestVoteReply option" where
  "RequestVoteReply_decode bytes =
     (let dec = Decoder_new bytes;
          (tag, dec) = Decoder_u8 dec
      in if tag = None \<or> the tag \<noteq> MsgType_byte RequestVoteReply_Msg then None
         else
           let (trm, dec) = Decoder_u64 dec;
               (granted, dec) = Decoder_u8 dec
           in if trm = None \<or> granted = None \<or> \<not> Decoder_done dec then None
              else Some \<lparr>rvr_term = the trm, rvr_voteGranted = (the granted \<noteq> 0)\<rparr>)"

definition AppendEntriesArgs_encode :: "AppendEntriesArgs \<Rightarrow> string" where
  "AppendEntriesArgs_encode a =
     (let enc = Encoder_new;
          enc = Encoder_u8 (MsgType_byte AppendEntriesArgs_Msg) enc;
          enc = Encoder_u64 (ae_term a) enc;
          enc = Encoder_u32 (ae_leaderId a) enc;
          enc = Encoder_u64 (ae_prevLogIndex a) enc;
          enc = Encoder_u64 (ae_prevLogTerm a) enc;
          enc = Encoder_u64 (ae_leaderCommit a) enc;
          enc = Encoder_u32 (word_of_nat (length (ae_entries a))) enc;
          enc = foldl (\<lambda>enc e. Encoder_str (entry_command e) (Encoder_u64 (entry_term e) enc))
                  enc (ae_entries a)
      in Encoder_take enc)"

text \<open>\<open>fits n\<close>: \<^verbatim>\<open>entries.reserve(n)\<close> obtains its memory.\<close>

definition AppendEntriesArgs_decode ::
    "(nat \<Rightarrow> bool) \<Rightarrow> string \<Rightarrow> exn + AppendEntriesArgs option" where
  "AppendEntriesArgs_decode fits bytes =
     (let dec = Decoder_new bytes;
          (tag, dec) = Decoder_u8 dec
      in if tag = None \<or> the tag \<noteq> MsgType_byte AppendEntriesArgs_Msg then Inr None
         else
           let (trm, dec) = Decoder_u64 dec;
               (leader, dec) = Decoder_u32 dec;
               (prevIdx, dec) = Decoder_u64 dec;
               (prevTerm, dec) = Decoder_u64 dec;
               (commit, dec) = Decoder_u64 dec;
               (count, dec) = Decoder_u32 dec
           in if trm = None \<or> leader = None \<or> prevIdx = None \<or> prevTerm = None \<or> commit = None \<or> count = None
              then Inr None
              else if \<not> fits (unat (the count)) then Inl Bad_alloc
              else
                let (entries, dec) = decode_n Decoder_LogEntry (unat (the count)) dec
                in if entries = None \<or> \<not> Decoder_done dec then Inr None
                   else Inr (Some \<lparr>ae_term = the trm, ae_leaderId = the leader,
                          ae_prevLogIndex = the prevIdx, ae_prevLogTerm = the prevTerm,
                          ae_leaderCommit = the commit, ae_entries = the entries\<rparr>))"

definition AppendEntriesReply_encode :: "AppendEntriesReply \<Rightarrow> string" where
  "AppendEntriesReply_encode r =
     (let enc = Encoder_new;
          enc = Encoder_u8 (MsgType_byte AppendEntriesReply_Msg) enc;
          enc = Encoder_u64 (aer_term r) enc;
          enc = Encoder_u8 (if aer_success r then 1 else 0) enc;
          enc = Encoder_u64 (aer_conflictIndex r) enc
      in Encoder_take enc)"

definition AppendEntriesReply_decode :: "string \<Rightarrow> AppendEntriesReply option" where
  "AppendEntriesReply_decode bytes =
     (let dec = Decoder_new bytes;
          (tag, dec) = Decoder_u8 dec
      in if tag = None \<or> the tag \<noteq> MsgType_byte AppendEntriesReply_Msg then None
         else
           let (trm, dec) = Decoder_u64 dec;
               (success, dec) = Decoder_u8 dec;
               (conflict, dec) = Decoder_u64 dec
           in if trm = None \<or> success = None \<or> conflict = None \<or> \<not> Decoder_done dec then None
              else Some \<lparr>aer_term = the trm, aer_success = (the success \<noteq> 0),
                         aer_conflictIndex = the conflict\<rparr>)"


section \<open>The bytes of each message\<close>

lemma RequestVoteArgs_encode_eq:
  "RequestVoteArgs_encode a = [char_of_byte 1] @ be64 (rv_term a) @ be32 (rv_candidateId a)
     @ be64 (rv_lastLogIndex a) @ be64 (rv_lastLogTerm a)"
  by (simp add: RequestVoteArgs_encode_def codec_simps)

lemma RequestVoteReply_encode_eq:
  "RequestVoteReply_encode r = [char_of_byte 2] @ be64 (rvr_term r)
     @ [char_of_byte (if rvr_voteGranted r then 1 else 0)]"
  by (simp add: RequestVoteReply_encode_def codec_simps)

lemma buf_foldl_entries:
  "buf (foldl (\<lambda>enc e. Encoder_str (entry_command e) (Encoder_u64 (entry_term e) enc)) enc es)
   = buf enc @ concat (map LogEntry_bytes es)"
  by (induction es arbitrary: enc) (simp_all add: codec_simps LogEntry_bytes_def)

lemma AppendEntriesArgs_encode_eq:
  "AppendEntriesArgs_encode a = [char_of_byte 3] @ be64 (ae_term a) @ be32 (ae_leaderId a)
     @ be64 (ae_prevLogIndex a) @ be64 (ae_prevLogTerm a) @ be64 (ae_leaderCommit a)
     @ be32 (word_of_nat (length (ae_entries a))) @ concat (map LogEntry_bytes (ae_entries a))"
  by (simp add: AppendEntriesArgs_encode_def buf_foldl_entries codec_simps)

lemma AppendEntriesReply_encode_eq:
  "AppendEntriesReply_encode r = [char_of_byte 4] @ be64 (aer_term r)
     @ [char_of_byte (if aer_success r then 1 else 0)] @ be64 (aer_conflictIndex r)"
  by (simp add: AppendEntriesReply_encode_def codec_simps)

text \<open>
  Each field in turn: if the rest of the decoder starts with the encoding of a value, the decoder
  yields it and goes on behind it (\<open>enc\<close>); if it yields a value, the rest started with its encoding
  (\<open>dec\<close>).
\<close>

lemmas field_encE = wire_u8.dec_encE [OF TrueI] wire_u32.dec_encE [OF TrueI] wire_u64.dec_encE [OF TrueI]

lemma RequestVoteArgs_decode_encode: "RequestVoteArgs_decode (RequestVoteArgs_encode a) = Some a"
proof -
  let ?d = "Decoder_new (RequestVoteArgs_encode a)"
  obtain d1 where 1: "Decoder_u8 ?d = (Some 1, d1)" "wf_Decoder d1"
      "rest d1 = be64 (rv_term a) @ be32 (rv_candidateId a) @ be64 (rv_lastLogIndex a)
        @ be64 (rv_lastLogTerm a) @ []"
    by (rule field_encE(1) [of ?d 1]) (simp_all add: RequestVoteArgs_encode_eq)
  obtain d2 where 2: "Decoder_u64 d1 = (Some (rv_term a), d2)" "wf_Decoder d2"
      "rest d2 = be32 (rv_candidateId a) @ be64 (rv_lastLogIndex a) @ be64 (rv_lastLogTerm a) @ []"
    by (rule field_encE(3) [OF 1(2,3)])
  obtain d3 where 3: "Decoder_u32 d2 = (Some (rv_candidateId a), d3)" "wf_Decoder d3"
      "rest d3 = be64 (rv_lastLogIndex a) @ be64 (rv_lastLogTerm a) @ []"
    by (rule field_encE(2) [OF 2(2,3)])
  obtain d4 where 4: "Decoder_u64 d3 = (Some (rv_lastLogIndex a), d4)" "wf_Decoder d4"
      "rest d4 = be64 (rv_lastLogTerm a) @ []"
    by (rule field_encE(3) [OF 3(2,3)])
  obtain d5 where 5: "Decoder_u64 d4 = (Some (rv_lastLogTerm a), d5)" "wf_Decoder d5" "rest d5 = []"
    by (rule field_encE(3) [OF 4(2,3)])
  show ?thesis
    by (simp add: RequestVoteArgs_decode_def 1(1) 2(1) 3(1) 4(1) 5 done_rest)
qed

lemma RequestVoteReply_decode_encode: "RequestVoteReply_decode (RequestVoteReply_encode r) = Some r"
proof -
  let ?d = "Decoder_new (RequestVoteReply_encode r)"
  let ?g = "if rvr_voteGranted r then 1 else 0 :: u8"
  obtain d1 where 1: "Decoder_u8 ?d = (Some 2, d1)" "wf_Decoder d1"
      "rest d1 = be64 (rvr_term r) @ [char_of_byte ?g] @ []"
    by (rule field_encE(1) [of ?d 2]) (simp_all add: RequestVoteReply_encode_eq)
  obtain d2 where 2: "Decoder_u64 d1 = (Some (rvr_term r), d2)" "wf_Decoder d2"
      "rest d2 = [char_of_byte ?g] @ []"
    by (rule field_encE(3) [OF 1(2,3)])
  obtain d3 where 3: "Decoder_u8 d2 = (Some ?g, d3)" "wf_Decoder d3" "rest d3 = []"
    by (rule field_encE(1) [OF 2(2,3)])
  show ?thesis
    by (simp add: RequestVoteReply_decode_def 1(1) 2(1) 3 done_rest)
qed

lemma AppendEntriesReply_decode_encode:
  "AppendEntriesReply_decode (AppendEntriesReply_encode r) = Some r"
proof -
  let ?d = "Decoder_new (AppendEntriesReply_encode r)"
  let ?s = "if aer_success r then 1 else 0 :: u8"
  obtain d1 where 1: "Decoder_u8 ?d = (Some 4, d1)" "wf_Decoder d1"
      "rest d1 = be64 (aer_term r) @ [char_of_byte ?s] @ be64 (aer_conflictIndex r) @ []"
    by (rule field_encE(1) [of ?d 4]) (simp_all add: AppendEntriesReply_encode_eq)
  obtain d2 where 2: "Decoder_u64 d1 = (Some (aer_term r), d2)" "wf_Decoder d2"
      "rest d2 = [char_of_byte ?s] @ be64 (aer_conflictIndex r) @ []"
    by (rule field_encE(3) [OF 1(2,3)])
  obtain d3 where 3: "Decoder_u8 d2 = (Some ?s, d3)" "wf_Decoder d3"
      "rest d3 = be64 (aer_conflictIndex r) @ []"
    by (rule field_encE(1) [OF 2(2,3)])
  obtain d4 where 4: "Decoder_u64 d3 = (Some (aer_conflictIndex r), d4)" "wf_Decoder d4" "rest d4 = []"
    by (rule field_encE(3) [OF 3(2,3)])
  show ?thesis
    by (simp add: AppendEntriesReply_decode_def 1(1) 2(1) 3(1) 4 done_rest)
qed

definition AppendEntriesArgs_ok :: "AppendEntriesArgs \<Rightarrow> bool" where
  "AppendEntriesArgs_ok a \<longleftrightarrow> length (ae_entries a) < 2 ^ 32 \<and> (\<forall>e \<in> set (ae_entries a). LogEntry_ok e)"

lemma AppendEntriesArgs_decode_encode:
  assumes "AppendEntriesArgs_ok a" "fits (length (ae_entries a))"
  shows "AppendEntriesArgs_decode fits (AppendEntriesArgs_encode a) = Inr (Some a)"
proof -
  let ?d = "Decoder_new (AppendEntriesArgs_encode a)"
  let ?n = "word_of_nat (length (ae_entries a)) :: u32"
  let ?es = "concat (map LogEntry_bytes (ae_entries a)) @ []"
  have n: "unat ?n = length (ae_entries a)"
    using assms(1) by (intro unat_of_nat_id) (simp add: AppendEntriesArgs_ok_def)
  obtain d1 where 1: "Decoder_u8 ?d = (Some 3, d1)" "wf_Decoder d1"
      "rest d1 = be64 (ae_term a) @ be32 (ae_leaderId a) @ be64 (ae_prevLogIndex a)
        @ be64 (ae_prevLogTerm a) @ be64 (ae_leaderCommit a) @ be32 ?n @ ?es"
    by (rule field_encE(1) [of ?d 3]) (simp_all add: AppendEntriesArgs_encode_eq)
  obtain d2 where 2: "Decoder_u64 d1 = (Some (ae_term a), d2)" "wf_Decoder d2"
      "rest d2 = be32 (ae_leaderId a) @ be64 (ae_prevLogIndex a)
        @ be64 (ae_prevLogTerm a) @ be64 (ae_leaderCommit a) @ be32 ?n @ ?es"
    by (rule field_encE(3) [OF 1(2,3)])
  obtain d3 where 3: "Decoder_u32 d2 = (Some (ae_leaderId a), d3)" "wf_Decoder d3"
      "rest d3 = be64 (ae_prevLogIndex a) @ be64 (ae_prevLogTerm a) @ be64 (ae_leaderCommit a) @ be32 ?n @ ?es"
    by (rule field_encE(2) [OF 2(2,3)])
  obtain d4 where 4: "Decoder_u64 d3 = (Some (ae_prevLogIndex a), d4)" "wf_Decoder d4"
      "rest d4 = be64 (ae_prevLogTerm a) @ be64 (ae_leaderCommit a) @ be32 ?n @ ?es"
    by (rule field_encE(3) [OF 3(2,3)])
  obtain d5 where 5: "Decoder_u64 d4 = (Some (ae_prevLogTerm a), d5)" "wf_Decoder d5"
      "rest d5 = be64 (ae_leaderCommit a) @ be32 ?n @ ?es"
    by (rule field_encE(3) [OF 4(2,3)])
  obtain d6 where 6: "Decoder_u64 d5 = (Some (ae_leaderCommit a), d6)" "wf_Decoder d6"
      "rest d6 = be32 ?n @ ?es"
    by (rule field_encE(3) [OF 5(2,3)])
  obtain d7 where 7: "Decoder_u32 d6 = (Some ?n, d7)" "wf_Decoder d7" "rest d7 = ?es"
    by (rule field_encE(2) [OF 6(2,3)])
  have "decode_n Decoder_LogEntry (length (ae_entries a)) d7
      = (Some (ae_entries a), advance (length (concat (map LogEntry_bytes (ae_entries a)))) d7)"
    using assms(1) 7 by (intro wire_entry.decode_n_enc) (auto simp: AppendEntriesArgs_ok_def)
  with assms(2) show ?thesis
    by (simp add: AppendEntriesArgs_decode_def 1(1) 2(1) 3(1) 4(1) 5(1) 6(1) 7 n done_rest)
qed

lemma RequestVoteArgs_decode_SomeD:
  assumes "RequestVoteArgs_decode bytes = Some a"
  shows "bytes = RequestVoteArgs_encode a"
proof -
  let ?d = "Decoder_new bytes"
  obtain x1 d1 where 1: "Decoder_u8 ?d = (x1, d1)" by (cases "Decoder_u8 ?d")
  obtain x2 d2 where 2: "Decoder_u64 d1 = (x2, d2)" by (cases "Decoder_u64 d1")
  obtain x3 d3 where 3: "Decoder_u32 d2 = (x3, d3)" by (cases "Decoder_u32 d2")
  obtain x4 d4 where 4: "Decoder_u64 d3 = (x4, d4)" by (cases "Decoder_u64 d3")
  obtain x5 d5 where 5: "Decoder_u64 d4 = (x5, d5)" by (cases "Decoder_u64 d4")
  have x: "x1 = Some 1" "x2 = Some (rv_term a)" "x3 = Some (rv_candidateId a)"
      "x4 = Some (rv_lastLogIndex a)" "x5 = Some (rv_lastLogTerm a)" "Decoder_done d5"
    using assms by (auto simp: RequestVoteArgs_decode_def 1 2 3 4 5 split: if_splits)
  have r1: "wf_Decoder d1" "bytes = [char_of_byte 1] @ rest d1"
    by (rule wire_u8.dec_SomeE [OF wf_Decoder_new 1 [unfolded x]], simp)+
  have r2: "wf_Decoder d2" "rest d1 = be64 (rv_term a) @ rest d2"
    by (rule wire_u64.dec_SomeE [OF r1(1) 2 [unfolded x]], assumption)+
  have r3: "wf_Decoder d3" "rest d2 = be32 (rv_candidateId a) @ rest d3"
    by (rule wire_u32.dec_SomeE [OF r2(1) 3 [unfolded x]], assumption)+
  have r4: "wf_Decoder d4" "rest d3 = be64 (rv_lastLogIndex a) @ rest d4"
    by (rule wire_u64.dec_SomeE [OF r3(1) 4 [unfolded x]], assumption)+
  have r5: "wf_Decoder d5" "rest d4 = be64 (rv_lastLogTerm a) @ rest d5"
    by (rule wire_u64.dec_SomeE [OF r4(1) 5 [unfolded x]], assumption)+
  have "rest d5 = []"
    using x(6) r5(1) by (simp add: done_rest)
  then show ?thesis
    by (simp add: RequestVoteArgs_encode_eq r1(2) r2(2) r3(2) r4(2) r5(2))
qed

lemma AppendEntriesArgs_decode_SomeD:
  assumes "AppendEntriesArgs_decode fits bytes = Inr (Some a)"
  shows "AppendEntriesArgs_ok a \<and> bytes = AppendEntriesArgs_encode a"
proof -
  let ?d = "Decoder_new bytes"
  obtain x1 d1 where 1: "Decoder_u8 ?d = (x1, d1)" by (cases "Decoder_u8 ?d")
  obtain x2 d2 where 2: "Decoder_u64 d1 = (x2, d2)" by (cases "Decoder_u64 d1")
  obtain x3 d3 where 3: "Decoder_u32 d2 = (x3, d3)" by (cases "Decoder_u32 d2")
  obtain x4 d4 where 4: "Decoder_u64 d3 = (x4, d4)" by (cases "Decoder_u64 d3")
  obtain x5 d5 where 5: "Decoder_u64 d4 = (x5, d5)" by (cases "Decoder_u64 d4")
  obtain x6 d6 where 6: "Decoder_u64 d5 = (x6, d6)" by (cases "Decoder_u64 d5")
  obtain x7 d7 where 7: "Decoder_u32 d6 = (x7, d7)" by (cases "Decoder_u32 d6")
  obtain x8 d8 where 8: "decode_n Decoder_LogEntry (unat (the x7)) d7 = (x8, d8)"
    by (cases "decode_n Decoder_LogEntry (unat (the x7)) d7")
  obtain n where x: "x1 = Some 3" "x2 = Some (ae_term a)" "x3 = Some (ae_leaderId a)"
      "x4 = Some (ae_prevLogIndex a)" "x5 = Some (ae_prevLogTerm a)" "x6 = Some (ae_leaderCommit a)"
      "x7 = Some n" "x8 = Some (ae_entries a)" "Decoder_done d8"
    using assms 8
    by (auto simp: AppendEntriesArgs_decode_def 1 2 3 4 5 6 7 split: if_splits prod.splits)
  have r1: "wf_Decoder d1" "bytes = [char_of_byte 3] @ rest d1"
    by (rule wire_u8.dec_SomeE [OF wf_Decoder_new 1 [unfolded x]], simp)+
  have r2: "wf_Decoder d2" "rest d1 = be64 (ae_term a) @ rest d2"
    by (rule wire_u64.dec_SomeE [OF r1(1) 2 [unfolded x]], assumption)+
  have r3: "wf_Decoder d3" "rest d2 = be32 (ae_leaderId a) @ rest d3"
    by (rule wire_u32.dec_SomeE [OF r2(1) 3 [unfolded x]], assumption)+
  have r4: "wf_Decoder d4" "rest d3 = be64 (ae_prevLogIndex a) @ rest d4"
    by (rule wire_u64.dec_SomeE [OF r3(1) 4 [unfolded x]], assumption)+
  have r5: "wf_Decoder d5" "rest d4 = be64 (ae_prevLogTerm a) @ rest d5"
    by (rule wire_u64.dec_SomeE [OF r4(1) 5 [unfolded x]], assumption)+
  have r6: "wf_Decoder d6" "rest d5 = be64 (ae_leaderCommit a) @ rest d6"
    by (rule wire_u64.dec_SomeE [OF r5(1) 6 [unfolded x]], assumption)+
  have r7: "wf_Decoder d7" "rest d6 = be32 n @ rest d7"
    by (rule wire_u32.dec_SomeE [OF r6(1) 7 [unfolded x]], assumption)+
  have 8: "decode_n Decoder_LogEntry (unat n) d7 = (Some (ae_entries a), d8)"
    using 8 x by simp
  have "rest d8 = []"
    using x(9) wire_entry.decode_n_wf [OF r7(1) 8] by (simp add: done_rest moves_on_wf)
  with wire_entry.decode_n_SomeD [OF r7(1) 8]
  have r8: "rest d7 = concat (map LogEntry_bytes (ae_entries a))" "length (ae_entries a) = unat n"
      "\<forall>e \<in> set (ae_entries a). LogEntry_ok e"
    by auto
  then have "word_of_nat (length (ae_entries a)) = n" by simp
  then show ?thesis
    using r8(2,3)
    by (simp add: AppendEntriesArgs_encode_eq AppendEntriesArgs_ok_def r1(2) r2(2) r3(2) r4(2) r5(2)
        r6(2) r7(2) r8(1))
qed

section \<open>Messages on the wire\<close>

lemma AppendEntriesArgs_decode_header:
  assumes "bytes = char_of_byte 3 # be64 t @ be32 l @ be64 p @ be64 pt @ be64 c @ be32 n @ r"
    and "\<not> fits (unat n)"
  shows "AppendEntriesArgs_decode fits bytes = Inl Bad_alloc"
proof -
  let ?d = "Decoder_new bytes"
  obtain d1 where 1: "Decoder_u8 ?d = (Some 3, d1)" "wf_Decoder d1"
      "rest d1 = be64 t @ be32 l @ be64 p @ be64 pt @ be64 c @ be32 n @ r"
    by (rule field_encE(1) [of ?d 3]) (simp_all add: assms(1))
  obtain d2 where 2: "Decoder_u64 d1 = (Some t, d2)" "wf_Decoder d2"
      "rest d2 = be32 l @ be64 p @ be64 pt @ be64 c @ be32 n @ r"
    by (rule field_encE(3) [OF 1(2,3)])
  obtain d3 where 3: "Decoder_u32 d2 = (Some l, d3)" "wf_Decoder d3"
      "rest d3 = be64 p @ be64 pt @ be64 c @ be32 n @ r"
    by (rule field_encE(2) [OF 2(2,3)])
  obtain d4 where 4: "Decoder_u64 d3 = (Some p, d4)" "wf_Decoder d4"
      "rest d4 = be64 pt @ be64 c @ be32 n @ r"
    by (rule field_encE(3) [OF 3(2,3)])
  obtain d5 where 5: "Decoder_u64 d4 = (Some pt, d5)" "wf_Decoder d5" "rest d5 = be64 c @ be32 n @ r"
    by (rule field_encE(3) [OF 4(2,3)])
  obtain d6 where 6: "Decoder_u64 d5 = (Some c, d6)" "wf_Decoder d6" "rest d6 = be32 n @ r"
    by (rule field_encE(3) [OF 5(2,3)])
  obtain d7 where "Decoder_u32 d6 = (Some n, d7)"
    by (rule field_encE(2) [OF 6(2,3)])
  with 1 2 3 4 5 6 show ?thesis
    by (simp add: AppendEntriesArgs_decode_def assms(2))
qed

lemma AppendEntriesArgs_decode_encode_nofit:
  assumes "AppendEntriesArgs_ok a" "\<not> fits (length (ae_entries a))"
  shows "AppendEntriesArgs_decode fits (AppendEntriesArgs_encode a) = Inl Bad_alloc"
proof (rule AppendEntriesArgs_decode_header)
  have "unat (word_of_nat (length (ae_entries a)) :: u32) = length (ae_entries a)"
    using assms(1) by (intro unat_of_nat_id) (simp add: AppendEntriesArgs_ok_def)
  then show "\<not> fits (unat (word_of_nat (length (ae_entries a)) :: u32))"
    using assms(2) by simp
qed (simp add: AppendEntriesArgs_encode_eq)

text \<open>
  \<^verbatim>\<open>RequestVoteArgs::decode\<close> accepts exactly the encodings of vote requests and inverts
  \<^verbatim>\<open>encode\<close>.
\<close>

theorem RequestVoteArgs_decode_iff:
  "RequestVoteArgs_decode bytes = Some a \<longleftrightarrow> bytes = RequestVoteArgs_encode a"
  using RequestVoteArgs_decode_encode RequestVoteArgs_decode_SomeD by blast

text \<open>
  C27: \<^verbatim>\<open>AppendEntriesArgs::decode\<close> accepts exactly the encodings of well-formed append requests whose
  entry vector can be allocated, and inverts \<^verbatim>\<open>encode\<close>.
\<close>

theorem AppendEntriesArgs_decode_iff:
  "AppendEntriesArgs_decode fits bytes = Inr (Some a) \<longleftrightarrow>
     AppendEntriesArgs_ok a \<and> fits (length (ae_entries a)) \<and> bytes = AppendEntriesArgs_encode a"
  using AppendEntriesArgs_decode_encode AppendEntriesArgs_decode_SomeD
    AppendEntriesArgs_decode_encode_nofit [of a fits]
  by (metis sum.distinct(1))

text \<open>Both replies survive the wire: decoding the encoding of a reply returns the reply.\<close>

theorem replies_decode_encode:
  "RequestVoteReply_decode (RequestVoteReply_encode v) = Some v
   \<and> AppendEntriesReply_decode (AppendEntriesReply_encode r) = Some r"
  by (simp add: RequestVoteReply_decode_encode AppendEntriesReply_decode_encode)

text \<open>
  C28: A frame of 41 bytes that carries no entry can make \<^verbatim>\<open>AppendEntriesArgs::decode\<close> throw: the
  entry count is taken from the frame and reserved before the entries are read, so the exception is
  raised whenever the memory for that many entries cannot be had, whatever follows the count.
\<close>

theorem AppendEntriesArgs_decode_unchecked_count:
  assumes "\<not> fits (unat n)"
  shows "AppendEntriesArgs_decode fits
    (char_of_byte 3 # be64 t @ be32 l @ be64 p @ be64 pt @ be64 c @ be32 n @ r) = Inl Bad_alloc"
  using refl assms by (rule AppendEntriesArgs_decode_header)

theorem AppendEntriesArgs_decode_unchecked_count_witness:
  "AppendEntriesArgs_decode (\<lambda>k. k < 2 ^ 20)
    (char_of_byte 3 # be64 0 @ be32 0 @ be64 0 @ be64 0 @ be64 0 @ be32 0xFFFFFFFF @ []) = Inl Bad_alloc"
  using AppendEntriesArgs_decode_unchecked_count
    [where fits = "\<lambda>k. k < 2 ^ 20" and n = "0xFFFFFFFF" and r = "[]"] by simp

end
