(* ===== verification/Net.thy ===== *)
theory Net
  imports RaftMsgs
begin

text \<open>
  Addresses, frames and lines over TCP (\<^verbatim>\<open>include/dkvs/net.hpp\<close>, \<^verbatim>\<open>src/net.cpp\<close>). What the calls of \<^verbatim>\<open>poll\<close>,
  \<^verbatim>\<open>recv\<close> and \<^verbatim>\<open>send\<close> on a connection return is a list of events, consumed in order; the end of the list
  is a connection on which nothing more happens. Socket set-up is in \<^verbatim>\<open>Sockets\<close>.
\<close>

section \<open>Addresses\<close>

record Address =
  host :: string
  port :: u16

text \<open>\<^verbatim>\<open>std::to_string\<close> for unsigned numbers, and \<^verbatim>\<open>rfind\<close> of a character.\<close>

fun to_string :: "nat \<Rightarrow> string" where
  "to_string n = (if n < 10 then [] else to_string (n div 10)) @ [char_of (n mod 10 + 48)]"

declare to_string.simps [simp del]

fun rfind :: "char \<Rightarrow> string \<Rightarrow> nat option" where
  "rfind c [] = None"
| "rfind c (x # s) = (case rfind c s of Some i \<Rightarrow> Some (i + 1) | None \<Rightarrow> if x = c then Some 0 else None)"

definition digit :: "char \<Rightarrow> bool" where
  "digit c \<longleftrightarrow> \<not> ((of_char c :: nat) < of_char (CHR ''0'') \<or> (of_char c :: nat) > of_char (CHR ''9''))"

text \<open>The loop over the digits of the port; \<^verbatim>\<open>int port\<close> stays below 655360.\<close>

fun port_loop :: "nat \<Rightarrow> string \<Rightarrow> nat option" where
  "port_loop p [] = Some p"
| "port_loop p (c # s) =
     (if \<not> digit c then None
      else let p = p * 10 + (of_char c - of_char (CHR ''0'')) in
           if p > 65535 then None else port_loop p s)"

definition Address_parse :: "string \<Rightarrow> Address option" where
  "Address_parse hostPort =
     (case rfind (CHR '':'') hostPort of
        None \<Rightarrow> None
      | Some colon \<Rightarrow>
          if colon = 0 \<or> colon + 1 \<ge> length hostPort then None
          else case port_loop 0 (drop (colon + 1) hostPort) of
            None \<Rightarrow> None
          | Some p \<Rightarrow> if p = 0 then None else Some \<lparr>host = take colon hostPort, port = word_of_nat p\<rparr>)"

definition Address_str :: "Address \<Rightarrow> string" where
  "Address_str a = host a @ '':'' @ to_string (unat (port a))"

section \<open>Reading and writing\<close>

text \<open>
  A round of \<^verbatim>\<open>poll\<close> and \<^verbatim>\<open>recv\<close>: bytes are available (none: the peer has closed), \<^verbatim>\<open>poll\<close> times out or
  fails, \<^verbatim>\<open>recv\<close> is interrupted, \<^verbatim>\<open>recv\<close> fails. A call of \<^verbatim>\<open>send\<close>: it takes some bytes, is interrupted,
  or fails.
\<close>

datatype rx = Avail string | NotReady | RxIntr | RxFail
datatype tx = Sent nat | TxIntr | TxFail

definition kMaxFrameBytes :: u32 where
  "kMaxFrameBytes = 64 * 1024 * 1024"

fun readExact :: "nat \<Rightarrow> rx list \<Rightarrow> string option \<times> rx list" where
  "readExact 0 es = (Some [], es)"
| "readExact n [] = (None, [])"
| "readExact n (NotReady # es) = (None, es)"
| "readExact n (RxFail # es) = (None, es)"
| "readExact n (RxIntr # es) = readExact n es"
| "readExact n (Avail bs # es) =
     (if bs = [] then (None, es)
      else if length bs > n then (Some (take n bs), Avail (drop n bs) # es)
      else case readExact (n - length bs) es of
        (None, es) \<Rightarrow> (None, es)
      | (Some bs2, es) \<Rightarrow> (Some (bs @ bs2), es))"

text \<open>\<^verbatim>\<open>writeAll\<close> returns whether all was sent and the bytes that were.\<close>

fun writeAll :: "string \<Rightarrow> tx list \<Rightarrow> bool \<times> string \<times> tx list" where
  "writeAll [] ts = (True, [], ts)"
| "writeAll data [] = (False, [], [])"
| "writeAll data (TxFail # ts) = (False, [], ts)"
| "writeAll data (TxIntr # ts) = writeAll data ts"
| "writeAll data (Sent n # ts) =
     (let (ok, w, ts) = writeAll (drop n data) ts in (ok, take n data @ w, ts))"

section \<open>Frames\<close>

definition sendFrame :: "string \<Rightarrow> tx list \<Rightarrow> bool \<times> string \<times> tx list" where
  "sendFrame payload ts =
     (let enc = Encoder_u32 (word_of_nat (length payload)) Encoder_new;
          (ok, w, ts) = writeAll (Encoder_take enc) ts
      in if \<not> ok then (False, w, ts)
         else let (ok, w', ts) = writeAll payload ts in (ok, w @ w', ts))"

definition recvFrame :: "rx list \<Rightarrow> string option \<times> rx list" where
  "recvFrame es =
     (case readExact 4 es of
        (None, es) \<Rightarrow> (None, es)
      | (Some header, es) \<Rightarrow>
          let len = the (fst (Decoder_u32 (Decoder_new header))) in
          if len > kMaxFrameBytes then (None, es)
          else if len > 0 then readExact (unat len) es
          else (Some [], es))"

section \<open>Lines\<close>

definition sendLine :: "string \<Rightarrow> tx list \<Rightarrow> bool \<times> string \<times> tx list" where
  "sendLine line ts = writeAll (line @ [CHR 0x0A]) ts"

text \<open>The bytes that the events of a connection carry.\<close>

fun bytes_of :: "rx list \<Rightarrow> string" where
  "bytes_of [] = []"
| "bytes_of (Avail bs # es) = bs @ bytes_of es"
| "bytes_of (_ # es) = bytes_of es"

text \<open>What is left of the available bytes after \<^verbatim>\<open>recv\<close> has taken a chunk.\<close>

definition left_over :: "nat \<Rightarrow> string \<Rightarrow> rx list \<Rightarrow> rx list" where
  "left_over n bs es = (if length bs > n then Avail (drop n bs) # es else es)"

function recvLine :: "string \<Rightarrow> rx list \<Rightarrow> string option \<times> string \<times> rx list" where
  "recvLine buffer es =
     (let line = takeWhile (\<lambda>c. c \<noteq> CHR 0x0A) buffer in
      if length line < length buffer then
        (Some (if line \<noteq> [] \<and> last line = CHR 0x0D then butlast line else line), drop (length line + 1) buffer, es)
      else case es of
        [] \<Rightarrow> (None, buffer, [])
      | NotReady # es \<Rightarrow> (None, buffer, es)
      | RxFail # es \<Rightarrow> (None, buffer, es)
      | RxIntr # es \<Rightarrow> recvLine buffer es
      | Avail bs # es \<Rightarrow>
          if bs = [] then (None, buffer, es)
          else
            let buffer = buffer @ take 4096 bs; es = left_over 4096 bs es in
            if length buffer > unat kMaxFrameBytes then (None, buffer, es) else recvLine buffer es)"
  by pat_completeness auto
termination
  by (relation "measure (\<lambda>(buffer, es). length es + length (bytes_of es))") (auto simp: left_over_def)

declare recvLine.simps [simp del]

section \<open>Properties of addresses\<close>

definition decimal :: "nat \<Rightarrow> string \<Rightarrow> nat" where
  "decimal = foldl (\<lambda>p c. p * 10 + (of_char c - of_char (CHR ''0'')))"

lemma decimal_simps [simp]:
  "decimal p [] = p" "decimal p (c # s) = decimal (p * 10 + (of_char c - of_char (CHR ''0''))) s"
  "decimal p (s @ t) = decimal (decimal p s) t"
  by (simp_all add: decimal_def)

lemma decimal_ge: "p \<le> decimal p s"
proof (induction s arbitrary: p)
  case (Cons c s)
  have "p \<le> p * 10 + (of_char c - of_char (CHR ''0''))" by simp
  also have "\<dots> \<le> decimal (p * 10 + (of_char c - of_char (CHR ''0''))) s" by (rule Cons)
  finally show ?case by simp
qed simp

lemma port_loop_iff:
  "p \<le> 65535 \<Longrightarrow> port_loop p s = Some q \<longleftrightarrow> list_all digit s \<and> q = decimal p s \<and> q \<le> 65535"
proof (induction s arbitrary: p)
  case (Cons c s)
  then show ?case
    using decimal_ge [of "p * 10 + (of_char c - of_char (CHR ''0''))" s] by (auto simp: Let_def)
qed auto

lemma rfind_None: "rfind c s = None \<longleftrightarrow> c \<notin> set s"
  by (induction s) (auto split: option.splits)

lemma rfind_Some:
  "rfind c s = Some i \<longleftrightarrow> (\<exists>a b. s = a @ c # b \<and> length a = i \<and> c \<notin> set b)"
proof (induction s arbitrary: i)
  case (Cons x s)
  show ?case
  proof (cases "rfind c s")
    case None
    then have "c \<notin> set s" by (simp add: rfind_None)
    then have "(\<exists>a b. x # s = a @ c # b \<and> length a = i \<and> c \<notin> set b) \<longleftrightarrow> x = c \<and> i = 0"
      by (auto simp: Cons_eq_append_conv)
    with None show ?thesis by auto
  next
    case (Some j)
    then obtain a b where ab: "s = a @ c # b" "length a = j" "c \<notin> set b"
      using Cons by blast
    have "(\<exists>a b. x # s = a @ c # b \<and> length a = i \<and> c \<notin> set b) \<longleftrightarrow> i = Suc j"
    proof
      assume "\<exists>a b. x # s = a @ c # b \<and> length a = i \<and> c \<notin> set b"
      then obtain a' b' where *: "x # s = a' @ c # b'" "length a' = i" "c \<notin> set b'"
        by blast
      with ab(1) obtain a'' where "a' = x # a''" "s = a'' @ c # b'"
        by (cases a') auto
      with * Cons [of "length a''"] Some show "i = Suc j"
        by auto
    next
      assume "i = Suc j"
      with ab show "\<exists>a b. x # s = a @ c # b \<and> length a = i \<and> c \<notin> set b"
        by (intro exI [of _ "x # a"] exI [of _ b]) simp
    qed
    with Some show ?thesis by auto
  qed
qed simp

lemma digit_char: "n < 10 \<Longrightarrow> digit (char_of (n + 48)) \<and> of_char (char_of (n + 48) :: char) = n + (48 :: nat)"
  by (simp add: digit_def)

lemma to_string_spec: "to_string n \<noteq> [] \<and> list_all digit (to_string n) \<and> decimal 0 (to_string n) = n"
proof (induction n rule: to_string.induct)
  case (1 n)
  have d: "digit (char_of (n mod 10 + 48))" "of_char (char_of (n mod 10 + 48) :: char) = n mod 10 + (48 :: nat)"
    using digit_char [of "n mod 10"] by simp_all
  show ?case
    using 1 d by (cases "n < 10") (simp_all add: to_string.simps [of n])
qed

lemma Address_parse_spec:
  "Address_parse s = Some a \<longleftrightarrow> (\<exists>ds. s = host a @ '':'' @ ds \<and> host a \<noteq> [] \<and> ds \<noteq> []
      \<and> list_all digit ds \<and> decimal 0 ds = unat (port a) \<and> port a \<noteq> 0)" (is "?l \<longleftrightarrow> ?r")
proof
  assume ?l
  then obtain colon p where c: "rfind (CHR '':'') s = Some colon" "colon \<noteq> 0" "colon + 1 < length s"
      "port_loop 0 (drop (colon + 1) s) = Some p" "p \<noteq> 0" "a = \<lparr>host = take colon s, port = word_of_nat p\<rparr>"
    by (auto simp: Address_parse_def split: option.splits if_splits)
  obtain x y where xy: "s = x @ CHR '':'' # y" "length x = colon"
    using c(1) by (auto simp: rfind_Some)
  have "list_all digit y" "p = decimal 0 y" "p \<le> 65535"
    using c(4) xy port_loop_iff [of 0 y p] by auto
  moreover have "unat (word_of_nat p :: u16) = p"
    using \<open>p \<le> 65535\<close> by (intro unat_of_nat_id) simp
  ultimately show ?r
    using c(2,3,5,6) xy by (auto simp: word_unat_eq_iff)
next
  assume ?r
  then obtain ds where ds: "s = host a @ CHR '':'' # ds" "host a \<noteq> []" "ds \<noteq> []" "list_all digit ds"
      "decimal 0 ds = unat (port a)" "port a \<noteq> 0"
    by auto
  have "unat (port a) < 2 ^ LENGTH(16)"
    by (rule unsigned_less)
  then have "unat (port a) \<le> 65535"
    by simp
  then have "port_loop 0 ds = Some (unat (port a))"
    using ds(4,5) by (simp add: port_loop_iff)
  moreover have "CHR '':'' \<notin> set ds"
    using ds(4) by (auto simp: list_all_iff digit_def)
  then have "rfind (CHR '':'') s = Some (length (host a))"
    using ds(1) by (auto simp: rfind_Some)
  ultimately show ?l
    using ds by (simp add: Address_parse_def unat_eq_0)
qed

lemma Address_parse_str: "Address_parse (Address_str a) = Some a \<longleftrightarrow> host a \<noteq> [] \<and> port a \<noteq> 0"
  unfolding Address_parse_spec Address_str_def using to_string_spec [of "unat (port a)"] by auto

text \<open>
  C40: \<^verbatim>\<open>Address::parse\<close> accepts exactly \<^verbatim>\<open>host:digits\<close> with a non-empty host (which may itself contain
  colons) and a decimal port from 1 to 65535, leading zeros allowed; and it inverts \<^verbatim>\<open>str\<close> on every
  address with a host and a port.
\<close>

theorem Address_parse_iff:
  "(Address_parse s = Some a \<longleftrightarrow>
      (\<exists>ds. s = host a @ '':'' @ ds \<and> host a \<noteq> [] \<and> ds \<noteq> [] \<and> list_all digit ds
         \<and> decimal 0 ds = unat (port a) \<and> port a \<noteq> 0))
   \<and> (Address_parse (Address_str a) = Some a \<longleftrightarrow> host a \<noteq> [] \<and> port a \<noteq> 0)"
  using Address_parse_spec [of s a] Address_parse_str [of a] by blast

section \<open>Properties of frames\<close>

text \<open>A connection that delivers exactly the bytes \<open>bs\<close>, in any chunks, with any interruptions.\<close>

fun benign :: "rx \<Rightarrow> bool" where
  "benign (Avail bs) = (bs \<noteq> [])"
| "benign RxIntr = True"
| "benign _ = False"

definition delivers :: "rx list \<Rightarrow> string \<Rightarrow> bool" where
  "delivers es bs \<longleftrightarrow> list_all benign es \<and> bytes_of es = bs"

lemma writeAll_complete: "writeAll data ts = (True, w, ts') \<Longrightarrow> w = data"
proof (induction data ts arbitrary: w rule: writeAll.induct)
  case (5 c data n ts)
  obtain w' where w': "writeAll (drop n (c # data)) ts = (True, w', ts')" "w = take n (c # data) @ w'"
    using 5(2) by (auto split: prod.splits)
  show ?case
    unfolding w'(2) 5(1) [OF w'(1)] by (rule append_take_drop_id)
qed simp_all

lemma readExact_sound:
  "readExact n es = (Some bs, es') \<Longrightarrow> length bs = n \<and> bytes_of es = bs @ bytes_of es'"
proof (induction n es arbitrary: bs rule: readExact.induct)
  case (6 n xs es)
  show ?case
  proof (cases "xs \<noteq> [] \<and> length xs \<le> Suc n")
    case True
    then obtain ys where ys: "readExact (Suc n - length xs) es = (Some ys, es')" "bs = xs @ ys"
      using 6(2) by (auto split: prod.splits option.splits if_splits)
    with 6(1) [OF _ _ ys(1)] True show ?thesis by simp
  next
    case False
    with 6(2) show ?thesis by (auto split: if_splits)
  qed
qed simp_all

lemma readExact_complete:
  "delivers es (a @ b) \<Longrightarrow> length a = n \<Longrightarrow> \<exists>es'. readExact n es = (Some a, es') \<and> delivers es' b"
proof (induction n es arbitrary: a rule: readExact.induct)
  case (6 n xs es)
  have xs: "xs \<noteq> []" "list_all benign es" "xs @ bytes_of es = a @ b"
    using 6(2) by (simp_all add: delivers_def)
  have cut: "take n (xs @ bytes_of es) = take n (a @ b)" "drop n (xs @ bytes_of es) = drop n (a @ b)" for n
    by (simp_all only: xs(3))
  show ?case
  proof (cases "length xs > Suc n")
    case True
    then have "take (Suc n) xs = a" "drop (Suc n) xs @ bytes_of es = b"
      using cut [of "Suc n"] 6(3) by simp_all
    with True xs show ?thesis
      by (simp add: delivers_def)
  next
    case False
    then have "xs = take (length xs) a" and rem: "bytes_of es = drop (length xs) a @ b"
      using cut [of "length xs"] 6(3) by simp_all
    then have a: "xs @ drop (length xs) a = a"
      by (metis append_take_drop_id)
    have "delivers es (drop (length xs) a @ b)" "length (drop (length xs) a) = Suc n - length xs"
      using xs(2) rem 6(3) by (simp_all add: delivers_def)
    from 6(1) [OF xs(1) False this] obtain es' where
        "readExact (Suc n - length xs) es = (Some (drop (length xs) a), es')" "delivers es' b"
      by blast
    with xs(1) False a show ?thesis by simp
  qed
qed (simp_all add: delivers_def)

lemma kMaxFrameBytes_nat: "unat kMaxFrameBytes = 67108864"
  by (simp add: kMaxFrameBytes_def)

definition frame :: "string \<Rightarrow> string" where
  "frame payload = be32 (word_of_nat (length payload)) @ payload"

lemma sendFrame_bytes:
  assumes "sendFrame payload ts = (True, w, ts')"
  shows "w = frame payload"
proof -
  obtain w1 w2 ts1 where "writeAll (be32 (word_of_nat (length payload))) ts = (True, w1, ts1)"
      "writeAll payload ts1 = (True, w2, ts')" "w = w1 @ w2"
    using assms by (auto simp: sendFrame_def codec_simps split: prod.splits if_splits)
  with writeAll_complete [of payload ts1] writeAll_complete [of "be32 (word_of_nat (length payload))" ts] show ?thesis
    by (simp add: frame_def)
qed

lemma header_decode: "the (fst (Decoder_u32 (Decoder_new (be32 v)))) = v"
  using Decoder_u32_be32 [of "Decoder_new (be32 v)" v "[]"] by simp

lemma recvFrame_complete:
  assumes "length payload \<le> 67108864" "delivers es (frame payload @ rem)"
  shows "\<exists>es'. recvFrame es = (Some payload, es') \<and> delivers es' rem"
proof -
  let ?n = "word_of_nat (length payload) :: u32"
  have n: "unat ?n = length payload"
    using assms(1) by (intro unat_of_nat_id) simp
  have "delivers es (be32 ?n @ payload @ rem)"
    using assms(2) by (simp add: frame_def)
  from readExact_complete [OF this] obtain es1 where es1: "readExact 4 es = (Some (be32 ?n), es1)"
      "delivers es1 (payload @ rem)"
    by fastforce
  obtain es2 where "readExact (length payload) es1 = (Some payload, es2)" "delivers es2 rem"
    using readExact_complete [OF es1(2)] by blast
  moreover have "\<not> ?n > kMaxFrameBytes"
    using assms(1) n by (simp add: word_less_nat_alt kMaxFrameBytes_nat)
  moreover have "?n > 0 \<longleftrightarrow> payload \<noteq> []"
    using n by (simp add: word_less_nat_alt)
  ultimately show ?thesis
    using es1 n by (cases "payload = []") (auto simp: recvFrame_def header_decode)
qed

text \<open>
  C37: a frame that was sent arrives whole and unchanged however TCP cuts the bytes into chunks and
  signals interrupt the calls, and the bytes behind it are left for the next frame.
\<close>

theorem frame_transfer:
  assumes "sendFrame payload ts = (True, w, ts')" "length payload \<le> 67108864" "delivers es (w @ rem)"
  shows "\<exists>es'. recvFrame es = (Some payload, es') \<and> delivers es' rem"
  using recvFrame_complete [OF assms(2)] assms(3) unfolding sendFrame_bytes [OF assms(1)] .

theorem frame_transfer_witness:
  "\<exists>w ts' es'. sendFrame ''ab'' [Sent 3, TxIntr, Sent 9, Sent 2] = (True, w, ts')
     \<and> recvFrame [Avail (take 5 w), RxIntr, Avail (drop 5 w @ ''c'')] = (Some ''ab'', es') \<and> bytes_of es' = ''c''"
proof -
  let ?w = "frame ''ab''"
  have send: "sendFrame ''ab'' [Sent 3, TxIntr, Sent 9, Sent 2] = (True, ?w, [])"
    by (simp add: sendFrame_def frame_def codec_simps be32_def)
  have "delivers [Avail (take 5 ?w), RxIntr, Avail (drop 5 ?w @ ''c'')] (?w @ ''c'')"
    by (simp add: delivers_def frame_def be32_def)
  from frame_transfer [OF send _ this] send show ?thesis
    by (auto simp: delivers_def)
qed

lemma be32_surj:
  assumes "length header = 4"
  shows "\<exists>v. header = be32 v"
proof -
  obtain a b c e where "header = [a, b, c, e]"
    using assms by (auto simp: numeral_eq_Suc length_Suc_conv)
  then have h: "rest (Decoder_new header) = a # b # c # e # []"
    by simp
  then obtain r v where "header = be32 v @ r"
    using Decoder_u32_SomeD [OF Decoder_u32_Cons [OF h]] by auto
  with assms show ?thesis by auto
qed

lemma recvFrame_sound:
  assumes "recvFrame es = (Some payload, es')"
  shows "length payload \<le> 67108864 \<and> bytes_of es = frame payload @ bytes_of es'"
proof -
  obtain header es1 where h: "readExact 4 es = (Some header, es1)"
    using assms by (auto simp: recvFrame_def split: prod.splits option.splits)
  have len: "length header = 4" "bytes_of es = header @ bytes_of es1"
    using readExact_sound [OF h] by simp_all
  obtain v where v: "header = be32 v"
    using len(1) be32_surj by blast
  have "\<not> v > kMaxFrameBytes" "payload = [] \<and> v = 0 \<and> es' = es1 \<or> readExact (unat v) es1 = (Some payload, es')"
    using assms h by (auto simp: recvFrame_def v header_decode word_gt_0 split: if_splits)
  then have "unat v \<le> 67108864" "length payload = unat v" "bytes_of es1 = payload @ bytes_of es'"
    using readExact_sound [of "unat v" es1 payload es'] by (auto simp: word_less_nat_alt kMaxFrameBytes_nat)
  then show ?thesis
    using len(2) v by (simp add: frame_def)
qed

lemma frame_refused:
  assumes "67108864 < length payload" "length payload < 2 ^ 32" "delivers es (frame payload @ rem)"
  shows "fst (recvFrame es) = None"
proof -
  let ?n = "word_of_nat (length payload) :: u32"
  have n: "unat ?n = length payload"
    using assms(2) by (intro unat_of_nat_id) simp
  have "delivers es (be32 ?n @ payload @ rem)"
    using assms(3) by (simp add: frame_def)
  from readExact_complete [OF this] obtain es1 where "readExact 4 es = (Some (be32 ?n), es1)"
    by fastforce
  moreover have "?n > kMaxFrameBytes"
    using assms(1) n by (simp add: word_less_nat_alt kMaxFrameBytes_nat)
  ultimately show ?thesis
    by (simp add: recvFrame_def header_decode)
qed

section \<open>Properties of lines\<close>

definition strip_cr :: "string \<Rightarrow> string" where
  "strip_cr line = (if line \<noteq> [] \<and> last line = CHR 0x0D then butlast line else line)"

lemma takeWhile_newline: "CHR 0x0A \<notin> set line \<Longrightarrow> takeWhile (\<lambda>c. c \<noteq> CHR 0x0A) (line @ CHR 0x0A # s) = line"
  by (simp add: takeWhile_append)

lemma no_newline_prefix:
  assumes "takeWhile (\<lambda>c. c \<noteq> CHR 0x0A) buffer = buffer" "buffer @ s = line @ CHR 0x0A # t" "CHR 0x0A \<notin> set line"
  shows "length buffer \<le> length line"
proof (rule ccontr)
  assume "\<not> length buffer \<le> length line"
  then have "buffer ! length line = CHR 0x0A"
    using arg_cong [OF assms(2), of "\<lambda>x. x ! length line"] by (simp add: nth_append)
  with \<open>\<not> length buffer \<le> length line\<close> have "CHR 0x0A \<in> set buffer"
    by (metis not_le nth_mem)
  with assms(1) show False
    by (metis set_takeWhileD)
qed

lemma left_over_bytes: "bytes_of (left_over n bs es) = drop n bs @ bytes_of es"
  by (simp add: left_over_def)

lemma left_over_benign: "list_all benign es \<Longrightarrow> list_all benign (left_over n bs es)"
  by (simp add: left_over_def)

lemma recvLine_complete:
  "list_all benign es \<Longrightarrow> buffer @ bytes_of es = line @ CHR 0x0A # t \<Longrightarrow> CHR 0x0A \<notin> set line
   \<Longrightarrow> length line + 4096 \<le> 67108864
   \<Longrightarrow> \<exists>buffer' es'. recvLine buffer es = (Some (strip_cr line), buffer', es')
       \<and> list_all benign es' \<and> buffer' @ bytes_of es' = t"
proof (induction buffer es rule: recvLine.induct)
  case (1 buffer es)
  let ?l = "takeWhile (\<lambda>c. c \<noteq> CHR 0x0A) buffer"
  note step = recvLine.simps [of buffer es]
  show ?case
  proof (cases "length ?l < length buffer")
    case True
    then obtain s where s: "buffer = ?l @ CHR 0x0A # s"
      using takeWhile_dropWhile_id [of "\<lambda>c. c \<noteq> CHR 0x0A" buffer] hd_dropWhile [of "\<lambda>c. c \<noteq> CHR 0x0A" buffer]
      by (metis (no_types, lifting) append.right_neutral less_irrefl list.collapse)
    have "?l = takeWhile (\<lambda>c. c \<noteq> CHR 0x0A) (buffer @ bytes_of es)"
      by (subst (2) s) (auto simp: takeWhile_append dest: set_takeWhileD)
    also have "\<dots> = line"
      unfolding 1(4) by (rule takeWhile_newline [OF 1(5)])
    finally have l: "?l = line" .
    then have b: "buffer = line @ CHR 0x0A # s"
      using s by simp
    have "drop (length line + 1) buffer @ bytes_of es = t"
      using 1(4) by (simp add: b)
    with True l 1(3) step show ?thesis
      by (simp add: Let_def strip_cr_def)
  next
    case False
    then have l: "?l = buffer"
      by (metis length_takeWhile_le le_antisym not_less takeWhile_eq_take take_all)
    have short: "length buffer \<le> length line"
      using no_newline_prefix [OF l] 1(4,5) by blast
    then have "es \<noteq> []"
      using 1(4) by (auto dest: arg_cong [of _ _ length])
    then consider (intr) es' where "es = RxIntr # es'" | (chunk) bs es' where "es = Avail bs # es'" "bs \<noteq> []"
      using 1(3) by (cases es rule: bytes_of.cases) auto
    then show ?thesis
    proof cases
      case intr
      then have "list_all benign es'" "buffer @ bytes_of es' = line @ CHR 0x0A # t"
        using 1(3,4) by simp_all
      from 1(2) [OF refl False intr refl this 1(5,6)] show ?thesis
        using step l intr by (simp add: Let_def)
    next
      case chunk
      let ?b = "buffer @ take 4096 bs" and ?es = "left_over 4096 bs es'"
      have small: "\<not> length ?b > unat kMaxFrameBytes"
        using short 1(6) by (simp add: kMaxFrameBytes_nat min_def)
      have "list_all benign ?es" "?b @ bytes_of ?es = line @ CHR 0x0A # t"
        using 1(3,4) chunk append_take_drop_id [of 4096 bs]
        by (simp_all add: left_over_benign left_over_bytes del: append_take_drop_id) (metis append_assoc)
      from 1(1) [OF refl False chunk(1) refl chunk(2) refl refl small this 1(5,6)] show ?thesis
        using step l chunk small by (simp add: Let_def)
    qed
  qed
qed

text \<open>
  A line that was sent arrives unchanged (a carriage return at its end apart), however the bytes are
  cut into chunks and split between the buffer and the connection; what follows it stays available.
\<close>

theorem line_transfer:
  assumes "sendLine line ts = (True, w, ts')" "CHR 0x0A \<notin> set line" "length line + 4096 \<le> 67108864"
    and "list_all benign es" "buffer @ bytes_of es = w @ rem"
  shows "\<exists>buffer' es'. recvLine buffer es = (Some (strip_cr line), buffer', es')
    \<and> list_all benign es' \<and> buffer' @ bytes_of es' = rem"
proof -
  have "w = line @ [CHR 0x0A]"
    using writeAll_complete assms(1) by (auto simp: sendLine_def)
  then show ?thesis
    using recvLine_complete [OF assms(4) _ assms(2,3), of buffer rem] assms(5) by simp
qed

theorem line_transfer_witness:
  "\<exists>w ts' buffer' es'. sendLine ''GET a'' [Sent 2, Sent 4] = (True, w, ts')
     \<and> recvLine ''GE'' [RxIntr, Avail ''T a'', Avail [CHR 0x0A, CHR ''x'']] = (Some ''GET a'', buffer', es')
     \<and> buffer' @ bytes_of es' = ''x''"
proof -
  have send: "sendLine ''GET a'' [Sent 2, Sent 4] = (True, ''GET a'' @ [CHR 0x0A], [])"
    by (simp add: sendLine_def)
  show ?thesis
    using line_transfer [OF send, where es = "[RxIntr, Avail ''T a'', Avail [CHR 0x0A, CHR ''x'']]"
        and buffer = "''GE''" and rem = "''x''"] send by (auto simp: strip_cr_def)
qed

end
