(* ===== verification/Storage.thy ===== *)
theory Storage
  imports Command
begin

text \<open>
  Durable storage (\<^verbatim>\<open>include/dkvs/storage.hpp\<close>, \<^verbatim>\<open>src/storage.cpp\<close>): the \<^verbatim>\<open>meta\<close> file, the
  write-ahead log, and recovery. The operating system is an argument: every operation takes the
  list of outcomes of the system calls it makes, in order, and stops when the list is exhausted (the
  process is killed there). A file has the content processes see and the content that is guaranteed
  to survive a power loss; \<^verbatim>\<open>fsync\<close> makes the second equal to the first. The theorems follow the bytes
  from \<^verbatim>\<open>append\<close> to \<^verbatim>\<open>load\<close>: whatever the outcomes and wherever the operation is cut off,
  recovery yields the log before or after the operation, as long as what a power loss leaves of an
  unfinished record does not pass for a record. A last section shows what is lost when a call fails
  whose result the code does not look at.
\<close>

section \<open>Files and system calls\<close>

datatype outcome = Ok nat | Eintr | Fail

datatype 'a io = Done 'a | Throw exn | Killed

record osfile =
  content :: string
  synced :: string

text \<open>
  The node's data directory: the \<^verbatim>\<open>meta\<close> entry as processes see it and as it is after a power
  loss (a \<^verbatim>\<open>rename\<close> is durable once the directory is synced), the temporary file, and the log with
  whether its directory entry is durable (a created file may vanish until the directory is synced).
  \<open>dir_syncs\<close> belongs to the environment: \<open>dir_syncs d k\<close> says whether the directory can be opened
  and synced at the \<open>k\<close>-th of the saves to come, a failure that the code ignores.
\<close>

record disk =
  meta_file :: "osfile option"
  meta_durable :: "osfile option"
  meta_tmp :: "osfile option"
  wal_file :: "osfile option"
  wal_linked :: bool
  dir_syncs :: "nat \<Rightarrow> bool"

record Storage =
  sdisk :: disk
  s_currentTerm :: u64
  s_votedFor :: i32
  s_entries :: "LogEntry list"
  s_offsets :: "nat list"
  walSize :: nat
  walFd :: "nat option"

text \<open>\<open>walFd\<close> is \<^verbatim>\<open>walFd_\<close>: \<^term>\<open>None\<close> for \<^verbatim>\<open>-1\<close>, else the file offset of the open descriptor.\<close>

definition Storage_new :: "disk \<Rightarrow> Storage" where
  "Storage_new d = \<lparr>sdisk = d, s_currentTerm = 0, s_votedFor = -1, s_entries = [], s_offsets = [],
     walSize = 0, walFd = None\<rparr>"

definition file_write :: "nat \<Rightarrow> string \<Rightarrow> osfile \<Rightarrow> osfile" where
  "file_write p bytes f =
     f\<lparr>content := take p (content f) @ bytes @ drop (p + length bytes) (content f)\<rparr>"

definition file_truncate :: "nat \<Rightarrow> osfile \<Rightarrow> osfile" where
  "file_truncate n f = f\<lparr>content := take n (content f)\<rparr>"

definition file_sync :: "osfile \<Rightarrow> osfile" where
  "file_sync f = f\<lparr>synced := content f\<rparr>"

text \<open>\<open>write_loop os n w\<close>: the loop of \<^verbatim>\<open>writeAllOrThrow\<close> with \<open>w\<close> of \<open>n\<close> bytes written.\<close>

fun write_loop :: "outcome list \<Rightarrow> nat \<Rightarrow> nat \<Rightarrow> unit io \<times> nat \<times> outcome list" where
  "write_loop [] n w = (if w < n then (Killed, w, []) else (Done (), w, []))"
| "write_loop (oc # os) n w =
     (if w < n then
        (case oc of
           Ok k \<Rightarrow> write_loop os n (w + min k (n - w))
         | Eintr \<Rightarrow> write_loop os n w
         | Fail \<Rightarrow> (Throw System_error, w, os))
      else (Done (), w, oc # os))"

definition writeAllOrThrow ::
    "outcome list \<Rightarrow> string \<Rightarrow> nat \<Rightarrow> osfile \<Rightarrow> unit io \<times> nat \<times> osfile \<times> outcome list" where
  "writeAllOrThrow os bytes p f =
     (let (r, w, os') = write_loop os (length bytes) 0
      in (r, p + w, file_write p (take w bytes) f, os'))"

fun syscall :: "outcome list \<Rightarrow> unit io \<times> outcome list" where
  "syscall [] = (Killed, [])"
| "syscall (Ok n # os) = (Done (), os)"
| "syscall (Eintr # os) = (Throw System_error, os)"
| "syscall (Fail # os) = (Throw System_error, os)"

definition fsyncOrThrow :: "outcome list \<Rightarrow> osfile \<Rightarrow> unit io \<times> osfile \<times> outcome list" where
  "fsyncOrThrow os f =
     (case syscall os of
        (Done _, os') \<Rightarrow> (Done (), file_sync f, os')
      | (r, os') \<Rightarrow> (r, f, os'))"

section \<open>The metadata file\<close>

definition kMetaMagic :: string where
  "kMetaMagic = ''DKVSMETA''"

definition meta_payload :: "u64 \<Rightarrow> i32 \<Rightarrow> string" where
  "meta_payload trm voted =
     (let body = Encoder_new;
          body = Encoder_u64 trm body;
          body = Encoder_u32 voted body
      in kMetaMagic @ Encoder_take body)"

definition meta_crc :: "string \<Rightarrow> string" where
  "meta_crc payload = buf (Encoder_u32 (crc32 payload) Encoder_new)"

text \<open>The body of \<^verbatim>\<open>writeMetaFile\<close> from the open temporary file to the closed one.\<close>

definition write_meta_tmp :: "outcome list \<Rightarrow> string \<Rightarrow> unit io \<times> osfile \<times> outcome list" where
  "write_meta_tmp os payload =
     (let f = \<lparr>content = [], synced = []\<rparr>
      in case writeAllOrThrow os payload 0 f of
           (Done _, p, f, os) \<Rightarrow>
             (case writeAllOrThrow os (meta_crc payload) p f of
                (Done _, _, f, os) \<Rightarrow> fsyncOrThrow os f
              | (r, _, f, os) \<Rightarrow> (r, f, os))
         | (r, _, f, os) \<Rightarrow> (r, f, os))"

definition sync_directory :: "outcome list \<Rightarrow> disk \<Rightarrow> unit io \<times> disk \<times> outcome list" where
  "sync_directory os d =
     (case syscall os of
        (Killed, os) \<Rightarrow> (Killed, d, os)
      | (Throw _, os) \<Rightarrow> (Done (), d, os)
      | (Done _, os) \<Rightarrow>
          (case syscall os of
             (Killed, os) \<Rightarrow> (Killed, d, os)
           | (Throw _, os) \<Rightarrow> (Done (), d, os)
           | (Done _, os) \<Rightarrow> (Done (), d\<lparr>meta_durable := meta_file d, wal_linked := wal_file d \<noteq> None\<rparr>, os)))"

definition writeMetaFile :: "outcome list \<Rightarrow> Storage \<Rightarrow> unit io \<times> Storage \<times> outcome list" where
  "writeMetaFile os s =
     (case syscall os of
        (Done _, os) \<Rightarrow>
          (case write_meta_tmp os (meta_payload (s_currentTerm s) (s_votedFor s)) of
             (Done _, f, os) \<Rightarrow>
               (let s = s\<lparr>sdisk := (sdisk s)\<lparr>meta_tmp := Some f\<rparr>\<rparr>
                in case syscall os of
                     (Done _, os) \<Rightarrow>
                       (let d = (sdisk s)\<lparr>meta_file := Some f, meta_tmp := None\<rparr>;
                            (r, d, os) = sync_directory os d
                        in (r, s\<lparr>sdisk := d\<rparr>, os))
                   | (r, os) \<Rightarrow> (r, s, os))
           | (r, f, os) \<Rightarrow> (r, s\<lparr>sdisk := (sdisk s)\<lparr>meta_tmp := Some f\<rparr>\<rparr>, os))
      | (r, os) \<Rightarrow> (r, s, os))"

definition saveMeta :: "outcome list \<Rightarrow> u64 \<Rightarrow> i32 \<Rightarrow> Storage \<Rightarrow> unit io \<times> Storage \<times> outcome list" where
  "saveMeta os trm voted s = writeMetaFile os (s\<lparr>s_currentTerm := trm, s_votedFor := voted\<rparr>)"

section \<open>The write-ahead log\<close>

definition wal_payload :: "LogEntry \<Rightarrow> string" where
  "wal_payload e = Encoder_take (Encoder_str (entry_command e) (Encoder_u64 (entry_term e) Encoder_new))"

definition wal_record :: "LogEntry \<Rightarrow> string" where
  "wal_record e =
     (let payload = wal_payload e
      in Encoder_take (Encoder_u32 (word_of_nat (length payload)) Encoder_new) @ payload
         @ buf (Encoder_u32 (crc32 payload) Encoder_new))"

definition put_wal :: "osfile \<Rightarrow> nat \<Rightarrow> Storage \<Rightarrow> Storage" where
  "put_wal f p s = s\<lparr>sdisk := (sdisk s)\<lparr>wal_file := Some f\<rparr>, walFd := Some p\<rparr>"

definition Storage_append :: "outcome list \<Rightarrow> LogEntry \<Rightarrow> Storage \<Rightarrow> unit io \<times> Storage \<times> outcome list" where
  "Storage_append os e s =
     (case (walFd s, wal_file (sdisk s)) of
        (Some p, Some f) \<Rightarrow>
          (case writeAllOrThrow os (wal_record e) p f of
             (Done _, p, f, os) \<Rightarrow>
               (case fsyncOrThrow os f of
                  (Done _, f, os) \<Rightarrow>
                    (Done (),
                     (put_wal f p s)\<lparr>s_offsets := s_offsets s @ [walSize s],
                        walSize := walSize s + length (wal_record e),
                        s_entries := s_entries s @ [e]\<rparr>, os)
                | (r, f, os) \<Rightarrow> (r, put_wal f p s, os))
           | (r, p, f, os) \<Rightarrow> (r, put_wal f p s, os))
      | _ \<Rightarrow> (Throw System_error, s, os))"

definition truncateFrom :: "outcome list \<Rightarrow> u64 \<Rightarrow> Storage \<Rightarrow> unit io \<times> Storage \<times> outcome list" where
  "truncateFrom os fromIndex s =
     (if unat fromIndex < 1 \<or> unat fromIndex > length (s_entries s) then (Done (), s, os)
      else case (walFd s, wal_file (sdisk s)) of
        (Some p, Some f) \<Rightarrow>
          (let offset = s_offsets s ! (unat fromIndex - 1)
           in case syscall os of
                (Done _, os) \<Rightarrow>
                  (let f = file_truncate offset f
                   in case fsyncOrThrow os f of
                        (Done _, f, os) \<Rightarrow>
                          (case syscall os of
                             (Done _, os) \<Rightarrow>
                               (Done (),
                                (put_wal f offset s)\<lparr>walSize := offset,
                                   s_offsets := take (unat fromIndex - 1) (s_offsets s),
                                   s_entries := take (unat fromIndex - 1) (s_entries s)\<rparr>, os)
                           | (r, os) \<Rightarrow> (r, put_wal f p s, os))
                      | (r, f, os) \<Rightarrow> (r, put_wal f p s, os))
              | (r, os) \<Rightarrow> (r, s, os))
      | _ \<Rightarrow> (Throw System_error, s, os))"

section \<open>Recovery\<close>

datatype wal_item = Break | Raise exn | Next LogEntry nat

text \<open>
  One iteration of the scan. The length test is the code's: \<^verbatim>\<open>4 + *len + 4\<close> is computed in 32 bits
  and then compared with the 64-bit number of bytes left; \<^verbatim>\<open>substr\<close> raises when its start is
  behind the end.
\<close>

definition wal_item :: "string \<Rightarrow> nat \<Rightarrow> wal_item" where
  "wal_item raw p =
     (case fst (Decoder_u32 (Decoder_new (drop p raw))) of
        None \<Rightarrow> Break
      | Some len \<Rightarrow>
          if length raw - p < unat (4 + len + 4) then Break
          else if length raw < p + 4 + unat len then Raise Out_of_range
          else
            let payload = take (unat len) (drop (p + 4) raw);
                storedCrc = fst (Decoder_u32 (Decoder_new (take 4 (drop (p + 4 + unat len) raw))))
            in if storedCrc = None \<or> the storedCrc \<noteq> crc32 payload then Break
               else
                 let (e, dec) = Decoder_LogEntry (Decoder_new payload)
                 in if e = None \<or> \<not> Decoder_done dec then Break
                    else Next (the e) (p + unat (4 + len + 4)))"

partial_function (option) wal_scan ::
    "string \<Rightarrow> nat \<Rightarrow> LogEntry list \<Rightarrow> nat list \<Rightarrow> (exn + LogEntry list \<times> nat list \<times> nat) option" where
  "wal_scan raw p es offs =
     (if p < length raw then
        (case wal_item raw p of
           Break \<Rightarrow> Some (Inr (es, offs, p))
         | Raise x \<Rightarrow> Some (Inl x)
         | Next e p' \<Rightarrow> wal_scan raw p' (es @ [e]) (offs @ [p]))
      else Some (Inr (es, offs, p)))"

definition parse_meta :: "string \<Rightarrow> (u64 \<times> i32) option" where
  "parse_meta raw =
     (if length raw > length kMetaMagic + 4 \<and> take (length kMetaMagic) raw = kMetaMagic then
        let payload = take (length raw - 4) raw;
            storedCrc = fst (Decoder_u32 (Decoder_new (drop (length raw - 4) raw)))
        in if storedCrc \<noteq> None \<and> the storedCrc = crc32 payload then
             let dec = Decoder_new (take (length raw - length kMetaMagic - 4) (drop (length kMetaMagic) raw));
                 (trm, dec) = Decoder_u64 dec;
                 (voted, dec) = Decoder_u32 dec
             in if trm \<noteq> None \<and> voted \<noteq> None \<and> Decoder_done dec
                then Some (the trm, the voted) else None
           else None
      else None)"

text \<open>
  \<^verbatim>\<open>load()\<close>: outcomes are consumed for \<^verbatim>\<open>create_directories\<close>, opening the stream on \<^verbatim>\<open>meta\<close> (if it
  exists), \<^verbatim>\<open>open\<close>, opening the stream on the log, and (when there is a tail to discard) \<^verbatim>\<open>ftruncate\<close>
  and \<^verbatim>\<open>fsync\<close>, and finally \<^verbatim>\<open>lseek\<close>. A stream that cannot be opened reads as empty, which the code
  does not distinguish from an empty file. The result is \<^term>\<open>None\<close> when the scan of the log does not
  end.
\<close>

definition read_file :: "outcome list \<Rightarrow> osfile \<Rightarrow> string option \<times> outcome list" where
  "read_file os f =
     (case syscall os of
        (Done _, os) \<Rightarrow> (Some (content f), os)
      | (Throw _, os) \<Rightarrow> (Some [], os)
      | (Killed, os) \<Rightarrow> (None, os))"

definition load_wal :: "outcome list \<Rightarrow> string \<Rightarrow> osfile \<Rightarrow> Storage \<Rightarrow> (bool io \<times> Storage \<times> outcome list) option" where
  "load_wal os raw f s =
     (case wal_scan raw 0 [] [] of
        None \<Rightarrow> None
      | Some (Inl x) \<Rightarrow> Some (Throw x, put_wal f 0 s, os)
      | Some (Inr (es, offs, p)) \<Rightarrow>
          let s = s\<lparr>s_entries := es, s_offsets := offs\<rparr>;
              (r, f, os) =
                (if p \<noteq> length raw then
                   (case syscall os of
                      (Done _, os) \<Rightarrow>
                        (case fsyncOrThrow os (file_truncate p f) of
                           (Done _, f, os) \<Rightarrow> (Done True, f, os)
                         | (Throw x, f, os) \<Rightarrow> (Throw x, f, os)
                         | (Killed, f, os) \<Rightarrow> (Killed, f, os))
                    | (Throw _, os) \<Rightarrow> (Done False, f, os)
                    | (Killed, os) \<Rightarrow> (Killed, f, os))
                 else (Done True, f, os))
          in if r \<noteq> Done True then Some (r, put_wal f 0 s, os)
             else case syscall os of
                    (Done _, os) \<Rightarrow> Some (Done True, (put_wal f p s)\<lparr>walSize := p\<rparr>, os)
                  | (Throw _, os) \<Rightarrow> Some (Done False, (put_wal f 0 s)\<lparr>walSize := p\<rparr>, os)
                  | (Killed, os) \<Rightarrow> Some (Killed, (put_wal f 0 s)\<lparr>walSize := p\<rparr>, os))"

text \<open>\<^verbatim>\<open>open\<close> with \<^verbatim>\<open>O_CREAT\<close>: the entry of a file that is created is not durable yet.\<close>

definition open_wal :: "Storage \<Rightarrow> osfile \<times> Storage" where
  "open_wal s =
     (case wal_file (sdisk s) of
        None \<Rightarrow> let f = \<lparr>content = [], synced = []\<rparr>
                in (f, put_wal f 0 (s\<lparr>sdisk := (sdisk s)\<lparr>wal_linked := False\<rparr>\<rparr>))
      | Some f \<Rightarrow> (f, put_wal f 0 s))"

definition load_meta :: "outcome list \<Rightarrow> Storage \<Rightarrow> (u64 \<times> i32) option io \<times> outcome list" where
  "load_meta os s =
     (case meta_file (sdisk s) of
        None \<Rightarrow> (Done (Some (s_currentTerm s, s_votedFor s)), os)
      | Some f \<Rightarrow>
          (case read_file os f of
             (Some raw, os) \<Rightarrow> (Done (parse_meta raw), os)
           | (None, os) \<Rightarrow> (Killed, os)))"

definition Storage_load :: "outcome list \<Rightarrow> Storage \<Rightarrow> (bool io \<times> Storage \<times> outcome list) option" where
  "Storage_load os s =
     (case syscall os of
        (Throw _, os) \<Rightarrow> Some (Done False, s, os)
      | (Killed, os) \<Rightarrow> Some (Killed, s, os)
      | (Done _, os) \<Rightarrow>
          (case load_meta os s of
             (Done (Some (trm, voted)), os) \<Rightarrow>
               (let s = s\<lparr>s_currentTerm := trm, s_votedFor := voted\<rparr>
                in case syscall os of
                     (Throw _, os) \<Rightarrow> Some (Done False, s, os)
                   | (Killed, os) \<Rightarrow> Some (Killed, s, os)
                   | (Done _, os) \<Rightarrow>
                       (let (f, s) = open_wal s
                        in case read_file os f of
                             (Some raw, os) \<Rightarrow> load_wal os raw f s
                           | (None, os) \<Rightarrow> Some (Killed, s, os)))
           | (Done None, os) \<Rightarrow> Some (Done False, s, os)
           | (Throw x, os) \<Rightarrow> Some (Throw x, s, os)
           | (Killed, os) \<Rightarrow> Some (Killed, s, os)))"

section \<open>Scanning the records of a log\<close>

definition fits_record :: "LogEntry \<Rightarrow> bool" where
  "fits_record e \<longleftrightarrow> length (entry_command e) + 20 < 2 ^ 32"

definition wal_bytes :: "LogEntry list \<Rightarrow> string" where
  "wal_bytes es = concat (map wal_record es)"

fun offsets_from :: "nat \<Rightarrow> LogEntry list \<Rightarrow> nat list" where
  "offsets_from p [] = []"
| "offsets_from p (e # es) = p # offsets_from (p + length (wal_record e)) es"

lemma wal_payload_eq: "wal_payload e = LogEntry_bytes e"
  by (simp add: wal_payload_def LogEntry_bytes_def codec_simps)

lemma wal_record_eq:
  "wal_record e = be32 (word_of_nat (12 + length (entry_command e))) @ LogEntry_bytes e
     @ be32 (crc32 (LogEntry_bytes e))"
  by (simp add: wal_record_def Let_def wal_payload_eq codec_simps)

lemma length_wal_record [simp]: "length (wal_record e) = 20 + length (entry_command e)"
  by (simp add: wal_record_eq)

lemma wal_bytes_simps [simp]:
  "wal_bytes [] = []"
  "wal_bytes (e # es) = wal_record e @ wal_bytes es"
  "wal_bytes (es @ fs) = wal_bytes es @ wal_bytes fs"
  by (simp_all add: wal_bytes_def)

lemma length_offsets_from [simp]: "length (offsets_from p es) = length es"
  by (induction es arbitrary: p) simp_all

lemma offsets_from_append [simp]:
  "offsets_from p (es @ fs) = offsets_from p es @ offsets_from (p + length (wal_bytes es)) fs"
  by (induction es arbitrary: p) (simp_all add: add.assoc)

lemma offsets_from_nth:
  "i < length es \<Longrightarrow> offsets_from p es ! i = p + length (wal_bytes (take i es))"
proof (induction es arbitrary: p i)
  case (Cons e es)
  then show ?case by (cases i) (simp_all add: add.assoc)
qed simp

lemma take_offsets_from: "take n (offsets_from p es) = offsets_from p (take n es)"
proof (induction es arbitrary: p n)
  case (Cons e es)
  then show ?case by (cases n) simp_all
qed simp

lemma fits_record_len:
  assumes "fits_record e"
  shows "unat (word_of_nat (12 + length (entry_command e)) :: u32) = 12 + length (entry_command e)"
    and "unat (4 + word_of_nat (12 + length (entry_command e)) + 4 :: u32) = 20 + length (entry_command e)"
proof -
  have lt: "12 + length (entry_command e) < 2 ^ LENGTH(32)" "20 + length (entry_command e) < 2 ^ LENGTH(32)"
    using assms by (simp_all add: fits_record_def)
  then show "unat (word_of_nat (12 + length (entry_command e)) :: u32) = 12 + length (entry_command e)"
    by (intro unat_of_nat_id)
  have "4 + word_of_nat (12 + length (entry_command e)) + 4 = (word_of_nat (20 + length (entry_command e)) :: u32)"
    by simp
  then show "unat (4 + word_of_nat (12 + length (entry_command e)) + 4 :: u32) = 20 + length (entry_command e)"
    using lt(2) by (simp only: unat_of_nat_id)
qed

lemma fits_record_ok: "fits_record e \<Longrightarrow> LogEntry_ok e"
  by (simp add: fits_record_def LogEntry_ok_def sized_def)

lemma fst_Decoder_u32_be32: "s = be32 v @ r \<Longrightarrow> fst (Decoder_u32 (Decoder_new s)) = Some v"
  using Decoder_u32_be32 [of "Decoder_new s" v r] by simp

lemma wal_item_record:
  assumes "drop p raw = wal_record e @ r" "fits_record e"
  shows "wal_item raw p = Next e (p + length (wal_record e))"
proof -
  let ?n = "length (entry_command e)" and ?l = "word_of_nat (12 + length (entry_command e)) :: u32"
  have len: "length raw - p = 20 + ?n + length r"
    using arg_cong [OF assms(1), of length] by simp
  then have "p \<le> length raw"
    by simp
  have head: "fst (Decoder_u32 (Decoder_new (drop p raw))) = Some ?l"
    by (rule fst_Decoder_u32_be32) (simp add: assms(1) wal_record_eq)
  have payload: "take (12 + ?n) (drop (p + 4) raw) = LogEntry_bytes e"
    using arg_cong [OF assms(1), of "\<lambda>s. take (12 + ?n) (drop 4 s)"]
    by (simp add: wal_record_eq add.commute)
  have "drop (p + 4 + (12 + ?n)) raw = be32 (crc32 (LogEntry_bytes e)) @ r"
    using arg_cong [OF assms(1), of "drop (4 + (12 + ?n))"]
    by (simp add: wal_record_eq ac_simps)
  then have crc: "fst (Decoder_u32 (Decoder_new (take 4 (drop (p + 4 + (12 + ?n)) raw))))
      = Some (crc32 (LogEntry_bytes e))"
    by (intro fst_Decoder_u32_be32 [where r = "[]"]) simp
  have dec: "Decoder_LogEntry (Decoder_new (LogEntry_bytes e))
      = (Some e, advance (length (LogEntry_bytes e)) (Decoder_new (LogEntry_bytes e)))"
    using assms(2) by (intro Decoder_LogEntry_enc [where r = "[]"]) (simp_all add: fits_record_ok)
  show ?thesis
    using len \<open>p \<le> length raw\<close>
    by (simp only: wal_item_def head option.case fits_record_len [OF assms(2)] payload crc Let_def dec
        prod.case option.sel length_wal_record)
      (simp add: done_rest)
qed

lemma wal_item_torn:
  assumes "drop p raw = take k (wal_record e)" "k < length (wal_record e)" "fits_record e"
  shows "wal_item raw p = Break"
proof (cases "k < 4")
  case True
  then have "fst (Decoder_u32 (Decoder_new (drop p raw))) = None"
    using assms(1,2) by (subst Decoder_u32_None) simp_all
  then show ?thesis
    by (simp add: wal_item_def)
next
  case False
  let ?l = "word_of_nat (12 + length (entry_command e)) :: u32"
  obtain r where "drop p raw = be32 ?l @ r"
    using assms(1) False by (simp add: wal_record_eq)
  then have head: "fst (Decoder_u32 (Decoder_new (drop p raw))) = Some ?l"
    by (rule fst_Decoder_u32_be32)
  have "length raw - p < 20 + length (entry_command e)"
    using arg_cong [OF assms(1), of length] assms(2) by simp
  then show ?thesis
    by (simp only: wal_item_def head option.case fits_record_len [OF assms(3)]) simp
qed

lemma wal_item_corrupt:
  assumes "drop p raw = be32 (word_of_nat (12 + length (entry_command e))) @ payload
      @ be32 (crc32 (LogEntry_bytes e)) @ r"
    and "length payload = 12 + length (entry_command e)" "crc32 payload \<noteq> crc32 (LogEntry_bytes e)"
    and "fits_record e"
  shows "wal_item raw p = Break"
proof -
  let ?n = "12 + length (entry_command e)" and ?l = "word_of_nat (12 + length (entry_command e)) :: u32"
  have head: "fst (Decoder_u32 (Decoder_new (drop p raw))) = Some ?l"
    by (rule fst_Decoder_u32_be32) (rule assms(1))
  have payload: "take ?n (drop (p + 4) raw) = payload"
    using arg_cong [OF assms(1), of "\<lambda>s. take ?n (drop 4 s)"] assms(2) by (simp add: add.commute)
  have "drop (p + 4 + ?n) raw = be32 (crc32 (LogEntry_bytes e)) @ r"
    using arg_cong [OF assms(1), of "drop (4 + ?n)"] assms(2) by (simp add: ac_simps)
  then have crc: "fst (Decoder_u32 (Decoder_new (take 4 (drop (p + 4 + ?n) raw))))
      = Some (crc32 (LogEntry_bytes e))"
    by (intro fst_Decoder_u32_be32 [where r = "[]"]) simp
  have "length raw - p = 20 + length (entry_command e) + length r"
    using arg_cong [OF assms(1), of length] assms(2) by simp
  then show ?thesis
    using assms(3)
    by (simp only: wal_item_def head option.case fits_record_len [OF assms(4)] payload crc Let_def
        option.sel) simp
qed

lemma wal_scan_records:
  assumes "raw = pre @ wal_bytes es @ r" "\<forall>e \<in> set es. fits_record e"
  shows "wal_scan raw (length pre) acc offs
    = wal_scan raw (length pre + length (wal_bytes es)) (acc @ es) (offs @ offsets_from (length pre) es)"
  using assms
proof (induction es arbitrary: pre acc offs)
  case Nil
  then show ?case by simp
next
  case (Cons e es)
  have "wal_item raw (length pre) = Next e (length pre + length (wal_record e))"
    using Cons.prems by (intro wal_item_record [where r = "wal_bytes es @ r"]) simp_all
  then have "wal_scan raw (length pre) acc offs
      = wal_scan raw (length pre + length (wal_record e)) (acc @ [e]) (offs @ [length pre])"
    using Cons.prems by (subst wal_scan.simps) (simp add: wal_record_eq)
  also have "length pre + length (wal_record e) = length (pre @ wal_record e)" by simp
  also have "wal_scan raw \<dots> (acc @ [e]) (offs @ [length pre])
      = wal_scan raw (length (pre @ wal_record e) + length (wal_bytes es)) ((acc @ [e]) @ es)
          ((offs @ [length pre]) @ offsets_from (length (pre @ wal_record e)) es)"
    using Cons.prems by (intro Cons.IH) simp_all
  finally show ?case by (simp add: add.assoc)
qed

text \<open>Recovery of a log followed by anything at which the scan breaks off.\<close>

lemma wal_scan_tail:
  assumes "raw = wal_bytes es @ r" "\<forall>e \<in> set es. fits_record e"
    and "r \<noteq> [] \<Longrightarrow> wal_item raw (length (wal_bytes es)) = Break"
  shows "wal_scan raw 0 [] [] = Some (Inr (es, offsets_from 0 es, length (wal_bytes es)))"
proof -
  have "wal_scan raw 0 [] [] = wal_scan raw (length (wal_bytes es)) es (offsets_from 0 es)"
    using wal_scan_records [of raw "[]" es r "[]" "[]"] assms(1,2) by simp
  also have "\<dots> = Some (Inr (es, offsets_from 0 es, length (wal_bytes es)))"
    using assms(1,3) by (subst wal_scan.simps) (cases "r = []"; simp)
  finally show ?thesis .
qed

lemma wal_scan_clean:
  "\<forall>e \<in> set es. fits_record e \<Longrightarrow>
   wal_scan (wal_bytes es) 0 [] [] = Some (Inr (es, offsets_from 0 es, length (wal_bytes es)))"
  by (rule wal_scan_tail [where r = "[]"]) simp_all

lemma wal_scan_torn:
  assumes "\<forall>e \<in> set es. fits_record e" "fits_record e" "k < length (wal_record e)"
  shows "wal_scan (wal_bytes es @ take k (wal_record e)) 0 [] []
    = Some (Inr (es, offsets_from 0 es, length (wal_bytes es)))"
  using assms by (intro wal_scan_tail [OF refl]) (auto intro!: wal_item_torn)

lemma wal_scan_corrupt:
  assumes "\<forall>e \<in> set es. fits_record e" "fits_record e"
    and "length payload = length (LogEntry_bytes e)" "crc32 payload \<noteq> crc32 (LogEntry_bytes e)"
  shows "wal_scan (wal_bytes es @ be32 (word_of_nat (length (LogEntry_bytes e))) @ payload
      @ be32 (crc32 (LogEntry_bytes e)) @ r) 0 [] []
    = Some (Inr (es, offsets_from 0 es, length (wal_bytes es)))"
  using assms by (intro wal_scan_tail [OF refl]) (auto intro!: wal_item_corrupt)

lemma wal_item_zeros: "wal_item (replicate k (char_of_byte 0)) 0 = Break"
proof -
  have zero: "be32 0 = replicate 4 (char_of_byte 0)"
    by (simp add: be32_def byte_at_def numeral_eq_Suc)
  show ?thesis
  proof (cases "k < 8")
    case True
    show ?thesis
    proof (cases "k < 4")
      case True
      then show ?thesis by (simp add: wal_item_def Decoder_u32_None)
    next
      case False
      then have "fst (Decoder_u32 (Decoder_new (replicate k (char_of_byte 0)))) = Some 0"
        by (intro fst_Decoder_u32_be32 [where r = "replicate (k - 4) (char_of_byte 0)"])
          (simp add: zero flip: replicate_add)
      with True show ?thesis by (simp add: wal_item_def)
    qed
  next
    case False
    then have "fst (Decoder_u32 (Decoder_new (replicate k (char_of_byte 0)))) = Some 0"
      by (intro fst_Decoder_u32_be32 [where r = "replicate (k - 4) (char_of_byte 0)"])
        (simp add: zero flip: replicate_add)
    moreover have "fst (Decoder_LogEntry (Decoder_new [])) = None"
      by (simp add: Decoder_LogEntry_def Decoder_u64_None split: prod.splits)
    ultimately show ?thesis
      by (auto simp: wal_item_def Let_def split: prod.splits)
  qed
qed


section \<open>The metadata file, written and read\<close>

definition meta_bytes :: "u64 \<Rightarrow> i32 \<Rightarrow> string" where
  "meta_bytes trm voted = meta_payload trm voted @ meta_crc (meta_payload trm voted)"

lemma meta_payload_eq: "meta_payload trm voted = kMetaMagic @ be64 trm @ be32 voted"
  by (simp add: meta_payload_def codec_simps)

lemma meta_crc_eq: "meta_crc payload = be32 (crc32 payload)"
  by (simp add: meta_crc_def codec_simps)

lemma length_meta_payload [simp]: "length (meta_payload trm voted) = 20"
  by (simp add: meta_payload_eq kMetaMagic_def)

lemma length_meta_crc [simp]: "length (meta_crc payload) = 4"
  by (simp add: meta_crc_eq)

lemma parse_meta_bytes: "parse_meta (meta_bytes trm voted) = Some (trm, voted)"
proof -
  let ?p = "meta_payload trm voted"
  have magic: "length kMetaMagic = 8"
    by (simp add: kMetaMagic_def)
  have crc: "fst (Decoder_u32 (Decoder_new (meta_crc ?p))) = Some (crc32 ?p)"
    by (rule fst_Decoder_u32_be32 [where r = "[]"]) (simp add: meta_crc_eq)
  have body: "take 12 (drop 8 (meta_bytes trm voted)) = be64 trm @ be32 voted"
    using magic by (simp add: meta_bytes_def meta_payload_eq)
  let ?d = "Decoder_new (be64 trm @ be32 voted)"
  have "Decoder_u64 ?d = (Some trm, advance 8 ?d)"
    by (rule Decoder_u64_be64 [where r = "be32 voted"]) simp
  moreover have "Decoder_u32 (advance 8 ?d) = (Some voted, advance 12 ?d)"
    using Decoder_u32_be32 [of "advance 8 ?d" voted "[]"] by simp
  moreover have "Decoder_done (advance 12 ?d)"
    by (simp add: done_rest)
  moreover have "take 8 (meta_bytes trm voted) = kMetaMagic"
    using magic by (simp add: meta_bytes_def meta_payload_eq)
  moreover have "take 20 (meta_bytes trm voted) = ?p" "drop 20 (meta_bytes trm voted) = meta_crc ?p"
      "length (meta_bytes trm voted) = 24"
    by (simp_all add: meta_bytes_def)
  ultimately show ?thesis
    using crc body magic by (simp add: parse_meta_def Let_def)
qed

section \<open>What a system call sequence can leave behind\<close>

lemma write_loop_result:
  assumes "write_loop os n w = (r, w', os')" "w \<le> n"
  shows "w \<le> w' \<and> w' \<le> n \<and> (r = Done () \<longleftrightarrow> w' = n)"
  using assms
proof (induction os n w arbitrary: r w' os' rule: write_loop.induct)
  case (1 n w)
  then show ?case by (auto split: if_splits)
next
  case (2 oc os n w)
  show ?case
  proof (cases "w < n")
    case True
    with 2 show ?thesis
      by (cases oc) (force split: if_splits)+
  next
    case False
    with 2 show ?thesis by auto
  qed
qed

text \<open>
  If every \<^verbatim>\<open>write\<close> makes progress, as many calls as there are bytes suffice: the loop ends with all
  of them written.
\<close>

lemma write_loop_progress:
  assumes "\<forall>oc \<in> set os. oc = Eintr \<or> (\<exists>k. oc = Ok (Suc k))"
    and "n - w \<le> length (filter (\<lambda>oc. oc \<noteq> Eintr) os)" "w \<le> n"
  shows "\<exists>os'. write_loop os n w = (Done (), n, os')"
  using assms
proof (induction os n w rule: write_loop.induct)
  case (1 n w)
  then show ?case by simp
next
  case (2 oc os n w)
  show ?case
  proof (cases "w < n")
    case True
    with 2 show ?thesis
      by (cases oc) auto
  next
    case False
    with 2 show ?thesis by simp
  qed
qed

text \<open>
  A power loss. Bytes written behind the synced content of a file may be lost or come back as anything,
  up to the length written; a file that was only cut short has its old or its new content. The
  \<^verbatim>\<open>meta\<close> entry is the one processes saw or the last one synced. A log whose directory entry
  was not synced may be gone; if it is there, the entry may or may not be durable by now (a process
  that is killed leaves it as it was).
\<close>

definition crash_file :: "osfile \<Rightarrow> string \<Rightarrow> bool" where
  "crash_file f c \<longleftrightarrow> c = synced f \<or> c = content f
     \<or> (\<exists>w t. content f = synced f @ w \<and> c = synced f @ t \<and> length t \<le> length w)"

definition stable :: "string \<Rightarrow> osfile" where
  "stable c = \<lparr>content = c, synced = c\<rparr>"

definition crash_entry :: "osfile option \<Rightarrow> osfile option \<Rightarrow> bool" where
  "crash_entry m m' \<longleftrightarrow>
     (case m of None \<Rightarrow> m' = None | Some f \<Rightarrow> \<exists>c. crash_file f c \<and> m' = Some (stable c))"

definition power_loss :: "disk \<Rightarrow> disk \<Rightarrow> bool" where
  "power_loss d d' \<longleftrightarrow>
     (crash_entry (meta_file d) (meta_file d') \<or> crash_entry (meta_durable d) (meta_file d'))
     \<and> meta_durable d' = meta_file d'
     \<and> (crash_entry (wal_file d) (wal_file d') \<or> \<not> wal_linked d \<and> wal_file d' = None)
     \<and> (wal_linked d' \<longrightarrow> wal_file d' \<noteq> None)
     \<and> (wal_linked d \<and> wal_file d' \<noteq> None \<longrightarrow> wal_linked d')
     \<and> dir_syncs d' = dir_syncs d"

definition reopen :: "disk \<Rightarrow> Storage option" where
  "reopen d =
     (case Storage_load (replicate 7 (Ok 0)) (Storage_new d) of
        Some (Done True, s, _) \<Rightarrow> Some s
      | _ \<Rightarrow> None)"

text \<open>
  The invariant between operations: memory, descriptor and both files agree, and everything is
  durable.
\<close>

definition meta_entry :: "u64 \<Rightarrow> i32 \<Rightarrow> osfile option \<Rightarrow> bool" where
  "meta_entry trm voted m \<longleftrightarrow>
     m = Some (stable (meta_bytes trm voted)) \<or> (m = None \<and> trm = 0 \<and> voted = -1)"

definition wf_meta :: "Storage \<Rightarrow> bool" where
  "wf_meta s \<longleftrightarrow> meta_entry (s_currentTerm s) (s_votedFor s) (meta_file (sdisk s))
     \<and> meta_durable (sdisk s) = meta_file (sdisk s)"

definition wf_wal :: "Storage \<Rightarrow> bool" where
  "wf_wal s \<longleftrightarrow>
     (\<forall>e \<in> set (s_entries s). fits_record e)
     \<and> wal_file (sdisk s) = Some (stable (wal_bytes (s_entries s)))
     \<and> (s_entries s \<noteq> [] \<longrightarrow> wal_linked (sdisk s))
     \<and> walFd s = Some (length (wal_bytes (s_entries s)))
     \<and> walSize s = length (wal_bytes (s_entries s))
     \<and> s_offsets s = offsets_from 0 (s_entries s)"

definition wf_Storage :: "Storage \<Rightarrow> bool" where
  "wf_Storage s \<longleftrightarrow> wf_meta s \<and> wf_wal s"

text \<open>The log that a disk holds when it is opened again.\<close>

definition holds_log :: "LogEntry list \<Rightarrow> disk \<Rightarrow> bool" where
  "holds_log es d \<longleftrightarrow> (\<forall>e \<in> set es. fits_record e)
     \<and> (wal_file d = Some (stable (wal_bytes es)) \<and> (es \<noteq> [] \<longrightarrow> wal_linked d)
        \<or> wal_file d = None \<and> es = [] \<and> \<not> wal_linked d)"

lemma crash_stable [simp]: "crash_file (stable x) c \<longleftrightarrow> c = x"
  by (auto simp: crash_file_def stable_def)

lemma content_stable [simp]: "content (stable c) = c" "synced (stable c) = c" "stable c = stable c' \<longleftrightarrow> c = c'"
  by (simp_all add: stable_def)

lemma reopen_image:
  assumes "meta_entry trm voted (meta_file d)" "meta_durable d = meta_file d"
    and "wal_file d = Some (stable (wal_bytes es @ r)) \<and> wal_linked d = b
      \<or> wal_file d = None \<and> wal_bytes es @ r = [] \<and> \<not> b"
    and "wal_scan (wal_bytes es @ r) 0 [] [] = Some (Inr (es, offsets_from 0 es, length (wal_bytes es)))"
  shows "reopen d = Some ((put_wal (stable (wal_bytes es)) (length (wal_bytes es))
      (Storage_new (d\<lparr>wal_linked := b\<rparr>)))
    \<lparr>s_currentTerm := trm, s_votedFor := voted, s_entries := es, s_offsets := offsets_from 0 es,
     walSize := length (wal_bytes es)\<rparr>)" (is "_ = Some ?s")
proof -
  let ?start = "(Storage_new d)\<lparr>s_currentTerm := trm, s_votedFor := voted\<rparr>"
  obtain n where "load_meta (replicate 6 (Ok 0)) (Storage_new d) = (Done (Some (trm, voted)), replicate (Suc (4 + n)) (Ok 0))"
    using assms(1) that [of 0] that [of 1]
    by (auto simp: load_meta_def read_file_def Storage_new_def meta_entry_def parse_meta_bytes eval_nat_numeral)
  moreover have "open_wal ?start = (stable (wal_bytes es @ r),
      put_wal (stable (wal_bytes es @ r)) 0 (?start\<lparr>sdisk := d\<lparr>wal_linked := b\<rparr>\<rparr>))"
    using assms(3) by (cases d) (auto simp: open_wal_def put_wal_def Storage_new_def stable_def Let_def)
  ultimately have "Storage_load (replicate 7 (Ok 0)) (Storage_new d)
      = load_wal (replicate (3 + n) (Ok 0)) (wal_bytes es @ r) (stable (wal_bytes es @ r))
          (put_wal (stable (wal_bytes es @ r)) 0 (?start\<lparr>sdisk := d\<lparr>wal_linked := b\<rparr>\<rparr>))"
    by (simp add: Storage_load_def read_file_def eval_nat_numeral)
  moreover have "load_wal (replicate (3 + n) (Ok 0)) (wal_bytes es @ r) (stable (wal_bytes es @ r))
      (put_wal (stable (wal_bytes es @ r)) 0 (?start\<lparr>sdisk := d\<lparr>wal_linked := b\<rparr>\<rparr>))
      = Some (Done True, ?s, replicate (if r = [] then 2 + n else n) (Ok 0))"
    using assms(4)
    by (simp add: load_wal_def fsyncOrThrow_def file_truncate_def file_sync_def
        put_wal_def Storage_new_def eval_nat_numeral stable_def Let_def)
  ultimately show ?thesis
    by (simp add: reopen_def)
qed

lemma reopen_log:
  assumes "meta_entry trm voted (meta_file d)" "meta_durable d = meta_file d"
    and "wal_file d = Some (stable (wal_bytes es @ r))" "\<forall>e \<in> set es. fits_record e" "es \<noteq> [] \<Longrightarrow> wal_linked d"
    and "wal_scan (wal_bytes es @ r) 0 [] [] = Some (Inr (es, offsets_from 0 es, length (wal_bytes es)))"
  shows "\<exists>s. reopen d = Some s \<and> wf_Storage s \<and> s_currentTerm s = trm \<and> s_votedFor s = voted
    \<and> s_entries s = es \<and> wal_linked (sdisk s) = wal_linked d \<and> dir_syncs (sdisk s) = dir_syncs d"
  using reopen_image [OF assms(1,2) _ assms(6), of "wal_linked d"] assms(1-5)
  by (auto simp: wf_Storage_def wf_meta_def wf_wal_def put_wal_def Storage_new_def)

lemma reopen_stable:
  assumes "meta_entry trm voted (meta_file d)" "meta_durable d = meta_file d" "holds_log es d"
  shows "\<exists>s. reopen d = Some s \<and> wf_Storage s \<and> s_currentTerm s = trm \<and> s_votedFor s = voted
    \<and> s_entries s = es \<and> wal_linked (sdisk s) = wal_linked d \<and> dir_syncs (sdisk s) = dir_syncs d"
proof (cases "wal_file d")
  case None
  with assms(3) have "es = []" "\<not> wal_linked d"
    by (auto simp: holds_log_def)
  then show ?thesis
    using reopen_image [OF assms(1,2), of "[]" "[]" False] wal_scan_clean [of "[]"] assms(1,2) None
    by (auto simp: wf_Storage_def wf_meta_def wf_wal_def put_wal_def Storage_new_def)
next
  case (Some f)
  with assms show ?thesis
    using wal_scan_clean [of es] by (intro reopen_log [where r = "[]"]) (auto simp: holds_log_def)
qed

text \<open>What a power loss leaves of a log file with nothing unsynced in it.\<close>

lemma power_loss_log:
  assumes "power_loss d d'" "wal_file d = Some (stable (wal_bytes es))" "\<forall>e \<in> set es. fits_record e"
    and "es \<noteq> [] \<Longrightarrow> wal_linked d"
  shows "holds_log es d'"
  using assms by (auto simp: power_loss_def crash_entry_def holds_log_def)

text \<open>
  \<open>recognised e t\<close>: what follows the log is nothing, the complete record of \<open>e\<close>, or something at
  which the scan breaks off.
\<close>

definition recognised :: "LogEntry \<Rightarrow> string \<Rightarrow> bool" where
  "recognised e t \<longleftrightarrow> t = [] \<or> t = wal_record e \<or> wal_item t 0 = Break"



lemma recognised_damaged:
  assumes "fits_record e" "LogEntry_bytes e = x @ a @ y" "length b = length a" "length a \<le> 4" "b \<noteq> a"
  shows "recognised e (be32 (word_of_nat (12 + length (entry_command e))) @ (x @ b @ y) @ be32 (crc32 (LogEntry_bytes e)))"
proof -
  have "length (x @ b @ y) = 12 + length (entry_command e)"
    using arg_cong [OF assms(2), of length] assms(3) by simp
  then show ?thesis
    using assms crc32_burst [of b a x y]
    by (intro disjI2 [THEN disjI2] wal_item_corrupt [where r = "[]"] iffD2 [OF recognised_def]) simp_all
qed

lemma recognised_zeros: "recognised e (replicate k (char_of_byte 0))"
  by (simp add: recognised_def wal_item_zeros)



lemma power_loss_meta:
  assumes "power_loss d d'" "meta_entry trm voted (meta_file d)" "meta_durable d = meta_file d"
  shows "meta_entry trm voted (meta_file d')" "meta_durable d' = meta_file d'"
  using assms by (auto simp: power_loss_def meta_entry_def crash_entry_def)


lemma crash_shrunk:
  assumes "crash_file f c" "length (content f) \<le> length (synced f)"
  shows "c = content f \<or> c = synced f"
  using assms(1)
proof (unfold crash_file_def, elim disjE exE conjE)
  fix w t
  assume w: "content f = synced f @ w" "c = synced f @ t" "length t \<le> length w"
  with assms(2) have "w = []" by simp
  with w show ?thesis by simp
qed simp_all

lemma take_wal_bytes:
  "n \<le> length es \<Longrightarrow> take (length (wal_bytes (take n es))) (wal_bytes es) = wal_bytes (take n es)"
  using wal_bytes_simps(3) [of "take n es" "drop n es"] by simp

lemma truncateFrom_disk:
  assumes "wf_wal s" "truncateFrom os i s = (r, s', os')" "1 \<le> unat i" "unat i \<le> length (s_entries s)"
  defines "x \<equiv> wal_bytes (s_entries s)" and "y \<equiv> wal_bytes (take (unat i - 1) (s_entries s))"
  shows "\<exists>f. wal_file (sdisk s') = Some f \<and> content f \<in> {x, y} \<and> synced f \<in> {x, y}
    \<and> (content f = x \<longrightarrow> synced f = x)
    \<and> (r = Done () \<longrightarrow> content f = y \<and> synced f = y)
    \<and> meta_file (sdisk s') = meta_file (sdisk s) \<and> meta_durable (sdisk s') = meta_durable (sdisk s)
    \<and> wal_linked (sdisk s') = wal_linked (sdisk s)"
proof -
  let ?off = "s_offsets s ! (unat i - 1)"
  have off: "?off = length y"
    using assms(1,3,4) by (simp add: wf_wal_def offsets_from_nth y_def)
  have "take (length y) x = y"
    unfolding x_def y_def using assms(4) by (intro take_wal_bytes) simp
  then have y: "take ?off x = y"
    by (simp only: off)
  obtain r1 os1 where 1: "syscall os = (r1, os1)" by (cases "syscall os")
  obtain r2 os2 where 2: "syscall os1 = (r2, os2)" by (cases "syscall os1")
  obtain r3 os3 where 3: "syscall os2 = (r3, os3)" by (cases "syscall os2")
  show ?thesis
    using assms(1-4) y
    by (cases r1; cases r2; cases r3)
      (auto simp: truncateFrom_def wf_wal_def 1 2 3 fsyncOrThrow_def file_truncate_def file_sync_def
        put_wal_def Let_def x_def stable_def)
qed

lemma truncateFrom_survives:
  assumes "wf_Storage s" "1 \<le> unat i" "unat i \<le> length (s_entries s)"
    and run: "truncateFrom os i s = (r, s', os')" and "power_loss (sdisk s') d"
  shows "\<exists>t. reopen d = Some t \<and> wf_Storage t \<and> s_currentTerm t = s_currentTerm s
    \<and> s_votedFor t = s_votedFor s
    \<and> (s_entries t = take (unat i - 1) (s_entries s) \<or> s_entries t = s_entries s \<and> r \<noteq> Done ())"
proof -
  let ?x = "wal_bytes (s_entries s)" and ?y = "wal_bytes (take (unat i - 1) (s_entries s))"
  have wf: "wf_wal s" "wf_meta s" and fits: "\<forall>e \<in> set (s_entries s). fits_record e"
    using assms(1) by (auto simp: wf_Storage_def wf_wal_def)
  obtain f where f: "wal_file (sdisk s') = Some f" "content f \<in> {?x, ?y}" "synced f \<in> {?x, ?y}"
      "content f = ?x \<longrightarrow> synced f = ?x" "r = Done () \<longrightarrow> content f = ?y \<and> synced f = ?y"
    and same: "meta_file (sdisk s') = meta_file (sdisk s)" "meta_durable (sdisk s') = meta_durable (sdisk s)"
      "wal_linked (sdisk s') = wal_linked (sdisk s)"
    using truncateFrom_disk [OF wf(1) run assms(2,3)] by blast
  have meta: "meta_entry (s_currentTerm s) (s_votedFor s) (meta_file d)" "meta_durable d = meta_file d"
    using power_loss_meta [OF assms(5), of "s_currentTerm s" "s_votedFor s"] wf(2)
    by (simp_all add: wf_meta_def same)
  have "wal_linked (sdisk s)"
    using wf(1) assms(2,3) by (auto simp: wf_wal_def)
  then obtain c where c: "crash_file f c" "wal_file d = Some (stable c)" "wal_linked d"
    using assms(5) f(1) same(3) by (auto simp: power_loss_def crash_entry_def)
  have "c = ?y \<or> c = ?x \<and> r \<noteq> Done ()"
  proof -
    have "length ?y \<le> length ?x"
      using wal_bytes_simps(3) [of "take (unat i - 1) (s_entries s)" "drop (unat i - 1) (s_entries s)"]
      by (metis append_take_drop_id le_add1 length_append)
    then have "c = content f \<or> c = synced f"
      using f(2-4) by (intro crash_shrunk [OF c(1)]) auto
    with f show ?thesis by auto
  qed
  moreover have "\<forall>e \<in> set (take (unat i - 1) (s_entries s)). fits_record e"
    using fits by (auto dest: in_set_takeD)
  ultimately show ?thesis
    using reopen_stable [OF meta, of "take (unat i - 1) (s_entries s)"]
      reopen_stable [OF meta, of "s_entries s"] c(2,3) fits
    by (auto simp: holds_log_def)
qed

lemma writeAll_Done:
  assumes "writeAllOrThrow os bytes p f = (r, q, g, os')" "p = length (content f)"
  shows "\<exists>w. content g = content f @ take w bytes \<and> q = length (content g) \<and> synced g = synced f
    \<and> (r = Done () \<longrightarrow> content g = content f @ bytes)"
proof -
  obtain w where w: "write_loop os (length bytes) 0 = (r, w, os')"
      "q = p + w" "g = file_write p (take w bytes) f"
    using assms(1) by (auto simp: writeAllOrThrow_def split: prod.splits)
  then show ?thesis
    using write_loop_result [OF w(1)] assms(2) by (intro exI [of _ w]) (auto simp: file_write_def)
qed

lemma write_meta_tmp_Done:
  assumes "write_meta_tmp os payload = (Done u, f, os')"
  shows "f = stable (payload @ meta_crc payload)"
proof -
  let ?e = "\<lparr>content = [], synced = []\<rparr>"
  obtain r1 p1 f1 os1 where 1: "writeAllOrThrow os payload 0 ?e = (r1, p1, f1, os1)"
    by (cases "writeAllOrThrow os payload 0 ?e") auto
  obtain r2 p2 f2 os2 where 2: "writeAllOrThrow os1 (meta_crc payload) p1 f1 = (r2, p2, f2, os2)"
    by (cases "writeAllOrThrow os1 (meta_crc payload) p1 f1") auto
  obtain r3 os3 where 3: "syscall os2 = (r3, os3)" by (cases "syscall os2")
  have r: "r1 = Done ()" "r2 = Done ()" "f = file_sync f2"
    using assms
    by (cases r1; cases r2; cases r3;
        simp add: write_meta_tmp_def 1 2 3 fsyncOrThrow_def)+
  from writeAll_Done [OF 1] r have "content f1 = payload" "p1 = length (content f1)" by auto
  with writeAll_Done [OF 2] r have "content f2 = payload @ meta_crc payload" by auto
  with r show ?thesis
    by (simp add: file_sync_def stable_def)
qed

lemma syscall_rest: "syscall os = (r, os') \<Longrightarrow> set os' \<subseteq> set os"
  by (cases os rule: syscall.cases) auto

lemma syscall_Ok: "syscall os = (r, os') \<Longrightarrow> set os \<subseteq> range Ok \<Longrightarrow> r \<noteq> Throw x"
  by (cases os rule: syscall.cases) auto

lemma write_loop_rest: "write_loop os n w = (r, w', os') \<Longrightarrow> set os' \<subseteq> set os"
  by (induction os n w arbitrary: r w' os' rule: write_loop.induct)
    (fastforce split: if_splits outcome.splits)+

lemma writeAll_rest: "writeAllOrThrow os bytes p f = (r, q, g, os') \<Longrightarrow> set os' \<subseteq> set os"
  by (auto simp: writeAllOrThrow_def split: prod.splits dest!: write_loop_rest)

lemma write_meta_tmp_rest:
  assumes "write_meta_tmp os payload = (r, f, os')"
  shows "set os' \<subseteq> set os"
proof -
  let ?e = "\<lparr>content = [], synced = []\<rparr>"
  obtain r1 p1 f1 os1 where 1: "writeAllOrThrow os payload 0 ?e = (r1, p1, f1, os1)"
    by (cases "writeAllOrThrow os payload 0 ?e") auto
  obtain r2 p2 f2 os2 where 2: "writeAllOrThrow os1 (meta_crc payload) p1 f1 = (r2, p2, f2, os2)"
    by (cases "writeAllOrThrow os1 (meta_crc payload) p1 f1") auto
  obtain r3 os3 where 3: "syscall os2 = (r3, os3)" by (cases "syscall os2")
  have "os' = os1 \<or> os' = os2 \<or> os' = os3"
    using assms
    by (cases r1; cases r2; cases r3) (simp_all add: write_meta_tmp_def 1 2 3 fsyncOrThrow_def)
  with writeAll_rest [OF 1] writeAll_rest [OF 2] syscall_rest [OF 3] show ?thesis
    by auto
qed

lemma sync_directory_disk:
  assumes "sync_directory os d = (r, d', os')"
  shows "(d' = d \<and> (r = Done () \<longrightarrow> \<not> set os \<subseteq> range Ok))
    \<or> d' = d\<lparr>meta_durable := meta_file d, wal_linked := wal_file d \<noteq> None\<rparr>"
proof -
  obtain r1 os1 where 1: "syscall os = (r1, os1)" by (cases "syscall os")
  obtain r2 os2 where 2: "syscall os1 = (r2, os2)" by (cases "syscall os1")
  have "\<forall>x. r1 \<noteq> Throw x \<and> r2 \<noteq> Throw x" if "set os \<subseteq> range Ok"
    using syscall_rest [OF 1] syscall_Ok [OF 1] syscall_Ok [OF 2] that by blast
  with assms show ?thesis
    by (cases r1; cases r2) (auto simp: sync_directory_def 1 2)
qed

text \<open>
  After \<^verbatim>\<open>saveMeta\<close>, cut off anywhere, each of the two directory entries is the old file or the
  complete new one.
\<close>

lemma saveMeta_disk:
  assumes "saveMeta os trm voted s = (r, s', os')" "meta_durable (sdisk s) = meta_file (sdisk s)"
    and "wal_linked (sdisk s) \<longrightarrow> wal_file (sdisk s) \<noteq> None"
  defines "old \<equiv> meta_file (sdisk s)" and "new \<equiv> Some (stable (meta_bytes trm voted))"
  shows "meta_file (sdisk s') \<in> {old, new} \<and> meta_durable (sdisk s') \<in> {old, new}
    \<and> wal_file (sdisk s') = wal_file (sdisk s) \<and> (wal_linked (sdisk s') \<longrightarrow> wal_file (sdisk s) \<noteq> None)
    \<and> (wal_linked (sdisk s) \<and> wal_file (sdisk s) \<noteq> None \<longrightarrow> wal_linked (sdisk s'))
    \<and> (r = Done () \<longrightarrow> meta_file (sdisk s') = new)
    \<and> (r = Done () \<and> set os \<subseteq> range Ok \<longrightarrow> meta_durable (sdisk s') = new)"
proof -
  let ?s = "s\<lparr>s_currentTerm := trm, s_votedFor := voted\<rparr>"
  obtain r1 os1 where 1: "syscall os = (r1, os1)" by (cases "syscall os")
  obtain r2 f os2 where 2: "write_meta_tmp os1 (meta_payload trm voted) = (r2, f, os2)"
    by (cases "write_meta_tmp os1 (meta_payload trm voted)") auto
  obtain r3 os3 where 3: "syscall os2 = (r3, os3)" by (cases "syscall os2")
  let ?d = "(sdisk s)\<lparr>meta_file := Some f, meta_tmp := None\<rparr>"
  obtain r4 d4 os4 where 4: "sync_directory os3 ?d = (r4, d4, os4)"
    by (cases "sync_directory os3 ?d") auto
  show ?thesis
  proof (cases "r1 = Done () \<and> r2 = Done () \<and> r3 = Done ()")
    case True
    then have f: "Some f = new"
      using write_meta_tmp_Done [OF 2 [unfolded conjunct1 [OF conjunct2 [OF True]]]]
      by (simp add: new_def meta_bytes_def)
    have "set os3 \<subseteq> set os"
      using syscall_rest [OF 1] write_meta_tmp_rest [OF 2] syscall_rest [OF 3] by auto
    moreover have "r = r4" "s' = ?s\<lparr>sdisk := d4\<rparr>"
      using assms(1) True 4 by (simp_all add: saveMeta_def writeMetaFile_def 1 2 3)
    ultimately show ?thesis
      using sync_directory_disk [OF 4] f assms(2,3) by (auto simp: old_def)
  next
    case False
    then have "meta_file (sdisk s') = old \<and> meta_durable (sdisk s') = old \<and> r \<noteq> Done ()
        \<and> wal_file (sdisk s') = wal_file (sdisk s) \<and> wal_linked (sdisk s') = wal_linked (sdisk s)"
      using assms(1,2)
      by (cases r1; cases r2; cases r3)
        (auto simp: saveMeta_def writeMetaFile_def 1 2 3 old_def)
    with assms(3) show ?thesis by simp
  qed
qed

lemma saveMeta_survives:
  assumes "wf_Storage s" and run: "saveMeta os trm voted s = (r, s', os')" and "power_loss (sdisk s') d"
  shows "\<exists>t. reopen d = Some t \<and> wf_Storage t \<and> s_entries t = s_entries s
    \<and> ((s_currentTerm t, s_votedFor t) = (trm, voted)
       \<or> (s_currentTerm t, s_votedFor t) = (s_currentTerm s, s_votedFor s)
         \<and> \<not> (r = Done () \<and> set os \<subseteq> range Ok))"
proof -
  let ?new = "Some (stable (meta_bytes trm voted))"
  have wf: "wf_meta s" "wf_wal s"
    using assms(1) by (auto simp: wf_Storage_def)
  then have old: "meta_entry (s_currentTerm s) (s_votedFor s) (meta_file (sdisk s))"
      "meta_durable (sdisk s) = meta_file (sdisk s)"
    by (auto simp: wf_meta_def)
  have "wal_linked (sdisk s) \<longrightarrow> wal_file (sdisk s) \<noteq> None"
    using wf(2) by (simp add: wf_wal_def)
  note disk = saveMeta_disk [OF run old(2) this]
  have wal: "holds_log (s_entries s) d"
    using disk wf(2) by (intro power_loss_log [OF assms(3)]) (auto simp: wf_wal_def)
  have dur: "meta_durable d = meta_file d"
    using assms(3) by (simp add: power_loss_def)
  have "crash_entry (meta_file (sdisk s')) (meta_file d) \<or> crash_entry (meta_durable (sdisk s')) (meta_file d)"
    using assms(3) by (simp add: power_loss_def)
  then have "meta_file d = ?new \<or> meta_file d = meta_file (sdisk s) \<and> \<not> (r = Done () \<and> set os \<subseteq> range Ok)"
    using disk old(1) by (auto simp: meta_entry_def crash_entry_def)
  moreover have "meta_entry trm voted ?new"
    by (simp add: meta_entry_def)
  ultimately show ?thesis
    using reopen_stable [OF _ dur wal] old(1) by (metis (no_types))
qed


section \<open>Completed operations\<close>

text \<open>
  The storage after an operation that returns, with \<^verbatim>\<open>write\<close> taking all bytes at once. Every other run
  of \<^verbatim>\<open>append\<close> and \<^verbatim>\<open>truncateFrom\<close> that returns ends in the same state. A run of \<^verbatim>\<open>saveMeta\<close> that
  returns may have failed to open or sync the directory, which the code ignores; the environment
  decides it, save by save.
\<close>

definition append_done :: "LogEntry \<Rightarrow> Storage \<Rightarrow> Storage" where
  "append_done e s = fst (snd (Storage_append [Ok (length (wal_record e)), Ok 0] e s))"

definition truncate_done :: "u64 \<Rightarrow> Storage \<Rightarrow> Storage" where
  "truncate_done i s = fst (snd (truncateFrom [Ok 0, Ok 0, Ok 0] i s))"

definition with_syncs :: "(nat \<Rightarrow> bool) \<Rightarrow> Storage \<Rightarrow> Storage" where
  "with_syncs ds s = s\<lparr>sdisk := (sdisk s)\<lparr>dir_syncs := ds\<rparr>\<rparr>"

definition saveMeta_done :: "u64 \<Rightarrow> i32 \<Rightarrow> Storage \<Rightarrow> Storage" where
  "saveMeta_done trm voted s =
     (let ds = dir_syncs (sdisk s);
          sync = (if ds 0 then Ok 0 else Fail)
      in with_syncs (\<lambda>k. ds (Suc k))
           (fst (snd (saveMeta [Ok 0, Ok 20, Ok 4, Ok 0, Ok 0, Ok 0, sync] trm voted s))))"

lemma append_done_eq:
  assumes "wf_wal s"
  shows "append_done e s = (put_wal (stable (wal_bytes (s_entries s @ [e])))
      (length (wal_bytes (s_entries s @ [e]))) s)
    \<lparr>s_offsets := s_offsets s @ [walSize s], walSize := walSize s + length (wal_record e),
     s_entries := s_entries s @ [e]\<rparr>"
  using assms
  by (simp add: append_done_def Storage_append_def wf_wal_def writeAllOrThrow_def fsyncOrThrow_def
      file_write_def file_sync_def stable_def)

lemma Storage_append_Done:
  assumes "wf_wal s" "Storage_append os e s = (Done u, s', os')"
  shows "s' = append_done e s"
proof -
  let ?x = "wal_bytes (s_entries s)"
  obtain r1 w os1 where w: "write_loop os (length (wal_record e)) 0 = (r1, w, os1)"
    by (cases "write_loop os (length (wal_record e)) 0") auto
  have wr: "writeAllOrThrow os (wal_record e) (length ?x) (stable ?x)
      = (r1, length ?x + w, \<lparr>content = ?x @ take w (wal_record e), synced = ?x\<rparr>, os1)"
    by (simp add: writeAllOrThrow_def w file_write_def stable_def del: length_wal_record)
  have "r1 = Done ()"
    using assms wr by (cases r1) (auto simp: Storage_append_def wf_wal_def)
  then have w: "w = length (wal_record e)"
    using write_loop_result [OF w] by auto
  show ?thesis
    using assms wr \<open>r1 = Done ()\<close> unfolding append_done_eq [OF assms(1)]
    by (cases "syscall os1"; cases "fst (syscall os1)")
      (auto simp: Storage_append_def wf_wal_def fsyncOrThrow_def file_sync_def put_wal_def stable_def w
        simp del: length_wal_record)
qed

lemma truncate_done_eq:
  assumes "wf_wal s"
  shows "truncate_done i s =
    (if 1 \<le> unat i \<and> unat i \<le> length (s_entries s)
     then let es = take (unat i - 1) (s_entries s)
          in (put_wal (stable (wal_bytes es)) (length (wal_bytes es)) s)
             \<lparr>walSize := length (wal_bytes es), s_offsets := offsets_from 0 es, s_entries := es\<rparr>
     else s)"
proof -
  have "s_offsets s ! (unat i - 1) = length (wal_bytes (take (unat i - 1) (s_entries s)))"
      "take (length (wal_bytes (take (unat i - 1) (s_entries s)))) (wal_bytes (s_entries s))
       = wal_bytes (take (unat i - 1) (s_entries s))"
    if "1 \<le> unat i" "unat i \<le> length (s_entries s)"
    using assms that take_wal_bytes [of "unat i - 1" "s_entries s"]
    by (simp_all add: wf_wal_def offsets_from_nth)
  then show ?thesis
    using assms
    by (auto simp: truncate_done_def truncateFrom_def wf_wal_def fsyncOrThrow_def file_truncate_def
        file_sync_def stable_def Let_def take_offsets_from)
qed

lemma truncateFrom_Done:
  assumes "wf_wal s" "truncateFrom os i s = (Done u, s', os')"
  shows "s' = truncate_done i s"
proof -
  obtain r1 os1 where 1: "syscall os = (r1, os1)" by (cases "syscall os")
  obtain r2 os2 where 2: "syscall os1 = (r2, os2)" by (cases "syscall os1")
  obtain r3 os3 where 3: "syscall os2 = (r3, os3)" by (cases "syscall os2")
  show ?thesis
    using assms
    by (cases r1; cases r2; cases r3)
      (auto simp: truncate_done_def truncateFrom_def wf_wal_def 1 2 3 fsyncOrThrow_def Let_def split: if_splits)
qed

lemma saveMeta_done_eq:
  "saveMeta_done trm voted s =
     (let d = sdisk s; new = Some (stable (meta_bytes trm voted))
      in s\<lparr>s_currentTerm := trm, s_votedFor := voted,
           sdisk := d\<lparr>meta_tmp := None, meta_file := new,
             meta_durable := (if dir_syncs d 0 then new else meta_durable d),
             wal_linked := (if dir_syncs d 0 then wal_file d \<noteq> None else wal_linked d),
             dir_syncs := \<lambda>k. dir_syncs d (Suc k)\<rparr>\<rparr>)"
  by (simp add: saveMeta_done_def with_syncs_def saveMeta_def writeMetaFile_def write_meta_tmp_def
      writeAllOrThrow_def fsyncOrThrow_def file_write_def file_sync_def sync_directory_def meta_bytes_def
      stable_def Let_def)

text \<open>Every run of \<^verbatim>\<open>saveMeta\<close> that returns is the one with some outcome \<open>b\<close> of the directory sync.\<close>

lemma saveMeta_Done:
  assumes "saveMeta os trm voted s = (Done u, s', os')"
  shows "\<exists>b. with_syncs ds s' = saveMeta_done trm voted (with_syncs (case_nat b ds) s)"
proof -
  obtain r1 os1 where 1: "syscall os = (r1, os1)" by (cases "syscall os")
  obtain r2 f os2 where 2: "write_meta_tmp os1 (meta_payload trm voted) = (r2, f, os2)"
    by (cases "write_meta_tmp os1 (meta_payload trm voted)") auto
  obtain r3 os3 where 3: "syscall os2 = (r3, os3)" by (cases "syscall os2")
  let ?d = "(sdisk s)\<lparr>meta_file := Some f, meta_tmp := None\<rparr>"
  obtain r4 d4 os4 where 4: "sync_directory os3 ?d = (r4, d4, os4)"
    by (cases "sync_directory os3 ?d") auto
  have r: "r1 = Done ()" "r2 = Done ()" "r3 = Done ()" "s' = s\<lparr>s_currentTerm := trm, s_votedFor := voted, sdisk := d4\<rparr>"
    using assms 4
    by (cases r1; cases r2; cases r3; simp add: saveMeta_def writeMetaFile_def 1 2 3)+
  then have f: "f = stable (meta_bytes trm voted)"
    using write_meta_tmp_Done [of os1 "meta_payload trm voted" "()" f os2] 2 by (simp add: meta_bytes_def)
  from sync_directory_disk [OF 4] consider "d4 = ?d"
    | "d4 = ?d\<lparr>meta_durable := meta_file ?d, wal_linked := wal_file ?d \<noteq> None\<rparr>"
    by blast
  then show ?thesis
  proof cases
    case 1
    then show ?thesis
      by (intro exI [of _ False]) (simp add: r(4) f with_syncs_def saveMeta_done_eq Let_def)
  next
    case 2
    then show ?thesis
      by (intro exI [of _ True]) (simp add: r(4) f with_syncs_def saveMeta_done_eq Let_def)
  qed
qed

lemma wf_append_done:
  "wf_Storage s \<Longrightarrow> wal_linked (sdisk s) \<Longrightarrow> fits_record e \<Longrightarrow> wf_Storage (append_done e s)"
  by (auto simp: wf_Storage_def append_done_eq wf_wal_def wf_meta_def put_wal_def)

lemma wf_truncate_done: "wf_Storage s \<Longrightarrow> wf_Storage (truncate_done i s)"
  by (auto simp: wf_Storage_def truncate_done_eq wf_wal_def wf_meta_def put_wal_def Let_def
      dest: in_set_takeD)

lemma wf_saveMeta_done: "wf_Storage s \<Longrightarrow> dir_syncs (sdisk s) 0 \<Longrightarrow> wf_Storage (saveMeta_done trm voted s)"
  by (auto simp: wf_Storage_def saveMeta_done_eq wf_wal_def wf_meta_def meta_entry_def Let_def)

lemma saveMeta_done_view:
  "s_currentTerm (saveMeta_done trm voted s) = trm" "s_votedFor (saveMeta_done trm voted s) = voted"
  "s_entries (saveMeta_done trm voted s) = s_entries s"
  by (simp_all add: saveMeta_done_eq Let_def)

text \<open>
  A storage on which the node can rely: it is well-formed, its directory syncs will succeed, and the
  log cannot vanish any more once a term has been saved.
\<close>

definition dependable :: "Storage \<Rightarrow> bool" where
  "dependable s \<longleftrightarrow> wf_Storage s \<and> (\<forall>k. dir_syncs (sdisk s) k)
     \<and> (s_currentTerm s \<noteq> 0 \<longrightarrow> wal_linked (sdisk s))"

lemma dependable_wf: "dependable s \<Longrightarrow> wf_Storage s"
  by (simp add: dependable_def)

lemma dependable_save: "dependable s \<Longrightarrow> dependable (saveMeta_done trm voted s)"
  using wf_saveMeta_done [of s trm voted]
  by (auto simp: dependable_def saveMeta_done_eq Let_def wf_Storage_def wf_wal_def)

lemma dependable_append:
  "dependable s \<Longrightarrow> s_currentTerm s \<noteq> 0 \<Longrightarrow> fits_record e \<Longrightarrow> dependable (append_done e s)"
  using wf_append_done [of s e] by (auto simp: dependable_def append_done_eq wf_Storage_def put_wal_def)

lemma dependable_truncate: "dependable s \<Longrightarrow> dependable (truncate_done i s)"
  using wf_truncate_done [of s i] by (auto simp: dependable_def truncate_done_eq wf_Storage_def put_wal_def Let_def)

lemma append_done_view:
  assumes "wf_Storage s"
  shows "s_currentTerm (append_done e s) = s_currentTerm s" "s_votedFor (append_done e s) = s_votedFor s"
    "s_entries (append_done e s) = s_entries s @ [e]"
  using assms by (simp_all add: wf_Storage_def append_done_eq put_wal_def)

lemma truncate_done_view:
  assumes "wf_Storage s"
  shows "s_currentTerm (truncate_done i s) = s_currentTerm s" "s_votedFor (truncate_done i s) = s_votedFor s"
    "1 \<le> unat i \<Longrightarrow> s_entries (truncate_done i s) = take (unat i - 1) (s_entries s)"
  using assms by (simp_all add: wf_Storage_def truncate_done_eq put_wal_def Let_def)

section \<open>The contract with the consensus core\<close>

text \<open>
  What \<^verbatim>\<open>RaftNode\<close> relies on: a durable term, vote and log, each changed by exactly one operation.
  Entries are appended only after a term has been saved.
\<close>

locale durable_state =
  fixes term_of :: "'s \<Rightarrow> u64"
    and vote_of :: "'s \<Rightarrow> i32"
    and log_of :: "'s \<Rightarrow> LogEntry list"
    and save :: "u64 \<Rightarrow> i32 \<Rightarrow> 's \<Rightarrow> 's"
    and app :: "LogEntry \<Rightarrow> 's \<Rightarrow> 's"
    and trunc :: "u64 \<Rightarrow> 's \<Rightarrow> 's"
    and invar :: "'s \<Rightarrow> bool"
    and storable :: "LogEntry \<Rightarrow> bool"
  assumes save_view: "invar s \<Longrightarrow> term_of (save t v s) = t \<and> vote_of (save t v s) = v \<and> log_of (save t v s) = log_of s"
    and save_invar: "invar s \<Longrightarrow> invar (save t v s)"
    and app_view: "invar s \<Longrightarrow> term_of (app e s) = term_of s \<and> vote_of (app e s) = vote_of s \<and> log_of (app e s) = log_of s @ [e]"
    and app_invar: "invar s \<Longrightarrow> term_of s \<noteq> 0 \<Longrightarrow> storable e \<Longrightarrow> invar (app e s)"
    and trunc_view: "invar s \<Longrightarrow> term_of (trunc i s) = term_of s \<and> vote_of (trunc i s) = vote_of s"
    and trunc_log: "invar s \<Longrightarrow> 1 \<le> unat i \<Longrightarrow> log_of (trunc i s) = take (unat i - 1) (log_of s)"
    and trunc_invar: "invar s \<Longrightarrow> invar (trunc i s)"
begin

lemma app_all:
  assumes "invar s" "term_of s \<noteq> 0" "\<forall>e \<in> set es. storable e"
  shows "invar (fold app es s) \<and> log_of (fold app es s) = log_of s @ es
    \<and> term_of (fold app es s) = term_of s \<and> vote_of (fold app es s) = vote_of s"
  using assms
  by (induction es arbitrary: s) (simp_all add: app_view app_invar)

lemma replace_suffix:
  assumes "invar s" "term_of s \<noteq> 0" "1 \<le> unat i" "\<forall>e \<in> set es. storable e"
  shows "log_of (fold app es (trunc i s)) = take (unat i - 1) (log_of s) @ es"
  using assms by (simp add: app_all trunc_invar trunc_log trunc_view)

end

interpretation store: durable_state s_currentTerm s_votedFor s_entries saveMeta_done append_done
  truncate_done dependable fits_record
  by unfold_locales
    (simp_all add: saveMeta_done_view append_done_view truncate_done_view dependable_wf dependable_save
      dependable_append dependable_truncate)

section \<open>Recovery returns\<close>

text \<open>A record that is accepted lies in the file and moves the position forward, unless the file is huge.\<close>

lemma wal_item_Next:
  assumes "wal_item raw p = Next e p'" "length raw < 2 ^ 32 - 8" "p < length raw"
  shows "p < p' \<and> p' \<le> length raw"
proof -
  obtain len where len: "fst (Decoder_u32 (Decoder_new (drop p raw))) = Some len"
    and fits: "\<not> length raw - p < unat (4 + len + 4)" "\<not> length raw < p + 4 + unat len"
    and p': "p' = p + unat (4 + len + 4)"
    using assms(1) by (auto simp: wal_item_def Let_def split: option.splits if_splits prod.splits)
  have "unat (4 + len + 4) = unat len + 8"
    using fits(2) assms(2) by (simp add: unat_word_ariths)
  with fits p' assms(3) show ?thesis by auto
qed

lemma wal_scan_returns:
  assumes "length raw < 2 ^ 32 - 8"
  shows "\<exists>r. wal_scan raw p es offs = Some r"
proof (induction "length raw - p" arbitrary: p es offs rule: less_induct)
  case less
  show ?case
  proof (cases "p < length raw")
    case True
    show ?thesis
    proof (cases "wal_item raw p")
      case (Next e p')
      then have "\<exists>r. wal_scan raw p' (es @ [e]) (offs @ [p]) = Some r"
        using wal_item_Next [OF Next assms True] True by (intro less) auto
      with True Next show ?thesis by (subst wal_scan.simps) simp
    qed (use True in \<open>subst wal_scan.simps; simp\<close>)+
  qed (subst wal_scan.simps; simp)
qed

lemma load_wal_returns:
  assumes "length raw < 2 ^ 32 - 8"
  shows "\<exists>r. load_wal os raw f s = Some r"
  using wal_scan_returns [OF assms, of 0 "[]" "[]"]
  by (auto simp: load_wal_def Let_def split: sum.splits prod.splits io.splits)

section \<open>A new data directory\<close>

text \<open>An empty data directory in an environment in which directory syncs succeed.\<close>

definition empty_disk :: disk where
  "empty_disk = \<lparr>meta_file = None, meta_durable = None, meta_tmp = None, wal_file = None,
     wal_linked = False, dir_syncs = (\<lambda>_. True)\<rparr>"

definition fresh_Storage :: Storage where
  "fresh_Storage = (put_wal (stable []) 0 (Storage_new empty_disk))\<lparr>walSize := 0\<rparr>"

lemma wf_fresh_Storage [simp]: "wf_Storage fresh_Storage"
  by (simp add: wf_Storage_def wf_meta_def wf_wal_def fresh_Storage_def put_wal_def Storage_new_def
      empty_disk_def meta_entry_def)

lemma dependable_fresh_Storage [simp]: "dependable fresh_Storage"
  using wf_fresh_Storage
  by (simp add: dependable_def fresh_Storage_def put_wal_def Storage_new_def empty_disk_def del: wf_fresh_Storage)

lemma fresh_Storage_view [simp]:
  "s_currentTerm fresh_Storage = 0" "s_votedFor fresh_Storage = -1" "s_entries fresh_Storage = []"
  by (simp_all add: fresh_Storage_def put_wal_def Storage_new_def)

lemma reopen_empty_disk: "reopen empty_disk = Some fresh_Storage"
  using reopen_image [of 0 "-1" empty_disk "[]" "[]" False] wal_scan_clean [of "[]"]
  by (simp add: meta_entry_def empty_disk_def fresh_Storage_def Storage_new_def put_wal_def)

lemma power_loss_refl: "wf_Storage s \<Longrightarrow> power_loss (sdisk s) (sdisk s)"
  by (auto simp: wf_Storage_def wf_meta_def wf_wal_def power_loss_def crash_entry_def meta_entry_def)

lemma Storage_append_ok:
  assumes "wf_wal s"
  shows "Storage_append [Ok (length (wal_record e)), Ok 0] e s = (Done (), append_done e s, [])"
  using assms
  by (simp add: append_done_def Storage_append_def wf_wal_def writeAllOrThrow_def fsyncOrThrow_def)

lemma truncateFrom_ok:
  assumes "wf_wal s" "1 \<le> unat i" "unat i \<le> length (s_entries s)"
  shows "truncateFrom [Ok 0, Ok 0, Ok 0] i s = (Done (), truncate_done i s, [])"
  using assms
  by (simp add: truncate_done_def truncateFrom_def wf_wal_def fsyncOrThrow_def Let_def)

lemma power_loss_view:
  assumes "dependable s" "power_loss (sdisk s) d"
  shows "\<exists>t. reopen d = Some t \<and> dependable t \<and> s_currentTerm t = s_currentTerm s
    \<and> s_votedFor t = s_votedFor s \<and> s_entries t = s_entries s"
proof -
  have wf: "wf_meta s" "wf_wal s"
    using dependable_wf [OF assms(1)] by (simp_all add: wf_Storage_def)
  have meta: "meta_entry (s_currentTerm s) (s_votedFor s) (meta_file d)" "meta_durable d = meta_file d"
    using power_loss_meta [OF assms(2)] wf(1) by (auto simp: wf_meta_def)
  have wal: "holds_log (s_entries s) d"
    using wf(2) by (intro power_loss_log [OF assms(2)]) (auto simp: wf_wal_def)
  obtain t where "reopen d = Some t" "wf_Storage t" "s_currentTerm t = s_currentTerm s"
      "s_votedFor t = s_votedFor s" "s_entries t = s_entries s" "wal_linked (sdisk t) = wal_linked d"
      "dir_syncs (sdisk t) = dir_syncs d"
    using reopen_stable [OF meta wal] by blast
  moreover have "wal_linked (sdisk s) \<Longrightarrow> wal_linked d" "dir_syncs d = dir_syncs (sdisk s)"
    using assms(2) wf(2) by (auto simp: power_loss_def wf_wal_def crash_entry_def)
  ultimately show ?thesis
    using assms(1) by (auto simp: dependable_def)
qed

section \<open>Failures that the code does not report\<close>

text \<open>A power loss may bring back the \<^verbatim>\<open>meta\<close> entry that was synced last.\<close>

lemma unsynced_meta_reverts:
  assumes "wf_wal s" "meta_entry trm voted (meta_durable (sdisk s))"
  shows "\<exists>d t. power_loss (sdisk s) d \<and> reopen d = Some t \<and> wf_Storage t \<and> s_currentTerm t = trm
    \<and> s_votedFor t = voted \<and> s_entries t = s_entries s"
proof -
  let ?d = "(sdisk s)\<lparr>meta_file := meta_durable (sdisk s)\<rparr>"
  have loss: "power_loss (sdisk s) ?d"
    using assms by (auto simp: power_loss_def crash_entry_def meta_entry_def wf_wal_def)
  have "holds_log (s_entries s) ?d"
    using assms(1) by (intro power_loss_log [OF loss]) (auto simp: wf_wal_def)
  then obtain t where "reopen ?d = Some t" "wf_Storage t" "s_currentTerm t = trm" "s_votedFor t = voted"
      "s_entries t = s_entries s"
    using reopen_stable [of trm voted ?d] assms(2) by auto
  with loss show ?thesis by blast
qed

text \<open>
  A \<^verbatim>\<open>saveMeta\<close> whose directory sync fails returns all the same, and a power loss can then bring back
  the term and vote from before it.
\<close>

lemma saveMeta_unsynced:
  assumes "wf_Storage s" "\<not> dir_syncs (sdisk s) 0"
  shows "wf_wal (saveMeta_done trm voted s)"
    "meta_durable (sdisk (saveMeta_done trm voted s)) = meta_durable (sdisk s)"
    "dir_syncs (sdisk (saveMeta_done trm voted s)) k = dir_syncs (sdisk s) (Suc k)"
  using assms by (simp_all add: saveMeta_done_eq Let_def wf_Storage_def wf_wal_def)

text \<open>
  An entry appended to a log whose file was created by this process and whose directory has not been
  synced since can be lost with the file.
\<close>

lemma append_unlinked_lost:
  assumes "wf_Storage s" "\<not> wal_linked (sdisk s)"
  shows "\<exists>d t. power_loss (sdisk (append_done e s)) d \<and> reopen d = Some t \<and> s_entries t = []"
proof -
  let ?d = "(sdisk s)\<lparr>wal_file := None\<rparr>"
  have wf: "wf_meta s" "wf_wal s"
    using assms(1) by (simp_all add: wf_Storage_def)
  have "power_loss (sdisk (append_done e s)) ?d"
    using assms(2) wf(1)
    by (auto simp: append_done_eq [OF wf(2)] put_wal_def power_loss_def crash_entry_def wf_meta_def meta_entry_def)
  moreover have "\<exists>t. reopen ?d = Some t \<and> s_entries t = []"
    using reopen_stable [of "s_currentTerm s" "s_votedFor s" ?d "[]"] wf(1) assms(2)
    by (auto simp: wf_meta_def holds_log_def)
  ultimately show ?thesis by blast
qed

text \<open>
  If the stream on the log cannot be opened, \<^verbatim>\<open>load\<close> reports success with an empty log and the
  descriptor at the start of the file, so that the next \<^verbatim>\<open>append\<close> overwrites it.
\<close>

lemma load_unreadable_wal:
  assumes "wf_Storage s" "meta_file (sdisk s) \<noteq> None"
  shows "\<exists>t. Storage_load [Ok 0, Ok 0, Ok 0, Fail, Ok 0] (Storage_new (sdisk s)) = Some (Done True, t, [])
    \<and> s_entries t = [] \<and> walFd t = Some 0 \<and> wal_file (sdisk t) = wal_file (sdisk s)"
proof -
  have "wal_scan [] 0 [] [] = Some (Inr ([], [], 0))"
    by (subst wal_scan.simps) simp
  then show ?thesis
    using assms
    by (auto simp: wf_Storage_def wf_meta_def meta_entry_def wf_wal_def Storage_load_def load_meta_def
        read_file_def parse_meta_bytes open_wal_def load_wal_def Storage_new_def put_wal_def Let_def)
qed

section \<open>The wrap-around in the length test\<close>

lemma wal_item_wraps:
  assumes "2 ^ 32 - 8 \<le> unat len" "unat len < 2 ^ 32 - 4 + length x" "length x < unat len"
  shows "wal_item (pre @ be32 len @ x) (length pre) = Raise Out_of_range"
proof -
  have "unat (4 + len + 4) = unat len + 8 - 2 ^ 32"
    using assms(1) unat_u32_less [of len] by (simp add: unat_word_ariths le_mod_geq del: unat_u32_less)
  with assms fst_Decoder_u32_be32 [OF refl, of len x] show ?thesis
    by (simp add: wal_item_def)
qed

lemma wal_scan_wraps:
  assumes "\<forall>e \<in> set es. fits_record e"
    and "2 ^ 32 - 8 \<le> unat len" "unat len < 2 ^ 32 - 4 + length x" "length x < unat len"
  shows "wal_scan (wal_bytes es @ be32 len @ x) 0 [] [] = Some (Inl Out_of_range)"
proof -
  let ?raw = "wal_bytes es @ be32 len @ x"
  have "wal_scan ?raw 0 [] [] = wal_scan ?raw (length (wal_bytes es)) es (offsets_from 0 es)"
    using wal_scan_records [of ?raw "[]" es "be32 len @ x" "[]" "[]"] assms(1) by simp
  also have "\<dots> = Some (Inl Out_of_range)"
    using wal_item_wraps [OF assms(2-4), of "wal_bytes es"] by (subst wal_scan.simps) simp
  finally show ?thesis .
qed

section \<open>What the storage guarantees\<close>

text \<open>The storage of a node that has saved its first vote.\<close>

definition voted_Storage :: Storage where
  "voted_Storage = saveMeta_done 1 0 fresh_Storage"

lemma voted_Storage_facts:
  "wf_Storage voted_Storage" "wal_linked (sdisk voted_Storage)" "s_entries voted_Storage = []"
  "s_currentTerm voted_Storage = 1" "s_votedFor voted_Storage = 0"
  "wal_file (sdisk voted_Storage) = Some (stable [])"
proof -
  have d: "dependable voted_Storage" "s_currentTerm voted_Storage = 1"
    by (simp_all add: voted_Storage_def dependable_save saveMeta_done_view)
  then show w: "wf_Storage voted_Storage" "wal_linked (sdisk voted_Storage)"
    by (simp_all add: dependable_def)
  show e: "s_entries voted_Storage = []" "s_currentTerm voted_Storage = 1" "s_votedFor voted_Storage = 0"
    by (simp_all add: voted_Storage_def saveMeta_done_view)
  show "wal_file (sdisk voted_Storage) = Some (stable [])"
    using w(1) e(1) by (simp add: wf_Storage_def wf_wal_def)
qed



text \<open>
  C18: \<^verbatim>\<open>truncateFrom\<close> is atomic and durable in the same sense: after any run of it and any power loss
  \<^verbatim>\<open>load\<close> recovers either the whole log or the log cut before the index, and the latter if it had
  returned.
\<close>

theorem truncateFrom_crash_atomic:
  assumes "wf_Storage s" "1 \<le> unat i" "unat i \<le> length (s_entries s)"
    and "truncateFrom os i s = (r, s', os')" "power_loss (sdisk s') d"
  shows "\<exists>t. reopen d = Some t \<and> wf_Storage t \<and> s_currentTerm t = s_currentTerm s
    \<and> s_votedFor t = s_votedFor s
    \<and> (s_entries t = take (unat i - 1) (s_entries s) \<or> s_entries t = s_entries s \<and> r \<noteq> Done ())"
  using assms by (rule truncateFrom_survives)

theorem truncateFrom_crash_atomic_witness:
  "\<exists>t. reopen (sdisk (truncate_done 1 (append_done \<lparr>entry_term = 1, entry_command = ''a''\<rparr> voted_Storage)))
       = Some t \<and> s_entries t = []"
proof -
  let ?e = "\<lparr>entry_term = 1, entry_command = ''a''\<rparr>"
  let ?s = "append_done ?e voted_Storage"
  have wf: "wf_Storage ?s"
    using voted_Storage_facts(1,2) by (intro wf_append_done) (simp_all add: fits_record_def)
  have log: "s_entries ?s = [?e]"
    using voted_Storage_facts(1,3) by (simp add: append_done_view)
  have run: "truncateFrom [Ok 0, Ok 0, Ok 0] 1 ?s = (Done (), truncate_done 1 ?s, [])"
    using wf by (intro truncateFrom_ok) (simp_all add: wf_Storage_def log)
  show ?thesis
    using truncateFrom_crash_atomic [OF wf _ _ run power_loss_refl [OF wf_truncate_done [OF wf]]] log
    by auto
qed

text \<open>
  C19: \<^verbatim>\<open>saveMeta\<close> is atomic: after any run of it and any power loss \<^verbatim>\<open>load\<close> recovers the log unchanged
  and the old or the new pair of term and vote, never a mixture or a damaged file. It is the
  new pair if \<^verbatim>\<open>saveMeta\<close> returned and no system call failed or was interrupted.
\<close>

theorem saveMeta_crash_atomic:
  assumes "wf_Storage s" "saveMeta os trm voted s = (r, s', os')" "power_loss (sdisk s') d"
  shows "\<exists>t. reopen d = Some t \<and> wf_Storage t \<and> s_entries t = s_entries s
    \<and> ((s_currentTerm t, s_votedFor t) = (trm, voted)
       \<or> (s_currentTerm t, s_votedFor t) = (s_currentTerm s, s_votedFor s)
         \<and> \<not> (r = Done () \<and> set os \<subseteq> range Ok))"
  using assms by (rule saveMeta_survives)

theorem saveMeta_crash_atomic_witness:
  "\<exists>s' t. saveMeta [Ok 0, Ok 7, Ok 13, Ok 4, Ok 0, Ok 0, Ok 0, Ok 0] 3 2 voted_Storage = (Done (), s', [])
    \<and> power_loss (sdisk s') (sdisk s') \<and> reopen (sdisk s') = Some t
    \<and> s_currentTerm t = 3 \<and> s_votedFor t = 2 \<and> s_entries t = []"
proof -
  let ?os = "[Ok 0, Ok 7, Ok 13, Ok 4, Ok 0, Ok 0, Ok 0, Ok 0]"
  note v = voted_Storage_facts
  obtain s' where run: "saveMeta ?os 3 2 voted_Storage = (Done (), s', [])"
    by (simp add: saveMeta_def writeMetaFile_def write_meta_tmp_def writeAllOrThrow_def fsyncOrThrow_def
        sync_directory_def)
  have "wal_linked (sdisk voted_Storage) \<longrightarrow> wal_file (sdisk voted_Storage) \<noteq> None"
    using v(6) by simp
  from saveMeta_disk [OF run _ this] v(1,2,6) have "power_loss (sdisk s') (sdisk s')"
    by (auto simp: wf_Storage_def wf_meta_def power_loss_def crash_entry_def)
  with saveMeta_crash_atomic [OF v(1) run this] run v(3) show ?thesis
    by auto
qed

text \<open>
  C20: Recovery keeps every intact record in front of a torn one: if the log file ends in a proper
  prefix of a record, the scan returns exactly the entries before it and the offset at which the file
  is to be cut.
\<close>

theorem wal_scan_drops_torn_tail:
  assumes "\<forall>e \<in> set es. fits_record e" "fits_record e" "k < length (wal_record e)"
  shows "wal_scan (wal_bytes es @ take k (wal_record e)) 0 [] []
    = Some (Inr (es, offsets_from 0 es, length (wal_bytes es)))"
  using assms by (rule wal_scan_torn)

theorem wal_scan_drops_torn_tail_witness:
  "wal_scan (wal_bytes [\<lparr>entry_term = 1, entry_command = ''a''\<rparr>]
      @ take 7 (wal_record \<lparr>entry_term = 2, entry_command = ''bc''\<rparr>)) 0 [] []
    = Some (Inr ([\<lparr>entry_term = 1, entry_command = ''a''\<rparr>], [0], 21))"
  using wal_scan_drops_torn_tail [of "[\<lparr>entry_term = 1, entry_command = ''a''\<rparr>]"
      "\<lparr>entry_term = 2, entry_command = ''bc''\<rparr>" 7]
  by (simp add: fits_record_def)

text \<open>
  C21: Recovery stops at a damaged record: if at most four consecutive bytes of the payload of a record
  have been overwritten, the scan returns exactly the entries before that record, whatever follows it.
\<close>

theorem wal_scan_stops_at_damage:
  assumes "\<forall>e \<in> set es. fits_record e" "fits_record e"
    and "LogEntry_bytes e = x @ a @ y" "length b = length a" "length a \<le> 4" "b \<noteq> a"
  shows "wal_scan (wal_bytes es @ be32 (word_of_nat (length (LogEntry_bytes e))) @ (x @ b @ y)
      @ be32 (crc32 (LogEntry_bytes e)) @ r) 0 [] []
    = Some (Inr (es, offsets_from 0 es, length (wal_bytes es)))"
  using assms crc32_burst [of b a x y] by (intro wal_scan_corrupt) (simp_all del: length_LogEntry_bytes)

theorem wal_scan_stops_at_damage_witness:
  "wal_scan (wal_bytes [] @ be32 14 @ (be64 1 @ lstr ''xb'')
      @ be32 (crc32 (LogEntry_bytes \<lparr>entry_term = 1, entry_command = ''ab''\<rparr>)) @ ''rest'') 0 [] []
    = Some (Inr ([], [], 0))"
  using wal_scan_stops_at_damage [of "[]" "\<lparr>entry_term = 1, entry_command = ''ab''\<rparr>"
      "be64 1 @ be32 2" "''a''" "''b''" "''x''" "''rest''"]
  by (simp add: fits_record_def LogEntry_bytes_def lstr_def)

text \<open>
  C22: Recovery of a log file of less than \<^verbatim>\<open>2^32 - 8\<close> bytes always returns, whatever bytes it holds: every accepted
  record moves the position forward.
\<close>

theorem wal_scan_terminates:
  assumes "length raw < 2 ^ 32 - 8"
  shows "\<exists>r. wal_scan raw 0 [] [] = Some r"
  using assms by (rule wal_scan_returns)

theorem wal_scan_terminates_witness: "\<exists>r. wal_scan (replicate 100 (char_of_byte 255)) 0 [] [] = Some r"
  using wal_scan_terminates [of "replicate 100 (char_of_byte 255)"] by simp

text \<open>
  C23: Recovery can throw: behind any intact log, four bytes that read as a length of at least
  \<^verbatim>\<open>2^32 - 8\<close> pass the length test, whose sum \<^verbatim>\<open>4 + *len + 4\<close> wraps around in 32 bits, if the tail
  is no shorter than the wrapped sum and shorter than the length it claims; \<^verbatim>\<open>substr\<close> then throws
  \<^verbatim>\<open>std::out_of_range\<close> instead of the tail being discarded.
\<close>

theorem wal_scan_length_wraps:
  assumes "\<forall>e \<in> set es. fits_record e"
    and "2 ^ 32 - 8 \<le> unat len" "unat len < 2 ^ 32 - 4 + length x" "length x < unat len"
  shows "wal_scan (wal_bytes es @ be32 len @ x) 0 [] [] = Some (Inl Out_of_range)"
  using assms by (rule wal_scan_wraps)

theorem wal_scan_length_wraps_witness:
  "wal_scan (wal_bytes [\<lparr>entry_term = 1, entry_command = ''a''\<rparr>] @ be32 0xFFFFFFF8 @ ''abc'') 0 [] []
    = Some (Inl Out_of_range)"
  using wal_scan_length_wraps [of "[\<lparr>entry_term = 1, entry_command = ''a''\<rparr>]" "0xFFFFFFF8" "''abc''"]
  by (simp add: fits_record_def)

text \<open>
  \<^verbatim>\<open>writeAllOrThrow\<close> returns: it retries interrupted calls and goes on behind short writes, and as
  soon as there have been as many writes that made progress as there are bytes, it has written
  every byte at the end of the file.
\<close>

theorem writeAllOrThrow_completes:
  assumes "\<forall>oc \<in> set os. oc = Eintr \<or> (\<exists>k. oc = Ok (Suc k))"
    and "length bytes \<le> length (filter (\<lambda>oc. oc \<noteq> Eintr) os)"
  shows "\<exists>os'. writeAllOrThrow os bytes (length (content f)) f
    = (Done (), length (content f) + length bytes, f\<lparr>content := content f @ bytes\<rparr>, os')"
proof -
  obtain os' where "write_loop os (length bytes) 0 = (Done (), length bytes, os')"
    using write_loop_progress [OF assms(1), of "length bytes" 0] assms(2) by auto
  then show ?thesis
    by (simp add: writeAllOrThrow_def file_write_def)
qed

theorem writeAllOrThrow_completes_witness:
  "\<exists>os'. writeAllOrThrow [Ok 1, Eintr, Ok 1, Ok 5] ''abc'' 0 (stable []) = (Done (), 3, \<lparr>content = ''abc'', synced = []\<rparr>, os')"
  using writeAllOrThrow_completes [of "[Ok 1, Eintr, Ok 1, Ok 5]" "''abc''" "stable []"]
  by (simp add: stable_def numeral_3_eq_3)

end
