(* ===== verification/Raft.thy ===== *)
theory Raft
  imports RaftMsgs Storage
begin

text \<open>
  The consensus core (\<^verbatim>\<open>include/dkvs/raft.hpp\<close>, \<^verbatim>\<open>src/raft.cpp\<close>): the state of a \<^verbatim>\<open>RaftNode\<close> and one
  definition per method and per critical section of its threads. All of this code runs with
  \<^verbatim>\<open>mutex_\<close> held, so each definition is one atomic step; what a step starts (vote senders,
  replicators) is returned as a list. A clock argument holds the time \<^verbatim>\<open>steady_clock::now()\<close> and the
  delay drawn from \<^verbatim>\<open>rng_\<close>. Calls of \<^verbatim>\<open>storage_\<close> are the completed operations of the
  storage theory: an I/O error is an exception no caller catches, which ends the process (a crash of
  the node, see the cluster theory), except for a failed directory sync in \<^verbatim>\<open>saveMeta\<close>, which the code
  ignores and which the environment of the disk decides.
\<close>

section \<open>State\<close>

datatype Role = Follower | Candidate | Leader

record RaftConfig =
  heartbeatInterval :: int
  electionTimeoutMin :: int
  electionTimeoutMax :: int
  tickInterval :: int

record RaftNode =
  node_id :: u32
  clusterSize :: u32
  storage :: Storage
  config :: RaftConfig
  role :: Role
  currentTerm :: u64
  votedFor :: i32
  rlog :: "LogEntry list"
  commitIndex :: u64
  lastApplied :: u64
  leaderHint :: i32
  votesReceived :: u32
  nextIndex :: "u64 list"
  matchIndex :: "u64 list"
  electionDeadline :: int
  stopping :: bool

record clock =
  now :: int
  drawn :: int

datatype thread = VoteSender u32 RequestVoteArgs | Replicator u32 u64

record SubmitResult =
  sr_isLeader :: bool
  sr_leaderHint :: i32
  sr_index :: u64
  sr_term :: u64

record RaftStatus =
  rs_role :: Role
  rs_term :: u64
  rs_leaderHint :: i32
  rs_commitIndex :: u64
  rs_lastApplied :: u64
  rs_lastLogIndex :: u64

definition kMaxBatch :: u64 where
  "kMaxBatch = 100"

fun roleName :: "Role \<Rightarrow> string" where
  "roleName Follower = ''follower''"
| "roleName Candidate = ''candidate''"
| "roleName Leader = ''leader''"

definition RaftNode_new :: "u32 \<Rightarrow> u32 \<Rightarrow> Storage \<Rightarrow> RaftConfig \<Rightarrow> RaftNode" where
  "RaftNode_new i sz s cfg =
     \<lparr>node_id = i, clusterSize = sz, storage = s, config = cfg, role = Follower,
      currentTerm = s_currentTerm s, votedFor = s_votedFor s,
      rlog = \<lparr>entry_term = 0, entry_command = []\<rparr> # s_entries s,
      commitIndex = 0, lastApplied = 0, leaderHint = -1, votesReceived = 0,
      nextIndex = replicate (unat sz) 1, matchIndex = replicate (unat sz) 0,
      electionDeadline = 0, stopping = False\<rparr>"

section \<open>Helpers\<close>

definition lastLogIndex :: "RaftNode \<Rightarrow> u64" where
  "lastLogIndex n = word_of_nat (length (rlog n)) - 1"

definition lastLogTerm :: "RaftNode \<Rightarrow> u64" where
  "lastLogTerm n = entry_term (last (rlog n))"

definition majority :: "RaftNode \<Rightarrow> u32" where
  "majority n = clusterSize n div 2 + 1"

definition peers :: "RaftNode \<Rightarrow> u32 list" where
  "peers n = filter (\<lambda>p. p \<noteq> node_id n) (map word_of_nat [0..<unat (clusterSize n)])"

definition resetElectionDeadline :: "clock \<Rightarrow> RaftNode \<Rightarrow> RaftNode" where
  "resetElectionDeadline ck n = n\<lparr>electionDeadline := now ck + drawn ck\<rparr>"

definition start :: "clock \<Rightarrow> RaftNode \<Rightarrow> RaftNode" where
  "start ck n = resetElectionDeadline ck n"

definition stop :: "RaftNode \<Rightarrow> RaftNode" where
  "stop n = n\<lparr>stopping := True\<rparr>"

definition becomeFollower :: "clock \<Rightarrow> u64 \<Rightarrow> RaftNode \<Rightarrow> RaftNode" where
  "becomeFollower ck trm n =
     (let termChanged = trm > currentTerm n;
          n = (if termChanged then
                 let n = n\<lparr>currentTerm := trm, votedFor := -1\<rparr>;
                     n = n\<lparr>storage := saveMeta_done (currentTerm n) (votedFor n) (storage n)\<rparr>;
                     n = n\<lparr>leaderHint := -1\<rparr>
                 in resetElectionDeadline ck n
               else n)
      in if role n \<noteq> Follower then n\<lparr>role := Follower\<rparr> else n)"

text \<open>\<^verbatim>\<open>log_.push_back(e); storage_.append(e);\<close>\<close>

definition push_entry :: "LogEntry \<Rightarrow> RaftNode \<Rightarrow> RaftNode" where
  "push_entry e n = n\<lparr>rlog := rlog n @ [e], storage := append_done e (storage n)\<rparr>"

definition replicas :: "RaftNode \<Rightarrow> u64 \<Rightarrow> u32" where
  "replicas nd n = word_of_nat (length (filter (\<lambda>p. matchIndex nd ! p \<ge> n) [0..<unat (clusterSize nd)]))"

function commit_scan :: "RaftNode \<Rightarrow> u64 \<Rightarrow> u64" where
  "commit_scan nd n =
     (if n > commitIndex nd then
        if entry_term (rlog nd ! unat n) \<noteq> currentTerm nd then commitIndex nd
        else if replicas nd n \<ge> majority nd then n
        else commit_scan nd (n - 1)
      else commitIndex nd)"
  by pat_completeness auto
termination
  by (relation "measure (\<lambda>(nd, n). unat n)") (auto intro: unat_pred_less)

declare commit_scan.simps [simp del]

definition advanceCommit :: "RaftNode \<Rightarrow> RaftNode" where
  "advanceCommit n =
     (if role n \<noteq> Leader then n else n\<lparr>commitIndex := commit_scan n (lastLogIndex n)\<rparr>)"

definition becomeLeader :: "RaftNode \<Rightarrow> RaftNode \<times> thread list" where
  "becomeLeader n =
     (let n = n\<lparr>role := Leader, leaderHint := node_id n\<rparr>;
          n = n\<lparr>nextIndex := replicate (length (nextIndex n)) (lastLogIndex n + 1)\<rparr>;
          n = n\<lparr>matchIndex := replicate (length (matchIndex n)) 0\<rparr>;
          noop = \<lparr>entry_term = currentTerm n, entry_command = []\<rparr>;
          n = push_entry noop n;
          n = n\<lparr>matchIndex := (matchIndex n)[unat (node_id n) := lastLogIndex n]\<rparr>;
          n = advanceCommit n
      in (n, map (\<lambda>p. Replicator p (currentTerm n)) (peers n)))"

definition startElection :: "clock \<Rightarrow> RaftNode \<Rightarrow> RaftNode \<times> thread list" where
  "startElection ck n =
     (let n = n\<lparr>role := Candidate, currentTerm := currentTerm n + 1, votedFor := node_id n\<rparr>;
          n = n\<lparr>storage := saveMeta_done (currentTerm n) (votedFor n) (storage n)\<rparr>;
          n = n\<lparr>leaderHint := -1, votesReceived := 1\<rparr>;
          n = resetElectionDeadline ck n
      in if votesReceived n \<ge> majority n then becomeLeader n
         else
           let args = \<lparr>rv_term = currentTerm n, rv_candidateId = node_id n,
                       rv_lastLogIndex = lastLogIndex n, rv_lastLogTerm = lastLogTerm n\<rparr>
           in (n, map (\<lambda>p. VoteSender p args) (peers n)))"

section \<open>Threads\<close>

text \<open>A round of \<^verbatim>\<open>tickerLoop\<close>.\<close>

definition tickerLoop :: "clock \<Rightarrow> RaftNode \<Rightarrow> RaftNode \<times> thread list" where
  "tickerLoop ck n =
     (if stopping n then (n, [])
      else if role n \<noteq> Leader \<and> now ck \<ge> electionDeadline n then startElection ck n
      else (n, []))"

text \<open>The rest of a vote sender, once \<^verbatim>\<open>transport_.requestVote\<close> has returned.\<close>

definition voteSender ::
    "clock \<Rightarrow> RequestVoteArgs \<Rightarrow> RequestVoteReply option \<Rightarrow> RaftNode \<Rightarrow> RaftNode \<times> thread list" where
  "voteSender ck args reply n =
     (case reply of
        None \<Rightarrow> (n, [])
      | Some reply \<Rightarrow>
          if stopping n then (n, [])
          else if rvr_term reply > currentTerm n then (becomeFollower ck (rvr_term reply) n, [])
          else if role n \<noteq> Candidate \<or> currentTerm n \<noteq> rv_term args \<or> \<not> rvr_voteGranted reply then (n, [])
          else
            let n = n\<lparr>votesReceived := votesReceived n + 1\<rparr>
            in if votesReceived n \<ge> majority n then becomeLeader n else (n, []))"

text \<open>
  \<^verbatim>\<open>applierLoop\<close>: the entry it fetches under the lock, and what it records after \<^verbatim>\<open>applyFn_\<close>. The
  outer loop tests \<^verbatim>\<open>stopping_\<close>; the inner loop (\<open>inner\<close>), entered again after each entry, does not.
\<close>

definition applier_fetch :: "bool \<Rightarrow> RaftNode \<Rightarrow> (u64 \<times> LogEntry) option" where
  "applier_fetch inner n =
     (if \<not> inner \<and> stopping n then None
      else if lastApplied n < commitIndex n
      then let idx = lastApplied n + 1 in Some (idx, rlog n ! unat idx)
      else None)"

definition applier_done :: "u64 \<Rightarrow> RaftNode \<Rightarrow> RaftNode" where
  "applier_done idx n = n\<lparr>lastApplied := idx\<rparr>"

text \<open>\<^verbatim>\<open>replicatorLoop\<close>: the frame it sends (\<^term>\<open>None\<close> when the loop ends), and the rest of the round.\<close>

definition replicator_send :: "u32 \<Rightarrow> u64 \<Rightarrow> RaftNode \<Rightarrow> AppendEntriesArgs option" where
  "replicator_send peer leaderTerm n =
     (if stopping n \<or> role n \<noteq> Leader \<or> currentTerm n \<noteq> leaderTerm then None
      else
        let next = nextIndex n ! unat peer
        in Some \<lparr>ae_term = leaderTerm, ae_leaderId = node_id n, ae_prevLogIndex = next - 1,
                 ae_prevLogTerm = entry_term (rlog n ! unat (next - 1)),
                 ae_leaderCommit = commitIndex n,
                 ae_entries = take (unat kMaxBatch) (drop (unat next) (rlog n))\<rparr>)"

definition replicator_reply ::
    "clock \<Rightarrow> u32 \<Rightarrow> u64 \<Rightarrow> AppendEntriesArgs \<Rightarrow> AppendEntriesReply option \<Rightarrow> RaftNode \<Rightarrow> RaftNode" where
  "replicator_reply ck peer leaderTerm args reply n =
     (if stopping n \<or> role n \<noteq> Leader \<or> currentTerm n \<noteq> leaderTerm then n
      else case reply of
        None \<Rightarrow> n
      | Some reply \<Rightarrow>
          if aer_term reply > currentTerm n then becomeFollower ck (aer_term reply) n
          else if aer_term reply = currentTerm n then
            if aer_success reply then
              let newMatch = ae_prevLogIndex args + word_of_nat (length (ae_entries args));
                  n = n\<lparr>matchIndex := (matchIndex n)[unat peer := max (matchIndex n ! unat peer) newMatch]\<rparr>;
                  n = n\<lparr>nextIndex := (nextIndex n)[unat peer := matchIndex n ! unat peer + 1]\<rparr>
              in advanceCommit n
            else
              let hint = max (aer_conflictIndex reply) 1
              in n\<lparr>nextIndex := (nextIndex n)[unat peer := min hint (lastLogIndex n + 1)]\<rparr>
          else n)"

section \<open>Client and peer requests\<close>

definition submit :: "string \<Rightarrow> RaftNode \<Rightarrow> SubmitResult \<times> RaftNode" where
  "submit command n =
     (if stopping n \<or> role n \<noteq> Leader then
        (\<lparr>sr_isLeader = False, sr_leaderHint = leaderHint n, sr_index = 0, sr_term = 0\<rparr>, n)
      else
        let entry = \<lparr>entry_term = currentTerm n, entry_command = command\<rparr>;
            n = push_entry entry n;
            n = n\<lparr>matchIndex := (matchIndex n)[unat (node_id n) := lastLogIndex n]\<rparr>;
            n = advanceCommit n
        in (\<lparr>sr_isLeader = True, sr_leaderHint = node_id n, sr_index = lastLogIndex n,
             sr_term = currentTerm n\<rparr>, n))"

definition onRequestVote :: "clock \<Rightarrow> RequestVoteArgs \<Rightarrow> RaftNode \<Rightarrow> RequestVoteReply \<times> RaftNode" where
  "onRequestVote ck args n =
     (if rv_term args < currentTerm n then (\<lparr>rvr_term = currentTerm n, rvr_voteGranted = False\<rparr>, n)
      else
        let n = (if rv_term args > currentTerm n then becomeFollower ck (rv_term args) n else n);
            logOk = (rv_lastLogTerm args > lastLogTerm n \<or>
                     (rv_lastLogTerm args = lastLogTerm n \<and> rv_lastLogIndex args \<ge> lastLogIndex n));
            canVote = (votedFor n = -1 \<or> votedFor n = rv_candidateId args)
        in if logOk \<and> canVote then
             let n = n\<lparr>votedFor := rv_candidateId args\<rparr>;
                 n = n\<lparr>storage := saveMeta_done (currentTerm n) (votedFor n) (storage n)\<rparr>;
                 n = resetElectionDeadline ck n
             in (\<lparr>rvr_term = currentTerm n, rvr_voteGranted = True\<rparr>, n)
           else (\<lparr>rvr_term = currentTerm n, rvr_voteGranted = False\<rparr>, n))"

text \<open>The backward walk to the first entry of the conflicting term.\<close>

function conflict_walk :: "LogEntry list \<Rightarrow> u64 \<Rightarrow> u64 \<Rightarrow> u64" where
  "conflict_walk l conflictTerm ci =
     (if ci > 1 \<and> entry_term (l ! unat (ci - 1)) = conflictTerm
      then conflict_walk l conflictTerm (ci - 1) else ci)"
  by pat_completeness auto
termination
  by (relation "measure (\<lambda>(l, t, ci). unat ci)") (auto intro: unat_pred_less)

declare conflict_walk.simps [simp del]

text \<open>
  The first loop of \<^verbatim>\<open>onAppendEntries\<close>: entries that match are skipped; at the first divergence the
  log is cut; the entries still to append are returned.
\<close>

fun merge_scan :: "RaftNode \<Rightarrow> u64 \<Rightarrow> LogEntry list \<Rightarrow> RaftNode \<times> LogEntry list" where
  "merge_scan n p [] = (n, [])"
| "merge_scan n p (e # es) =
     (if p > lastLogIndex n then (n, e # es)
      else if entry_term (rlog n ! unat p) \<noteq> entry_term e then
        (n\<lparr>storage := truncate_done p (storage n), rlog := take (unat p) (rlog n)\<rparr>, e # es)
      else merge_scan n (p + 1) es)"

definition onAppendEntries ::
    "clock \<Rightarrow> AppendEntriesArgs \<Rightarrow> RaftNode \<Rightarrow> AppendEntriesReply \<times> RaftNode" where
  "onAppendEntries ck args n =
     (if ae_term args < currentTerm n then
        (\<lparr>aer_term = currentTerm n, aer_success = False, aer_conflictIndex = 0\<rparr>, n)
      else
        let n = (if ae_term args > currentTerm n \<or> role n \<noteq> Follower
                 then becomeFollower ck (ae_term args) n else n);
            n = n\<lparr>leaderHint := ae_leaderId args\<rparr>;
            n = resetElectionDeadline ck n
        in if ae_prevLogIndex args > lastLogIndex n then
             (\<lparr>aer_term = currentTerm n, aer_success = False, aer_conflictIndex = lastLogIndex n + 1\<rparr>, n)
           else if entry_term (rlog n ! unat (ae_prevLogIndex args)) \<noteq> ae_prevLogTerm args then
             let conflictTerm = entry_term (rlog n ! unat (ae_prevLogIndex args))
             in (\<lparr>aer_term = currentTerm n, aer_success = False,
                  aer_conflictIndex = conflict_walk (rlog n) conflictTerm (ae_prevLogIndex args)\<rparr>, n)
           else
             let (n, es) = merge_scan n (ae_prevLogIndex args + 1) (ae_entries args);
                 n = fold push_entry es n;
                 n = (if ae_leaderCommit args > commitIndex n
                      then n\<lparr>commitIndex := min (ae_leaderCommit args) (lastLogIndex n)\<rparr> else n)
             in (\<lparr>aer_term = currentTerm n, aer_success = True, aer_conflictIndex = 0\<rparr>, n))"

definition status :: "RaftNode \<Rightarrow> RaftStatus" where
  "status n = \<lparr>rs_role = role n, rs_term = currentTerm n, rs_leaderHint = leaderHint n,
     rs_commitIndex = commitIndex n, rs_lastApplied = lastApplied n, rs_lastLogIndex = lastLogIndex n\<rparr>"

lemmas [raft_defs] = resetElectionDeadline_def becomeFollower_def push_entry_def becomeLeader_def
  startElection_def tickerLoop_def voteSender_def replicator_reply_def submit_def onRequestVote_def
  onAppendEntries_def advanceCommit_def applier_done_def start_def stop_def

end
