(* ===== verification/RaftSpec.thy ===== *)
theory RaftSpec
  imports Command
begin

text \<open>
  The protocol that \<^verbatim>\<open>RaftNode\<close> implements, without messages, timers and threads: an abstract
  specification whose state is the term and log of every node together with the history that the
  safety argument speaks about: the ballots cast, the leader elected in each term (with its log at
  the election and its voters), the ledger of each term (the log of its leader), and the
  acknowledgements given. The theorems: at most one leader per term, logs that agree on the
  term of an entry agree up to it, and the log of every later leader contains every entry that a
  quorum has acknowledged in its term.
\<close>

section \<open>Quorums\<close>

definition quorum :: "nat \<Rightarrow> nat set \<Rightarrow> bool" where
  "quorum N Q \<longleftrightarrow> Q \<subseteq> {..<N} \<and> N div 2 + 1 \<le> card Q"

locale quorum_system =
  fixes is_quorum :: "nat set \<Rightarrow> bool"
  assumes meet: "is_quorum Q \<Longrightarrow> is_quorum Q' \<Longrightarrow> Q \<inter> Q' \<noteq> {}"
begin

lemma common_voter:
  assumes "is_quorum Q" "is_quorum Q'"
  obtains p where "p \<in> Q" "p \<in> Q'"
  using meet [OF assms] by auto

lemma one_winner:
  assumes "is_quorum Q" "is_quorum Q'" "\<And>p. p \<in> Q \<Longrightarrow> voted p a" "\<And>p. p \<in> Q' \<Longrightarrow> voted p b"
    and "\<And>p c d. voted p c \<Longrightarrow> voted p d \<Longrightarrow> c = d"
  shows "a = b"
proof -
  obtain p where "p \<in> Q" "p \<in> Q'"
    using assms(1,2) by (rule common_voter)
  then have "voted p a" "voted p b"
    using assms(3,4) by auto
  then show ?thesis
    by (rule assms(5))
qed

end

lemma quorum_meet:
  assumes "quorum N Q" "quorum N Q'"
  shows "Q \<inter> Q' \<noteq> {}"
proof
  assume "Q \<inter> Q' = {}"
  have sub: "Q \<union> Q' \<subseteq> {..<N}"
    using assms by (simp add: quorum_def)
  then have fin: "finite Q" "finite Q'"
    using finite_subset [OF sub] by simp_all
  have "card Q + card Q' = card (Q \<union> Q')"
    using fin \<open>Q \<inter> Q' = {}\<close> by (simp add: card_Un_disjoint)
  also have "\<dots> \<le> N"
    using card_mono [OF _ sub] by simp
  finally have "card Q + card Q' \<le> N" .
  moreover have "N div 2 + 1 \<le> card Q" "N div 2 + 1 \<le> card Q'"
    using assms by (simp_all add: quorum_def)
  moreover have "N < 2 * (N div 2 + 1)"
    by simp
  ultimately show False
    by linarith
qed

interpretation majority: quorum_system "quorum N" for N
  by unfold_locales (rule quorum_meet)

section \<open>Logs\<close>

abbreviation sentinel :: LogEntry where
  "sentinel \<equiv> \<lparr>entry_term = 0, entry_command = []\<rparr>"

definition last_term :: "LogEntry list \<Rightarrow> u64" where
  "last_term l = entry_term (last l)"

definition up_to_date :: "LogEntry list \<Rightarrow> LogEntry list \<Rightarrow> bool" where
  "up_to_date l l' \<longleftrightarrow>
     last_term l > last_term l' \<or> last_term l = last_term l' \<and> length l' \<le> length l"

text \<open>Two logs have an entry at index \<open>n\<close> and agree up to it.\<close>

definition same_upto :: "nat \<Rightarrow> 'a list \<Rightarrow> 'a list \<Rightarrow> bool" where
  "same_upto n l l' \<longleftrightarrow> n < length l \<and> n < length l' \<and> take (Suc n) l = take (Suc n) l'"

text \<open>What a follower's log becomes when it accepts the ledger \<open>l'\<close> up to index \<open>n\<close>.\<close>

definition adopt :: "nat \<Rightarrow> LogEntry list \<Rightarrow> LogEntry list \<Rightarrow> LogEntry list" where
  "adopt n l l' =
     (if n < length l \<and> (\<forall>i \<le> n. entry_term (l ! i) = entry_term (l' ! i)) then l else take (Suc n) l')"

lemma same_upto_sym: "same_upto n l l' \<Longrightarrow> same_upto n l' l"
  by (simp add: same_upto_def)

lemma same_upto_refl: "n < length l \<Longrightarrow> same_upto n l l"
  by (simp add: same_upto_def)

lemma same_upto_trans: "same_upto n l l' \<Longrightarrow> same_upto n l' l'' \<Longrightarrow> same_upto n l l''"
  by (simp add: same_upto_def)

lemma same_upto_le:
  assumes "same_upto n l l'" "m \<le> n"
  shows "same_upto m l l'"
proof -
  have cut: "take (Suc m) x = take (Suc m) (take (Suc n) x)" for x :: "'a list"
    using assms(2) by (simp add: min_absorb1)
  have "take (Suc m) l = take (Suc m) l'"
    using assms(1) cut [of l] cut [of l'] by (simp only: same_upto_def)
  with assms show ?thesis
    by (simp add: same_upto_def)
qed

lemma same_upto_nth:
  assumes "same_upto n l l'" "m \<le> n"
  shows "l ! m = l' ! m"
proof -
  have "take (Suc n) l ! m = take (Suc n) l' ! m"
    using assms(1) by (simp add: same_upto_def)
  with assms(2) show ?thesis
    by simp
qed

lemma same_upto_append: "same_upto n l l' \<Longrightarrow> same_upto n (l @ x) (l' @ y)"
  by (simp add: same_upto_def)

lemma same_upto_append_iff:
  "n < length l' \<Longrightarrow> same_upto n l (l' @ y) \<longleftrightarrow> same_upto n l l'"
  "n < length l \<Longrightarrow> same_upto n (l @ x) l' \<longleftrightarrow> same_upto n l l'"
  by (simp_all add: same_upto_def)

lemma same_upto_take: "n < k \<Longrightarrow> n < length l \<Longrightarrow> same_upto n (take k l) l"
  by (simp add: same_upto_def min_absorb1)

section \<open>The protocol\<close>

record spec =
  sp_term :: "nat \<Rightarrow> u64"
  sp_log :: "nat \<Rightarrow> LogEntry list"
  sp_lead :: "nat \<Rightarrow> bool"
  sp_ballots :: "(u64 \<times> nat \<times> nat \<times> LogEntry list) set"
  sp_elected :: "u64 \<Rightarrow> (nat \<times> LogEntry list \<times> nat set) option"
  sp_ledger :: "u64 \<Rightarrow> LogEntry list"
  sp_acks :: "(u64 \<times> nat \<times> nat) set"

text \<open>
  A ballot is a term, the voter, the candidate and the voter's log; an acknowledgement is a term, a
  node and the index up to which the node holds the ledger of the term.
\<close>

definition spec_init :: "spec \<Rightarrow> bool" where
  "spec_init s \<longleftrightarrow> (\<forall>p. sp_log s p = [sentinel] \<and> \<not> sp_lead s p)
     \<and> sp_ballots s = {} \<and> sp_elected s = Map.empty \<and> sp_acks s = {}"

definition supported :: "nat \<Rightarrow> spec \<Rightarrow> nat \<Rightarrow> nat set \<Rightarrow> bool" where
  "supported N s i Q \<longleftrightarrow> quorum N Q
     \<and> (\<forall>p \<in> Q. \<exists>l. (sp_term s i, p, i, l) \<in> sp_ballots s \<and> up_to_date (sp_log s i) l)"

definition put_log :: "nat \<Rightarrow> LogEntry list \<Rightarrow> spec \<Rightarrow> spec" where
  "put_log p l s = s\<lparr>sp_log := (sp_log s)(p := l)\<rparr>"

definition do_raise :: "nat \<Rightarrow> u64 \<Rightarrow> spec \<Rightarrow> spec" where
  "do_raise p t s = s\<lparr>sp_term := (sp_term s)(p := t), sp_lead := (sp_lead s)(p := False)\<rparr>"

definition do_vote :: "nat \<Rightarrow> nat \<Rightarrow> spec \<Rightarrow> spec" where
  "do_vote p c s = s\<lparr>sp_ballots := insert (sp_term s p, p, c, sp_log s p) (sp_ballots s)\<rparr>"

definition do_elect :: "nat \<Rightarrow> nat set \<Rightarrow> LogEntry \<Rightarrow> spec \<Rightarrow> spec" where
  "do_elect i Q e s =
     (let t = sp_term s i; l = sp_log s i in
      (put_log i (l @ [e]) s)\<lparr>sp_lead := (sp_lead s)(i := True),
         sp_elected := (sp_elected s)(t \<mapsto> (i, l, Q)), sp_ledger := (sp_ledger s)(t := l @ [e])\<rparr>)"

definition do_append :: "nat \<Rightarrow> LogEntry \<Rightarrow> spec \<Rightarrow> spec" where
  "do_append i e s =
     (let t = sp_term s i; l = sp_log s i @ [e]
      in (put_log i l s)\<lparr>sp_ledger := (sp_ledger s)(t := l)\<rparr>)"

definition do_ack :: "nat \<Rightarrow> nat \<Rightarrow> spec \<Rightarrow> spec" where
  "do_ack p n s = s\<lparr>sp_acks := sp_acks s \<union> {(sp_term s p, p, k) | k. k \<le> n}\<rparr>"

definition do_accept :: "nat \<Rightarrow> nat \<Rightarrow> spec \<Rightarrow> spec" where
  "do_accept p n s =
     do_ack p n (put_log p (adopt n (sp_log s p) (sp_ledger s (sp_term s p))) s)"

inductive spec_step :: "nat \<Rightarrow> spec \<Rightarrow> spec \<Rightarrow> bool" for N :: nat where
  Raise: "p < N \<Longrightarrow> sp_term s p \<le> t \<Longrightarrow> spec_step N s (do_raise p t s)"
| Vote: "p < N \<Longrightarrow> c < N \<Longrightarrow> \<forall>c' l. (sp_term s p, p, c', l) \<in> sp_ballots s \<longrightarrow> c' = c
    \<Longrightarrow> spec_step N s (do_vote p c s)"
| Elect: "i < N \<Longrightarrow> 0 < sp_term s i \<Longrightarrow> supported N s i Q
    \<Longrightarrow> \<forall>b Q'. sp_elected s (sp_term s i) \<noteq> Some (i, b, Q') \<Longrightarrow> entry_term e = sp_term s i
    \<Longrightarrow> spec_step N s (do_elect i Q e s)"
| Append: "i < N \<Longrightarrow> sp_lead s i \<Longrightarrow> entry_term e = sp_term s i \<Longrightarrow> spec_step N s (do_append i e s)"
| Self: "i < N \<Longrightarrow> sp_lead s i \<Longrightarrow> n < length (sp_log s i) \<Longrightarrow> spec_step N s (do_ack i n s)"
| Accept: "p < N \<Longrightarrow> sp_elected s (sp_term s p) = Some (j, b, Q) \<Longrightarrow> j \<noteq> p
    \<Longrightarrow> prev < length (sp_log s p) \<Longrightarrow> prev \<le> n \<Longrightarrow> n < length (sp_ledger s (sp_term s p))
    \<Longrightarrow> entry_term (sp_log s p ! prev) = entry_term (sp_ledger s (sp_term s p) ! prev)
    \<Longrightarrow> spec_step N s (do_accept p n s)"
| Cut: "p < N \<Longrightarrow> sp_elected s (sp_term s p) = Some (j, b, Q) \<Longrightarrow> j \<noteq> p \<Longrightarrow> 0 < k
    \<Longrightarrow> k < length (sp_log s p) \<Longrightarrow> k < length (sp_ledger s (sp_term s p))
    \<Longrightarrow> entry_term (sp_log s p ! k) \<noteq> entry_term (sp_ledger s (sp_term s p) ! k)
    \<Longrightarrow> spec_step N s (put_log p (take k (sp_log s p)) s)"

inductive spec_reach :: "nat \<Rightarrow> spec \<Rightarrow> bool" for N :: nat where
  init: "spec_init s \<Longrightarrow> spec_reach N s"
| step: "spec_reach N s \<Longrightarrow> spec_step N s s' \<Longrightarrow> spec_reach N s'"

lemmas spec_ops = do_raise_def do_vote_def do_elect_def do_append_def do_ack_def do_accept_def
  put_log_def Let_def

section \<open>The invariant\<close>

text \<open>Every entry of a log stands in the ledger of its term, and the log agrees with it up to there.\<close>

definition good_log :: "spec \<Rightarrow> LogEntry list \<Rightarrow> bool" where
  "good_log s l \<longleftrightarrow> l \<noteq> [] \<and> hd l = sentinel
     \<and> (\<forall>k. 0 < k \<longrightarrow> k < length l \<longrightarrow> sp_elected s (entry_term (l ! k)) \<noteq> None
          \<and> same_upto k l (sp_ledger s (entry_term (l ! k))))"

text \<open>The leader of \<open>u\<close> was elected with a log that does not hold the ledger of \<open>t\<close> up to \<open>n\<close>.\<close>

definition lacks :: "spec \<Rightarrow> u64 \<Rightarrow> u64 \<Rightarrow> nat \<Rightarrow> bool" where
  "lacks s u t n \<longleftrightarrow> (\<exists>j b Q. sp_elected s u = Some (j, b, Q) \<and> \<not> same_upto n b (sp_ledger s t))"

text \<open>
  A log \<open>l\<close> of node \<open>p\<close> holds what \<open>p\<close> has acknowledged in earlier terms, unless a leader elected
  in between (in a term that satisfies \<open>R\<close>) lacked it.
\<close>

definition keeps :: "spec \<Rightarrow> nat \<Rightarrow> LogEntry list \<Rightarrow> (u64 \<Rightarrow> bool) \<Rightarrow> u64 \<Rightarrow> bool" where
  "keeps s p l R t \<longleftrightarrow>
     (\<forall>n. (t, p, n) \<in> sp_acks s \<longrightarrow> entry_term (sp_ledger s t ! n) = t \<longrightarrow>
        same_upto n l (sp_ledger s t) \<or> (\<exists>u. t < u \<and> R u \<and> lacks s u t n))"

definition inv_logs :: "nat \<Rightarrow> spec \<Rightarrow> bool" where
  "inv_logs N s \<longleftrightarrow> (\<forall>p<N. good_log s (sp_log s p) \<and> (\<forall>e \<in> set (sp_log s p). entry_term e \<le> sp_term s p))"

definition inv_leads :: "nat \<Rightarrow> spec \<Rightarrow> bool" where
  "inv_leads N s \<longleftrightarrow> (\<forall>p<N. sp_lead s p \<longrightarrow> sp_ledger s (sp_term s p) = sp_log s p
     \<and> (\<exists>b Q. sp_elected s (sp_term s p) = Some (p, b, Q)))"

definition inv_ballots :: "nat \<Rightarrow> spec \<Rightarrow> bool" where
  "inv_ballots N s \<longleftrightarrow> (\<forall>t p c l. (t, p, c, l) \<in> sp_ballots s \<longrightarrow> p < N \<and> c < N \<and> t \<le> sp_term s p
     \<and> good_log s l \<and> (\<forall>u<t. keeps s p l (\<lambda>v. v \<le> t) u)
     \<and> (\<forall>c' l'. (t, p, c', l') \<in> sp_ballots s \<longrightarrow> c' = c))"

definition inv_elected :: "nat \<Rightarrow> spec \<Rightarrow> bool" where
  "inv_elected N s \<longleftrightarrow> (\<forall>t j b Q. sp_elected s t = Some (j, b, Q) \<longrightarrow>
     0 < t \<and> j < N \<and> quorum N Q \<and> t \<le> sp_term s j \<and> good_log s b \<and> (\<forall>e \<in> set b. entry_term e < t)
     \<and> (\<exists>x. x \<noteq> [] \<and> sp_ledger s t = b @ x \<and> (\<forall>e \<in> set x. entry_term e = t))
     \<and> (\<forall>p \<in> Q. \<exists>l. (t, p, j, l) \<in> sp_ballots s \<and> up_to_date b l \<and> (\<forall>u<t. keeps s p l (\<lambda>v. v < t) u)))"

definition inv_acks :: "nat \<Rightarrow> spec \<Rightarrow> bool" where
  "inv_acks N s \<longleftrightarrow> (\<forall>t p n. (t, p, n) \<in> sp_acks s \<longrightarrow> p < N \<and> sp_elected s t \<noteq> None \<and> n < length (sp_ledger s t)
     \<and> t \<le> sp_term s p \<and> keeps s p (sp_log s p) (\<lambda>v. v \<le> sp_term s p) t)"

definition spec_inv :: "nat \<Rightarrow> spec \<Rightarrow> bool" where
  "spec_inv N s \<longleftrightarrow> inv_logs N s \<and> inv_leads N s \<and> inv_ballots N s \<and> inv_elected N s \<and> inv_acks N s"

section \<open>What the invariant implies\<close>

lemma elected_basic:
  assumes "inv_elected N s" "sp_elected s t = Some (j, b, Q)"
  shows "0 < t" "j < N" "quorum N Q" "t \<le> sp_term s j" "good_log s b" "\<forall>e \<in> set b. entry_term e < t"
  using assms unfolding inv_elected_def by simp_all

lemma elected_ledger:
  assumes "inv_elected N s" "sp_elected s t = Some (j, b, Q)"
  obtains x where "x \<noteq> []" "sp_ledger s t = b @ x" "\<forall>e \<in> set x. entry_term e = t"
  using assms unfolding inv_elected_def by blast

lemma elected_voter:
  assumes "inv_elected N s" "sp_elected s t = Some (j, b, Q)" "p \<in> Q"
  obtains l where "(t, p, j, l) \<in> sp_ballots s" "up_to_date b l" "\<forall>u<t. keeps s p l (\<lambda>v. v < t) u"
  using assms unfolding inv_elected_def by blast

lemma ballot_basic:
  assumes "inv_ballots N s" "(t, p, c, l) \<in> sp_ballots s"
  shows "p < N" "c < N" "t \<le> sp_term s p" "good_log s l" "u < t \<Longrightarrow> keeps s p l (\<lambda>v. v \<le> t) u"
    "(t, p, c', l') \<in> sp_ballots s \<Longrightarrow> c' = c"
  using assms unfolding inv_ballots_def by blast+

lemma good_log_0: "good_log s l \<Longrightarrow> l ! 0 = sentinel \<and> 0 < length l"
  by (auto simp: good_log_def hd_conv_nth)

lemma good_last:
  assumes "good_log s l" "last_term l = t" "0 < t"
  shows "sp_elected s t \<noteq> None" "same_upto (length l - 1) l (sp_ledger s t)"
proof -
  have l: "l ! (length l - 1) = last l" "length l - 1 < length l"
    using assms(1) by (auto simp: good_log_def last_conv_nth)
  have "last l \<noteq> sentinel"
    using assms(2,3) by (auto simp: last_term_def)
  with good_log_0 [OF assms(1)] l(1) have "length l - 1 \<noteq> 0"
    by metis
  with assms(1) l have "sp_elected s (entry_term (last l)) \<noteq> None
      \<and> same_upto (length l - 1) l (sp_ledger s (entry_term (last l)))"
    unfolding good_log_def by (metis neq0_conv)
  with assms(2) show "sp_elected s t \<noteq> None" "same_upto (length l - 1) l (sp_ledger s t)"
    by (simp_all add: last_term_def)
qed

lemma logs_match:
  assumes "good_log s l" "good_log s l'" "k < length l" "k < length l'"
    and "entry_term (l ! k) = entry_term (l' ! k)"
  shows "same_upto k l l'"
proof (cases "k = 0")
  case True
  then show ?thesis
    using good_log_0 [OF assms(1)] good_log_0 [OF assms(2)] by (simp add: same_upto_def take_Suc_conv_app_nth)
next
  case False
  then have "same_upto k l (sp_ledger s (entry_term (l ! k)))" "same_upto k l' (sp_ledger s (entry_term (l' ! k)))"
    using assms(1-4) by (simp_all add: good_log_def)
  then show ?thesis
    unfolding assms(5) by (rule same_upto_trans [OF _ same_upto_sym])
qed

lemma good_prefix:
  assumes "good_log s l" "0 < k"
  shows "good_log s (take k l)"
  unfolding good_log_def
proof (intro conjI allI impI)
  show "take k l \<noteq> []" "hd (take k l) = sentinel"
    using assms by (auto simp: good_log_def)
  fix i
  assume i: "0 < i" "i < length (take k l)"
  then have l: "sp_elected s (entry_term (l ! i)) \<noteq> None" "same_upto i l (sp_ledger s (entry_term (l ! i)))"
    using assms(1) by (auto simp: good_log_def)
  show "sp_elected s (entry_term (take k l ! i)) \<noteq> None"
    using i l(1) by simp
  show "same_upto i (take k l) (sp_ledger s (entry_term (take k l ! i)))"
    using i same_upto_trans [OF same_upto_take l(2)] by simp
qed

lemma ledger_term:
  assumes "inv_elected N s" "sp_elected s t \<noteq> None" "k < length (sp_ledger s t)"
  shows "entry_term (sp_ledger s t ! k) \<le> t"
proof -
  obtain j b Q where el: "sp_elected s t = Some (j, b, Q)"
    using assms(2) by auto
  obtain x where "x \<noteq> []" "sp_ledger s t = b @ x" "\<forall>e \<in> set x. entry_term e = t"
    using assms(1) el by (rule elected_ledger)
  with elected_basic(6) [OF assms(1) el] have "\<forall>e \<in> set (sp_ledger s t). entry_term e \<le> t"
    by auto
  with assms(3) show ?thesis by auto
qed

lemma good_ledger:
  assumes "inv_elected N s" "sp_elected s t \<noteq> None"
  shows "good_log s (sp_ledger s t)"
proof -
  obtain j b Q where el: "sp_elected s t = Some (j, b, Q)"
    using assms(2) by auto
  obtain x where "x \<noteq> []" and led: "sp_ledger s t = b @ x" and x: "\<forall>e \<in> set x. entry_term e = t"
    using assms(1) el by (rule elected_ledger)
  have b: "good_log s b"
    using assms(1) el by (rule elected_basic)
  have "same_upto k (b @ x) (sp_ledger s (entry_term ((b @ x) ! k))) \<and> sp_elected s (entry_term ((b @ x) ! k)) \<noteq> None"
    if "0 < k" "k < length (b @ x)" for k
  proof (cases "k < length b")
    case True
    with that b show ?thesis by (simp add: good_log_def nth_append same_upto_append_iff)
  next
    case False
    then have "entry_term ((b @ x) ! k) = t"
      using x that(2) by (simp add: nth_append)
    with that el led show ?thesis by (simp add: same_upto_refl)
  qed
  with b show ?thesis
    unfolding led by (auto simp: good_log_def)
qed

lemma log_terms_sorted:
  assumes "inv_elected N s" "good_log s l" "i \<le> k" "k < length l"
  shows "entry_term (l ! i) \<le> entry_term (l ! k)"
proof (cases "k = 0")
  case False
  let ?t = "entry_term (l ! k)"
  have el: "sp_elected s ?t \<noteq> None" and same: "same_upto k l (sp_ledger s ?t)"
    using assms(2,4) False by (simp_all add: good_log_def)
  have "l ! i = sp_ledger s ?t ! i"
    using same assms(3) by (rule same_upto_nth)
  with ledger_term [OF assms(1) el, of i] assms(3) same show ?thesis
    by (auto simp: same_upto_def)
qed (use assms in simp)

section \<open>Leader completeness\<close>

text \<open>An entry of the leader's own term that a quorum has acknowledged.\<close>

definition committed :: "nat \<Rightarrow> spec \<Rightarrow> u64 \<Rightarrow> nat \<Rightarrow> bool" where
  "committed N s t n \<longleftrightarrow> entry_term (sp_ledger s t ! n) = t
     \<and> (\<exists>Q. quorum N Q \<and> (\<forall>p \<in> Q. (t, p, n) \<in> sp_acks s))"

lemma committed_elected:
  assumes "inv_acks N s" "committed N s t n"
  shows "sp_elected s t \<noteq> None" "n < length (sp_ledger s t)"
proof -
  obtain Q where Q: "quorum N Q" "\<forall>p \<in> Q. (t, p, n) \<in> sp_acks s"
    using assms(2) by (auto simp: committed_def)
  then obtain p where "(t, p, n) \<in> sp_acks s"
    by (meson majority.common_voter)
  with assms(1) show "sp_elected s t \<noteq> None" "n < length (sp_ledger s t)"
    by (auto simp: inv_acks_def)
qed

text \<open>If the leader of \<open>u\<close> holds the prefix, so does every log that ends in an entry of term \<open>u\<close>.\<close>

lemma last_term_holds:
  assumes "inv_elected N s" "good_log s b" "last_term b = u" "sp_elected s u = Some (j, c, Q)"
    and "same_upto n c l"
  shows "same_upto n b l"
proof -
  let ?k = "length b - 1"
  have k: "?k < length b" "b ! ?k = last b"
    using assms(2) by (auto simp: good_log_def last_conv_nth)
  have pos: "0 < u" and low: "\<forall>e \<in> set c. entry_term e < u"
    using elected_basic [OF assms(1,4)] by simp_all
  have b: "same_upto ?k b (sp_ledger s u)"
    using assms(2,3) pos by (rule good_last)
  obtain x where led: "sp_ledger s u = c @ x"
    using elected_ledger [OF assms(1,4)] by blast
  have "\<not> ?k < length c"
    using same_upto_nth [OF b order_refl] low k assms(3) led
    by (metis last_term_def less_irrefl nth_append nth_mem)
  moreover have "n < length c"
    using assms(5) by (simp add: same_upto_def)
  ultimately have "same_upto n b (sp_ledger s u)"
    by (intro same_upto_le [OF b]) simp
  moreover have "same_upto n (sp_ledger s u) l"
    using assms(5) \<open>n < length c\<close> by (simp add: led same_upto_append_iff)
  ultimately show ?thesis
    by (rule same_upto_trans)
qed

lemma leader_complete:
  assumes "spec_inv N s" "committed N s t n"
  shows "sp_elected s u = Some (j, b, Q) \<Longrightarrow> t < u \<Longrightarrow> same_upto n b (sp_ledger s t)"
proof (induction u arbitrary: j b Q rule: less_induct)
  case (less u)
  have inv: "inv_elected N s" "inv_acks N s" "inv_ballots N s"
    using assms(1) by (simp_all add: spec_inv_def)
  obtain Qc where Qc: "quorum N Qc" "\<forall>p \<in> Qc. (t, p, n) \<in> sp_acks s" and own: "entry_term (sp_ledger s t ! n) = t"
    using assms(2) by (auto simp: committed_def)
  obtain p where p: "p \<in> Qc" "p \<in> Q"
    using Qc(1) elected_basic(3) [OF inv(1) less.prems(1)] by (rule majority.common_voter)
  obtain l where l: "(u, p, j, l) \<in> sp_ballots s" "up_to_date b l" "\<forall>v<u. keeps s p l (\<lambda>w. w < u) v"
    using inv(1) less.prems(1) p(2) by (rule elected_voter)
  have good: "good_log s b" "good_log s l"
    using elected_basic(5) [OF inv(1) less.prems(1)] ballot_basic(4) [OF inv(3) l(1)] by simp_all
  have "\<not> lacks s v t n" if "t < v" "v < u" for v
    using less.IH that by (auto simp: lacks_def)
  then have holds: "same_upto n l (sp_ledger s t)"
    using l(3) p(1) Qc(2) own less.prems(2) unfolding keeps_def by blast
  then have n: "n < length l" "entry_term (l ! n) = t"
    using own same_upto_nth [OF holds order_refl] by (simp_all add: same_upto_def)
  have lastl: "last_term l = entry_term (l ! (length l - 1))"
    using good(2) by (auto simp: good_log_def last_term_def last_conv_nth)
  have "t \<le> last_term l"
    using log_terms_sorted [OF inv(1) good(2), of n "length l - 1"] n by (simp add: lastl)
  moreover have "last_term l \<le> last_term b"
    using l(2) by (auto simp: up_to_date_def)
  ultimately consider "t < last_term b" | "last_term b = t" "last_term l = t" "length l \<le> length b"
    using l(2) by (force simp: up_to_date_def)
  then show ?case
  proof cases
    case 1
    then have "0 < last_term b"
      by (rule le_less_trans [OF word_zero_le])
    then obtain i c Q' where el: "sp_elected s (last_term b) = Some (i, c, Q')"
      using good_last(1) [OF good(1) refl] by auto
    have "last_term b < u"
      using elected_basic(6) [OF inv(1) less.prems(1)] good(1) by (simp add: good_log_def last_term_def)
    then have "same_upto n c (sp_ledger s t)"
      using less.IH el 1 by blast
    then show ?thesis
      by (rule last_term_holds [OF inv(1) good(1) refl el])
  next
    case 2
    have "0 < t"
      using committed_elected(1) [OF inv(2) assms(2)] elected_basic(1) [OF inv(1)] by auto
    with good(1) 2(1) have "same_upto (length b - 1) b (sp_ledger s t)"
      by (rule good_last)
    then show ?thesis
      using 2(3) n(1) by (elim same_upto_le) simp
  qed
qed

section \<open>History only grows\<close>

definition ext :: "spec \<Rightarrow> spec \<Rightarrow> bool" where
  "ext s s' \<longleftrightarrow>
     (\<forall>t x. sp_elected s t = Some x \<longrightarrow> sp_elected s' t = Some x
        \<and> (\<exists>y. sp_ledger s' t = sp_ledger s t @ y \<and> (\<forall>e \<in> set y. entry_term e = t)))
     \<and> (\<forall>p. sp_term s p \<le> sp_term s' p) \<and> sp_ballots s \<subseteq> sp_ballots s' \<and> sp_acks s \<subseteq> sp_acks s'"

lemma ext_refl [simp]: "ext s s"
  by (simp add: ext_def)

lemma ext_trans:
  assumes "ext s s'" "ext s' s''"
  shows "ext s s''"
proof -
  have "sp_elected s'' t = Some x \<and> (\<exists>y. sp_ledger s'' t = sp_ledger s t @ y \<and> (\<forall>e \<in> set y. entry_term e = t))"
    if "sp_elected s t = Some x" for t x
  proof -
    have 1: "sp_elected s' t = Some x" "\<exists>y. sp_ledger s' t = sp_ledger s t @ y \<and> (\<forall>e \<in> set y. entry_term e = t)"
      using assms(1) that unfolding ext_def by blast+
    have "sp_elected s'' t = Some x" "\<exists>z. sp_ledger s'' t = sp_ledger s' t @ z \<and> (\<forall>e \<in> set z. entry_term e = t)"
      using assms(2) 1(1) unfolding ext_def by blast+
    with 1(2) show ?thesis by auto
  qed
  moreover have "sp_term s p \<le> sp_term s'' p" for p
    using assms unfolding ext_def by (meson order_trans)
  ultimately show ?thesis
    using assms unfolding ext_def by blast
qed

lemma ext_elected: "ext s s' \<Longrightarrow> sp_elected s t \<noteq> None \<Longrightarrow> sp_elected s' t = sp_elected s t"
  by (auto simp: ext_def)

lemma ext_ledger:
  assumes "ext s s'" "sp_elected s t \<noteq> None"
  obtains y where "sp_ledger s' t = sp_ledger s t @ y" "\<forall>e \<in> set y. entry_term e = t"
  using assms unfolding ext_def not_None_eq by blast

lemma ext_same_upto:
  assumes "ext s s'" "sp_elected s t \<noteq> None" "n < length (sp_ledger s t)"
  shows "same_upto n l (sp_ledger s' t) \<longleftrightarrow> same_upto n l (sp_ledger s t)"
    "sp_ledger s' t ! n = sp_ledger s t ! n" "n < length (sp_ledger s' t)"
proof -
  obtain y where "sp_ledger s' t = sp_ledger s t @ y" "\<forall>e \<in> set y. entry_term e = t"
    using assms(1,2) by (rule ext_ledger)
  with assms(3) show "same_upto n l (sp_ledger s' t) \<longleftrightarrow> same_upto n l (sp_ledger s t)"
    "sp_ledger s' t ! n = sp_ledger s t ! n" "n < length (sp_ledger s' t)"
    by (simp_all add: same_upto_append_iff nth_append)
qed

lemma good_log_ext:
  assumes "ext s s'" "good_log s l"
  shows "good_log s' l"
  unfolding good_log_def
proof (intro conjI allI impI)
  show "l \<noteq> []" "hd l = sentinel"
    using assms(2) by (auto simp: good_log_def)
  fix k
  assume k: "0 < k" "k < length l"
  let ?t = "entry_term (l ! k)"
  have l: "sp_elected s ?t \<noteq> None" "same_upto k l (sp_ledger s ?t)"
    using assms(2) k by (auto simp: good_log_def)
  show "sp_elected s' ?t \<noteq> None"
    using ext_elected [OF assms(1) l(1)] l(1) by simp
  show "same_upto k l (sp_ledger s' ?t)"
    using l(2) ext_same_upto(1) [OF assms(1) l(1), of k l] unfolding same_upto_def by blast
qed

lemma lacks_ext:
  assumes "ext s s'" "lacks s u t n" "sp_elected s t \<noteq> None" "n < length (sp_ledger s t)"
  shows "lacks s' u t n"
proof -
  obtain j b Q where el: "sp_elected s u = Some (j, b, Q)" "\<not> same_upto n b (sp_ledger s t)"
    using assms(2) by (auto simp: lacks_def)
  then have "sp_elected s' u = Some (j, b, Q)"
    using ext_elected [OF assms(1)] by simp
  with el(2) ext_same_upto(1) [OF assms(1,3,4)] show ?thesis
    by (auto simp: lacks_def)
qed

lemma ack_elected:
  assumes "inv_acks N s" "(t, p, n) \<in> sp_acks s"
  shows "sp_elected s t \<noteq> None" "n < length (sp_ledger s t)" "p < N" "t \<le> sp_term s p"
    "keeps s p (sp_log s p) (\<lambda>v. v \<le> sp_term s p) t"
  using assms by (auto simp: inv_acks_def)

lemma keeps_ext:
  assumes "ext s s'" "inv_acks N s" "keeps s p l R t"
    and "\<And>n. (t, p, n) \<in> sp_acks s' \<Longrightarrow> (t, p, n) \<in> sp_acks s" "\<And>u. R u \<Longrightarrow> R' u"
  shows "keeps s' p l R' t"
  unfolding keeps_def
proof (intro allI impI)
  fix n
  assume ack: "(t, p, n) \<in> sp_acks s'" and own: "entry_term (sp_ledger s' t ! n) = t"
  note ack = assms(4) [OF ack]
  note n = ack_elected(1,2) [OF assms(2) ack]
  have "same_upto n l (sp_ledger s t) \<or> (\<exists>u. t < u \<and> R u \<and> lacks s u t n)"
    using assms(3) ack own by (simp add: keeps_def ext_same_upto(2) [OF assms(1) n])
  then show "same_upto n l (sp_ledger s' t) \<or> (\<exists>u. t < u \<and> R' u \<and> lacks s' u t n)"
    using lacks_ext [OF assms(1) _ n] assms(5) by (auto simp: ext_same_upto(1) [OF assms(1) n])
qed

section \<open>Every step keeps the invariant\<close>

text \<open>Election safety: a candidate that wins in a term is the first winner of that term.\<close>

lemma elect_fresh:
  assumes "spec_inv N s" "supported N s i Q" "\<forall>b Q'. sp_elected s (sp_term s i) \<noteq> Some (i, b, Q')"
  shows "sp_elected s (sp_term s i) = None"
proof (rule ccontr)
  let ?t = "sp_term s i"
  assume "sp_elected s ?t \<noteq> None"
  then obtain j b Q' where el: "sp_elected s ?t = Some (j, b, Q')"
    by auto
  have inv: "inv_elected N s" "inv_ballots N s"
    using assms(1) by (simp_all add: spec_inv_def)
  have "i = j"
  proof (rule majority.one_winner [where voted = "\<lambda>p c. \<exists>l. (?t, p, c, l) \<in> sp_ballots s"])
    show "quorum N Q" "quorum N Q'"
      using assms(2) elected_basic(3) [OF inv(1) el] by (simp_all add: supported_def)
    show "\<exists>l. (?t, p, i, l) \<in> sp_ballots s" if "p \<in> Q" for p
      using assms(2) that by (auto simp: supported_def)
    show "\<exists>l. (?t, p, j, l) \<in> sp_ballots s" if "p \<in> Q'" for p
      using elected_voter [OF inv(1) el that] by blast
    show "c = d" if "\<exists>l. (?t, p, c, l) \<in> sp_ballots s" "\<exists>l. (?t, p, d, l) \<in> sp_ballots s" for p c d
      using that ballot_basic(6) [OF inv(2)] by blast
  qed
  with el assms(3) show False by blast
qed

lemma step_ext:
  assumes "spec_inv N s" "spec_step N s s'"
  shows "ext s s'"
  using assms(2)
proof cases
  case (Elect i Q e)
  then show ?thesis
    using elect_fresh [OF assms(1) Elect(4,5)] by (auto simp: ext_def spec_ops)
next
  case (Append i e)
  then have "sp_ledger s (sp_term s i) = sp_log s i"
    using assms(1) by (simp add: spec_inv_def inv_leads_def)
  with Append show ?thesis
    by (auto simp: ext_def spec_ops)
qed (auto simp: ext_def spec_ops)

lemma step_acks:
  assumes "spec_step N s s'" "(t, p, n) \<in> sp_acks s'"
  shows "(t, p, n) \<in> sp_acks s \<or> t = sp_term s p"
  using assms by cases (auto simp: spec_ops)

lemma keeps_frame:
  assumes "ext s s'" "inv_acks N s" "keeps s p l R u" "u < sp_term s p"
    and "\<And>t p n. (t, p, n) \<in> sp_acks s' \<Longrightarrow> (t, p, n) \<in> sp_acks s \<or> t = sp_term s p"
  shows "keeps s' p l R u"
proof (rule keeps_ext [OF assms(1-3)])
  show "(u, p, n) \<in> sp_acks s" if "(u, p, n) \<in> sp_acks s'" for n
    using assms(5) [OF that] assms(4) by auto
qed

lemma frame_ballots:
  assumes "ext s s'" "inv_ballots N s" "inv_acks N s" "sp_ballots s' = sp_ballots s"
    and "\<And>t p n. (t, p, n) \<in> sp_acks s' \<Longrightarrow> (t, p, n) \<in> sp_acks s \<or> t = sp_term s p"
  shows "inv_ballots N s'"
proof -
  have "p < N \<and> c < N \<and> t \<le> sp_term s' p \<and> good_log s' l \<and> (\<forall>u<t. keeps s' p l (\<lambda>v. v \<le> t) u)
      \<and> (\<forall>c' l'. (t, p, c', l') \<in> sp_ballots s' \<longrightarrow> c' = c)"
    if "(t, p, c, l) \<in> sp_ballots s'" for t p c l
  proof -
    note b = ballot_basic [OF assms(2) that [unfolded assms(4)]]
    have "sp_term s p \<le> sp_term s' p"
      using assms(1) by (simp add: ext_def)
    moreover have "keeps s' p l (\<lambda>v. v \<le> t) u" if "u < t" for u
      using b(3) b(5) [of u] that by (intro keeps_frame [OF assms(1,3) _ _ assms(5)]) auto
    ultimately show ?thesis
      using b(1-3,6) good_log_ext [OF assms(1) b(4)] assms(4) by auto
  qed
  then show ?thesis
    unfolding inv_ballots_def by blast
qed

lemma frame_elected:
  assumes "ext s s'" "inv_elected N s" "inv_ballots N s" "inv_acks N s" "sp_elected s t = Some (j, b, Q)"
    and "\<And>t p n. (t, p, n) \<in> sp_acks s' \<Longrightarrow> (t, p, n) \<in> sp_acks s \<or> t = sp_term s p"
  shows "0 < t \<and> j < N \<and> quorum N Q \<and> t \<le> sp_term s' j \<and> good_log s' b \<and> (\<forall>e \<in> set b. entry_term e < t)
     \<and> (\<exists>x. x \<noteq> [] \<and> sp_ledger s' t = b @ x \<and> (\<forall>e \<in> set x. entry_term e = t))
     \<and> (\<forall>p \<in> Q. \<exists>l. (t, p, j, l) \<in> sp_ballots s' \<and> up_to_date b l \<and> (\<forall>u<t. keeps s' p l (\<lambda>v. v < t) u))"
proof (intro conjI)
  note basic = elected_basic [OF assms(2,5)]
  show "0 < t" "j < N" "quorum N Q" "\<forall>e \<in> set b. entry_term e < t"
    using basic by simp_all
  show "good_log s' b"
    using assms(1) basic(5) by (rule good_log_ext)
  have "sp_term s j \<le> sp_term s' j"
    using assms(1) by (simp add: ext_def)
  with basic(4) show "t \<le> sp_term s' j"
    by (rule order_trans)
  obtain x where x: "x \<noteq> []" "sp_ledger s t = b @ x" "\<forall>e \<in> set x. entry_term e = t"
    using assms(2,5) by (rule elected_ledger)
  obtain y where "sp_ledger s' t = sp_ledger s t @ y" "\<forall>e \<in> set y. entry_term e = t"
    using ext_ledger [OF assms(1)] assms(5) by blast
  with x show "\<exists>x. x \<noteq> [] \<and> sp_ledger s' t = b @ x \<and> (\<forall>e \<in> set x. entry_term e = t)"
    by (intro exI [of _ "x @ y"]) auto
  show "\<forall>p \<in> Q. \<exists>l. (t, p, j, l) \<in> sp_ballots s' \<and> up_to_date b l \<and> (\<forall>u<t. keeps s' p l (\<lambda>v. v < t) u)"
  proof
    fix p
    assume "p \<in> Q"
    then obtain l where l: "(t, p, j, l) \<in> sp_ballots s" "up_to_date b l" "\<forall>u<t. keeps s p l (\<lambda>v. v < t) u"
      using elected_voter [OF assms(2,5)] by blast
    have "t \<le> sp_term s p"
      using assms(3) l(1) by (rule ballot_basic)
    then have "keeps s' p l (\<lambda>v. v < t) u" if "u < t" for u
      using l(3) that by (intro keeps_frame [OF assms(1,4) _ _ assms(6)]) auto
    with l assms(1) show "\<exists>l. (t, p, j, l) \<in> sp_ballots s' \<and> up_to_date b l \<and> (\<forall>u<t. keeps s' p l (\<lambda>v. v < t) u)"
      unfolding ext_def by blast
  qed
qed

text \<open>
  A follower may replace its log by any log that agrees with the ledger of its term at least as far:
  what it loses, the leader of that term never had.
\<close>

lemma keeps_revise:
  assumes "inv_elected N s" "sp_elected s t = Some (j, b, Q)" "u \<le> t"
    and "\<And>n. same_upto n l (sp_ledger s t) \<Longrightarrow> same_upto n l' (sp_ledger s t)"
    and "keeps s p l (\<lambda>v. v \<le> t) u"
  shows "keeps s p l' (\<lambda>v. v \<le> t) u"
  unfolding keeps_def
proof (intro allI impI)
  fix n
  assume "(u, p, n) \<in> sp_acks s" "entry_term (sp_ledger s u ! n) = u"
  with assms(5) consider "\<exists>v. u < v \<and> v \<le> t \<and> lacks s v u n" | "same_upto n l (sp_ledger s u)"
    by (auto simp: keeps_def)
  then show "same_upto n l' (sp_ledger s u) \<or> (\<exists>v. u < v \<and> v \<le> t \<and> lacks s v u n)"
  proof cases
    case 2
    show ?thesis
    proof (cases "u = t \<or> same_upto n b (sp_ledger s u)")
      case True
      obtain x where "sp_ledger s t = b @ x"
        using elected_ledger [OF assms(1,2)] by blast
      with True 2 have L: "same_upto n (sp_ledger s t) (sp_ledger s u)"
        using same_upto_append_iff(2) by (auto simp: same_upto_def)
      from same_upto_trans [OF 2 same_upto_sym [OF L]] have "same_upto n l' (sp_ledger s t)"
        by (rule assms(4))
      with L show ?thesis
        by (blast intro: same_upto_trans)
    next
      case False
      with assms(2) have "lacks s t u n"
        by (auto simp: lacks_def)
      moreover have "u < t"
        using False assms(3) by (simp add: order.strict_iff_order)
      ultimately show ?thesis
        by blast
    qed
  qed simp
qed

lemma adopt_eq:
  assumes "same_upto n l l'" "m \<le> n"
  shows "adopt m l l' = l"
  using assms same_upto_nth [OF assms(1)] by (simp add: adopt_def same_upto_def)

lemma adopt_reaches:
  assumes "good_log s l" "good_log s l'" "m < length l'"
  shows "same_upto m (adopt m l l') l'"
proof (cases "m < length l \<and> (\<forall>i \<le> m. entry_term (l ! i) = entry_term (l' ! i))")
  case True
  then have "same_upto m l l'"
    using assms by (intro logs_match) auto
  then show ?thesis
    by (simp add: adopt_eq)
next
  case False
  then show ?thesis
    using assms(3) unfolding adopt_def if_not_P [OF False] by (intro same_upto_take) simp
qed

lemma adopt_revises:
  assumes "good_log s l" "good_log s l'" "m < length l'" "same_upto n l l'"
  shows "same_upto n (adopt m l l') l'"
proof (cases "m \<le> n")
  case True
  with assms(4) show ?thesis by (simp add: adopt_eq)
next
  case False
  then show ?thesis
    using same_upto_le [OF adopt_reaches [OF assms(1-3)], of n] by simp
qed

lemma frame_logs:
  assumes "ext s s'" "inv_logs N s" "\<And>p. p \<noteq> i \<Longrightarrow> sp_log s' p = sp_log s p"
    and "i < N \<Longrightarrow> good_log s' (sp_log s' i) \<and> (\<forall>e \<in> set (sp_log s' i). entry_term e \<le> sp_term s' i)"
  shows "inv_logs N s'"
  unfolding inv_logs_def
proof (intro allI impI)
  fix p
  assume "p < N"
  show "good_log s' (sp_log s' p) \<and> (\<forall>e \<in> set (sp_log s' p). entry_term e \<le> sp_term s' p)"
  proof (cases "p = i")
    case False
    have "sp_term s p \<le> sp_term s' p"
      using assms(1) by (simp add: ext_def)
    moreover have "good_log s (sp_log s p)" "\<forall>e \<in> set (sp_log s p). entry_term e \<le> sp_term s p"
      using assms(2) \<open>p < N\<close> by (simp_all add: inv_logs_def)
    ultimately show ?thesis
      unfolding assms(3) [OF False] using good_log_ext [OF assms(1)] by fastforce
  qed (use assms(4) \<open>p < N\<close> in simp)
qed

lemma frame_acks:
  assumes "ext s s'" "inv_acks N s" "\<And>p. p \<noteq> i \<Longrightarrow> sp_log s' p = sp_log s p"
    and "\<And>t p n. (t, p, n) \<in> sp_acks s' \<Longrightarrow> (t, p, n) \<notin> sp_acks s \<Longrightarrow>
      p = i \<and> i < N \<and> sp_elected s' t \<noteq> None \<and> n < length (sp_ledger s' t) \<and> t \<le> sp_term s' i"
    and "\<And>t n. (t, i, n) \<in> sp_acks s' \<Longrightarrow> keeps s' i (sp_log s' i) (\<lambda>v. v \<le> sp_term s' i) t"
  shows "inv_acks N s'"
  unfolding inv_acks_def
proof (intro allI impI)
  fix t p n
  assume ack: "(t, p, n) \<in> sp_acks s'"
  have tm: "sp_term s p \<le> sp_term s' p"
    using assms(1) by (simp add: ext_def)
  have "p < N \<and> sp_elected s' t \<noteq> None \<and> n < length (sp_ledger s' t) \<and> t \<le> sp_term s' p"
  proof (cases "(t, p, n) \<in> sp_acks s")
    case True
    note a = ack_elected [OF assms(2) True]
    show ?thesis
      using a(3,4) ext_elected [OF assms(1) a(1)] a(1) ext_same_upto(3) [OF assms(1) a(1,2)] tm by auto
  qed (use assms(4) [OF ack] in auto)
  moreover have "keeps s' p (sp_log s' p) (\<lambda>v. v \<le> sp_term s' p) t"
  proof (cases "p = i")
    case False
    then have old: "(t, p, m) \<in> sp_acks s" if "(t, p, m) \<in> sp_acks s'" for m
      using assms(4) [OF that] by blast
    show ?thesis
      unfolding assms(3) [OF False]
      by (rule keeps_ext [OF assms(1,2) ack_elected(5) [OF assms(2) old [OF ack]] old order_trans [OF _ tm]])
  qed (use assms(5) ack in blast)
  ultimately show "p < N \<and> sp_elected s' t \<noteq> None \<and> n < length (sp_ledger s' t) \<and> t \<le> sp_term s' p
      \<and> keeps s' p (sp_log s' p) (\<lambda>v. v \<le> sp_term s' p) t"
    by blast
qed

lemma do_vote_frame:
  "good_log (do_vote p c s) = good_log s" "keeps (do_vote p c s) = keeps s"
  "sp_elected (do_vote p c s) = sp_elected s" "sp_term (do_vote p c s) = sp_term s"
  "sp_ballots (do_vote p c s) = insert (sp_term s p, p, c, sp_log s p) (sp_ballots s)"
  by (simp_all add: fun_eq_iff good_log_def do_vote_def keeps_def lacks_def)

lemma log_keeps:
  assumes "inv_acks N s"
  shows "keeps s p (sp_log s p) (\<lambda>v. v \<le> sp_term s p) u"
proof (cases "\<exists>n. (u, p, n) \<in> sp_acks s")
  case True
  with ack_elected(5) [OF assms] show ?thesis by blast
qed (simp add: keeps_def)

lemma vote_ballots:
  assumes "spec_inv N s" "p < N" "c < N" "\<forall>c' l. (sp_term s p, p, c', l) \<in> sp_ballots s \<longrightarrow> c' = c"
  shows "inv_ballots N (do_vote p c s)"
proof -
  have inv: "inv_ballots N s" "inv_acks N s" "inv_logs N s"
    using assms(1) by (simp_all add: spec_inv_def)
  show ?thesis
    unfolding inv_ballots_def do_vote_frame
  proof (intro allI impI)
    fix t q d l
    assume "(t, q, d, l) \<in> insert (sp_term s p, p, c, sp_log s p) (sp_ballots s)"
    then consider "t = sp_term s p" "q = p" "d = c" "l = sp_log s p" | "(t, q, d, l) \<in> sp_ballots s"
      by blast
    then show "q < N \<and> d < N \<and> t \<le> sp_term s q \<and> good_log s l \<and> (\<forall>u<t. keeps s q l (\<lambda>v. v \<le> t) u)
        \<and> (\<forall>c' l'. (t, q, c', l') \<in> insert (sp_term s p, p, c, sp_log s p) (sp_ballots s) \<longrightarrow> c' = d)"
    proof cases
      case 1
      with assms(2-4) inv(3) log_keeps [OF inv(2)] show ?thesis
        by (auto simp: inv_logs_def)
    next
      case 2
      note b = ballot_basic [OF inv(1) 2]
      have "c' = d" if "(t, q, c', l') \<in> insert (sp_term s p, p, c, sp_log s p) (sp_ballots s)" for c' l'
        using that b(6) 2 assms(4) by blast
      with b(1-5) show ?thesis by blast
    qed
  qed
qed

lemma step_ballots:
  assumes "spec_inv N s" "spec_step N s s'"
  shows "inv_ballots N s'"
  using assms(2)
proof cases
  case (Vote p c)
  with vote_ballots [OF assms(1)] show ?thesis by simp
qed (rule frame_ballots [OF step_ext [OF assms] _ _ _ step_acks [OF assms(2)]];
  use assms(1) in \<open>simp add: spec_inv_def spec_ops\<close>)+

lemma elect_base:
  assumes "spec_inv N s" "i < N" "0 < sp_term s i" "sp_elected s (sp_term s i) = None" "x \<in> set (sp_log s i)"
  shows "entry_term x < sp_term s i"
proof -
  have log: "good_log s (sp_log s i)" "\<forall>e \<in> set (sp_log s i). entry_term e \<le> sp_term s i"
    using assms(1,2) by (simp_all add: spec_inv_def inv_logs_def)
  obtain k where k: "k < length (sp_log s i)" "sp_log s i ! k = x"
    using assms(5) by (auto simp: in_set_conv_nth)
  have "entry_term x \<noteq> sp_term s i"
  proof (cases "k = 0")
    case True
    then show ?thesis
      using good_log_0 [OF log(1)] k assms(3) by auto
  next
    case False
    then have "sp_elected s (entry_term (sp_log s i ! k)) \<noteq> None"
      using log(1) k(1) by (simp add: good_log_def)
    with k(2) assms(4) show ?thesis by auto
  qed
  with log(2) assms(5) show ?thesis
    by (simp add: order.strict_iff_order)
qed

lemma elect_voter:
  assumes "spec_inv N s" "supported N s i Q" "sp_elected s (sp_term s i) = None" "p \<in> Q"
  obtains l where "(sp_term s i, p, i, l) \<in> sp_ballots s" "up_to_date (sp_log s i) l"
    "\<forall>u < sp_term s i. keeps s p l (\<lambda>v. v < sp_term s i) u"
proof -
  let ?t = "sp_term s i"
  obtain l where l: "(?t, p, i, l) \<in> sp_ballots s" "up_to_date (sp_log s i) l"
    using assms(2,4) by (auto simp: supported_def)
  have "\<not> lacks s ?t u n" for u n
    using assms(3) by (simp add: lacks_def)
  then have "keeps s p l (\<lambda>v. v < ?t) u" if "u < ?t" for u
    using ballot_basic(5) [OF _ l(1) that] assms(1) unfolding keeps_def spec_inv_def
    by (metis order.strict_iff_order)
  with l that show thesis by blast
qed

lemma step_elected:
  assumes "spec_inv N s" "spec_step N s s'"
  shows "inv_elected N s'"
proof -
  have inv: "inv_elected N s" "inv_ballots N s" "inv_acks N s" "inv_logs N s"
    using assms(1) by (simp_all add: spec_inv_def)
  note frame = frame_elected [OF step_ext [OF assms] inv(1-3) _ step_acks [OF assms(2)]]
  show ?thesis
  proof (cases "sp_elected s' = sp_elected s")
    case True
    with frame show ?thesis
      unfolding inv_elected_def by metis
  next
    case False
    with assms(2) obtain i Q e where s': "s' = do_elect i Q e s" and i: "i < N" "0 < sp_term s i"
        "supported N s i Q" "\<forall>b Q'. sp_elected s (sp_term s i) \<noteq> Some (i, b, Q')" "entry_term e = sp_term s i"
      by cases (auto simp: spec_ops)
    let ?t = "sp_term s i" and ?b = "sp_log s i"
    have fresh: "sp_elected s ?t = None"
      using elect_fresh [OF assms(1) i(3,4)] .
    have el: "sp_elected s' = (sp_elected s)(?t \<mapsto> (i, ?b, Q))" and led: "sp_ledger s' ?t = ?b @ [e]"
      and same: "sp_ballots s' = sp_ballots s" "sp_term s' = sp_term s"
      by (simp_all add: s' spec_ops)
    have "\<forall>p \<in> Q. \<exists>l. (?t, p, i, l) \<in> sp_ballots s' \<and> up_to_date ?b l \<and> (\<forall>u < ?t. keeps s' p l (\<lambda>v. v < ?t) u)"
    proof
      fix p
      assume "p \<in> Q"
      then obtain l where l: "(?t, p, i, l) \<in> sp_ballots s" "up_to_date ?b l"
          "\<forall>u < ?t. keeps s p l (\<lambda>v. v < ?t) u"
        using elect_voter [OF assms(1) i(3) fresh] by blast
      have "keeps s' p l (\<lambda>v. v < ?t) u" if "u < ?t" for u
        using l(3) that ballot_basic(3) [OF inv(2) l(1)]
        by (intro keeps_frame [OF step_ext [OF assms] inv(3) _ _ step_acks [OF assms(2)]]) auto
      with l show "\<exists>l. (?t, p, i, l) \<in> sp_ballots s' \<and> up_to_date ?b l \<and> (\<forall>u < ?t. keeps s' p l (\<lambda>v. v < ?t) u)"
        unfolding same by blast
    qed
    moreover have "good_log s' ?b"
      using inv(4) i(1) by (intro good_log_ext [OF step_ext [OF assms]]) (simp add: inv_logs_def)
    moreover have "\<forall>x \<in> set ?b. entry_term x < ?t"
      using elect_base [OF assms(1) i(1,2) fresh] by blast
    moreover have "quorum N Q"
      using i(3) by (simp add: supported_def)
    moreover have "\<exists>x. x \<noteq> [] \<and> sp_ledger s' ?t = ?b @ x \<and> (\<forall>x \<in> set x. entry_term x = ?t)"
      using i(5) led by (intro exI [of _ "[e]"]) simp
    ultimately show ?thesis
      unfolding inv_elected_def
      using frame i(1,2) same(2) by (auto simp: el split: if_splits)
  qed
qed

lemma good_log_snoc:
  assumes "good_log s l" "sp_elected s (entry_term e) \<noteq> None" "sp_ledger s (entry_term e) = l @ [e]"
  shows "good_log s (l @ [e])"
proof -
  have "sp_elected s (entry_term ((l @ [e]) ! k)) \<noteq> None
      \<and> same_upto k (l @ [e]) (sp_ledger s (entry_term ((l @ [e]) ! k)))"
    if "0 < k" "k < length (l @ [e])" for k
  proof (cases "k < length l")
    case True
    with assms(1) that show ?thesis
      by (simp add: good_log_def nth_append same_upto_append_iff)
  next
    case False
    with that have "k = length l" by simp
    with assms(2,3) show ?thesis by (simp add: same_upto_refl)
  qed
  with assms(1) show ?thesis
    unfolding good_log_def by auto
qed

lemma snoc_logs:
  assumes "spec_inv N s" "spec_step N s s'" "i < N" "sp_log s' = (sp_log s)(i := sp_log s i @ [e])"
    and "entry_term e = sp_term s i" "sp_term s' = sp_term s" "sp_elected s' (sp_term s i) \<noteq> None"
    and "sp_ledger s' (sp_term s i) = sp_log s i @ [e]"
  shows "inv_logs N s'"
proof (rule frame_logs [OF step_ext [OF assms(1,2)], of _ i])
  have log: "good_log s (sp_log s i)" "\<forall>e \<in> set (sp_log s i). entry_term e \<le> sp_term s i"
    using assms(1,3) by (simp_all add: spec_inv_def inv_logs_def)
  have "good_log s' (sp_log s i @ [e])"
    using good_log_ext [OF step_ext [OF assms(1,2)] log(1)] assms(5,7,8) by (intro good_log_snoc) simp_all
  with log(2) assms(4-6)
  show "good_log s' (sp_log s' i) \<and> (\<forall>e \<in> set (sp_log s' i). entry_term e \<le> sp_term s' i)"
    by simp
qed (use assms(1,4) in \<open>simp_all add: spec_inv_def\<close>)

lemma ledger_terms:
  assumes "inv_elected N s" "sp_elected s t \<noteq> None" "x \<in> set (sp_ledger s t)"
  shows "entry_term x \<le> t"
  using ledger_term [OF assms(1,2)] assms(3) by (auto simp: in_set_conv_nth)

lemma adopt_good:
  assumes "spec_inv N s" "p < N" "sp_elected s (sp_term s p) \<noteq> None" "n < length (sp_ledger s (sp_term s p))"
  shows "good_log s (adopt n (sp_log s p) (sp_ledger s (sp_term s p)))"
    "\<forall>x \<in> set (adopt n (sp_log s p) (sp_ledger s (sp_term s p))). entry_term x \<le> sp_term s p"
proof -
  have inv: "inv_elected N s" "good_log s (sp_log s p)" "\<forall>e \<in> set (sp_log s p). entry_term e \<le> sp_term s p"
    using assms(1,2) by (simp_all add: spec_inv_def inv_logs_def)
  show "good_log s (adopt n (sp_log s p) (sp_ledger s (sp_term s p)))"
    using inv(2) good_prefix [OF good_ledger [OF inv(1) assms(3)]] by (simp add: adopt_def)
  show "\<forall>x \<in> set (adopt n (sp_log s p) (sp_ledger s (sp_term s p))). entry_term x \<le> sp_term s p"
    using inv(3) ledger_terms [OF inv(1) assms(3)] by (auto simp: adopt_def dest: in_set_takeD)
qed

lemma put_logs:
  assumes "spec_inv N s" "spec_step N s s'" "sp_log s' = (sp_log s)(p := l)" "sp_term s' = sp_term s"
    and "good_log s l" "\<forall>x \<in> set l. entry_term x \<le> sp_term s p"
  shows "inv_logs N s'"
  using assms(1,3-6) good_log_ext [OF step_ext [OF assms(1,2)]]
  by (intro frame_logs [OF step_ext [OF assms(1,2)], of _ p]) (simp_all add: spec_inv_def)

lemma step_logs:
  assumes "spec_inv N s" "spec_step N s s'"
  shows "inv_logs N s'"
proof -
  have logs: "good_log s (sp_log s p)" "\<forall>x \<in> set (sp_log s p). entry_term x \<le> sp_term s p" if "p < N" for p
    using assms(1) that by (simp_all add: spec_inv_def inv_logs_def)
  show ?thesis
    using assms(2)
  proof cases
    case (Raise p t)
    then show ?thesis
      using assms(1) logs [of p] good_log_ext [OF step_ext [OF assms]]
      by (intro frame_logs [OF step_ext [OF assms], of _ p])
        (auto simp: spec_inv_def spec_ops intro: order_trans)
  next
    case (Elect i Q e)
    then show ?thesis
      by (intro snoc_logs [OF assms, of i e]) (simp_all add: spec_ops)
  next
    case (Append i e)
    then have "sp_elected s (sp_term s i) \<noteq> None"
      using assms(1) by (auto simp: spec_inv_def inv_leads_def)
    with Append show ?thesis
      by (intro snoc_logs [OF assms, of i e]) (simp_all add: spec_ops)
  next
    case (Accept p j b Q prev n)
    then show ?thesis
      using adopt_good [OF assms(1), of p n]
      by (intro put_logs [OF assms, where p = p]) (simp_all add: spec_ops)
  next
    case (Cut p j b Q k)
    then show ?thesis
      using good_prefix [OF logs(1)] logs(2) [of p]
      by (intro put_logs [OF assms, where p = p and l = "take k (sp_log s p)"])
        (auto simp: spec_ops dest: in_set_takeD)
  qed (rule put_logs [OF assms, where p = 0 and l = "sp_log s 0"]; use logs in \<open>simp add: spec_ops\<close>)+
qed

lemma step_leads:
  assumes "spec_inv N s" "spec_step N s s'"
  shows "inv_leads N s'"
proof -
  have lead: "sp_ledger s (sp_term s p) = sp_log s p" "\<exists>b Q. sp_elected s (sp_term s p) = Some (p, b, Q)"
    if "p < N" "sp_lead s p" for p
    using assms(1) that by (simp_all add: spec_inv_def inv_leads_def)
  show ?thesis
    using assms(2)
  proof cases
    case (Elect i Q e)
    have "sp_elected s (sp_term s i) = None"
      using elect_fresh [OF assms(1) Elect(4,5)] .
    then have "sp_term s p \<noteq> sp_term s i" if "p < N" "sp_lead s p" for p
      using lead(2) [OF that] by auto
    with Elect lead show ?thesis
      by (auto simp: inv_leads_def spec_ops)
  next
    case (Append i e)
    then have "sp_term s p \<noteq> sp_term s i" if "p < N" "sp_lead s p" "p \<noteq> i" for p
      using lead(2) [OF that(1,2)] lead(2) [of i] that(3) by auto
    with Append lead show ?thesis
      by (auto simp: inv_leads_def spec_ops)
  next
    case (Accept p j b Q prev n)
    then have "\<not> sp_lead s p"
      using lead(2) [of p] by auto
    with Accept lead show ?thesis
      by (auto simp: inv_leads_def spec_ops)
  next
    case (Cut p j b Q k)
    then have "\<not> sp_lead s p"
      using lead(2) [of p] by auto
    with Cut lead show ?thesis
      by (auto simp: inv_leads_def spec_ops)
  qed (use lead in \<open>auto simp: inv_leads_def spec_ops\<close>)
qed

lemma keeps_snoc:
  "keeps s p l R t \<Longrightarrow> keeps s p (l @ x) R t"
  using same_upto_append_iff(2) by (fastforce simp: keeps_def same_upto_def)

lemma snoc_acks:
  assumes "spec_inv N s" "spec_step N s s'" "sp_log s' = (sp_log s)(i := sp_log s i @ [e])"
    and "sp_term s' = sp_term s" "sp_acks s' = sp_acks s"
  shows "inv_acks N s'"
proof (rule frame_acks [OF step_ext [OF assms(1,2)], of _ i])
  have inv: "inv_acks N s"
    using assms(1) by (simp add: spec_inv_def)
  show "keeps s' i (sp_log s' i) (\<lambda>v. v \<le> sp_term s' i) t" for t
    using keeps_snoc [OF log_keeps [OF inv]] assms(3-5)
    by (intro keeps_ext [OF step_ext [OF assms(1,2)] inv]) simp_all
qed (use assms in \<open>simp_all add: spec_inv_def\<close>)

text \<open>A node whose log is revised towards the ledger of its term still holds what it acknowledged.\<close>

lemma revise_acks:
  assumes "spec_inv N s" "spec_step N s s'" "sp_elected s (sp_term s p) = Some (j, b, Q)"
    and "sp_log s' = (sp_log s)(p := l)" "sp_term s' = sp_term s" "sp_ledger s' = sp_ledger s"
    and "sp_elected s' = sp_elected s"
    and "sp_acks s' = sp_acks s \<union> {(sp_term s p, p, k) | k. k \<in> K}"
    and "\<And>k. k \<in> K \<Longrightarrow> p < N \<and> same_upto k l (sp_ledger s (sp_term s p))"
    and "\<And>n. same_upto n (sp_log s p) (sp_ledger s (sp_term s p)) \<Longrightarrow> same_upto n l (sp_ledger s (sp_term s p))"
  shows "inv_acks N s'"
proof (rule frame_acks [OF step_ext [OF assms(1,2)], of _ p])
  let ?t = "sp_term s p"
  have inv: "inv_acks N s" "inv_elected N s"
    using assms(1) by (simp_all add: spec_inv_def)
  have old: "keeps s p l (\<lambda>v. v \<le> ?t) u" if "u \<le> ?t" for u
    by (rule keeps_revise [OF inv(2) assms(3) that assms(10) log_keeps [OF inv(1)]])
  fix u n
  assume ack: "(u, p, n) \<in> sp_acks s'"
  then have u: "u \<le> ?t"
    using assms(8) ack_elected(4) [OF inv(1)] by auto
  have lacks: "lacks s' v w m \<longleftrightarrow> lacks s v w m" for v w m
    by (simp add: lacks_def assms(6,7))
  have "same_upto m l (sp_ledger s u) \<or> (\<exists>v. u < v \<and> v \<le> ?t \<and> lacks s v u m)"
    if "(u, p, m) \<in> sp_acks s'" "entry_term (sp_ledger s u ! m) = u" for m
    using that assms(8,9) old [OF u] unfolding keeps_def by blast
  then show "keeps s' p (sp_log s' p) (\<lambda>v. v \<le> sp_term s' p) u"
    by (simp add: keeps_def assms(4-6) lacks)
qed (use assms(1,3-9) in \<open>auto simp: spec_inv_def same_upto_def\<close>)

lemma cut_revises:
  assumes "k < length l" "k < length l'" "entry_term (l ! k) \<noteq> entry_term (l' ! k)" "same_upto n l l'"
  shows "same_upto n (take k l) l'"
proof -
  have "n < k"
    using same_upto_nth [OF assms(4), of k] assms(3) by (cases "k \<le> n") auto
  then show ?thesis
    using assms(1,4) same_upto_trans [OF same_upto_take] by (simp add: same_upto_def)
qed

lemma step_inv_acks:
  assumes "spec_inv N s" "spec_step N s s'"
  shows "inv_acks N s'"
proof -
  have inv: "inv_acks N s" "inv_elected N s"
    using assms(1) by (simp_all add: spec_inv_def)
  note frame = frame_acks [OF step_ext [OF assms] inv(1)]
  show ?thesis
    using assms(2)
  proof cases
    case (Raise p t)
    have "keeps s' p (sp_log s' p) (\<lambda>v. v \<le> sp_term s' p) u" for u
      using Raise keeps_ext [OF step_ext [OF assms] inv(1) log_keeps [OF inv(1), of p u], of "\<lambda>v. v \<le> sp_term s' p"]
      by (auto simp: spec_ops)
    with Raise show ?thesis
      by (intro frame [of p]) (auto simp: spec_ops)
  next
    case (Vote p c)
    then have "keeps s' = keeps s"
      by (simp add: do_vote_frame)
    with Vote log_keeps [OF inv(1)] show ?thesis
      by (intro frame [of p]) (auto simp: do_vote_def)
  next
    case (Elect i Q e)
    then show ?thesis
      by (intro snoc_acks [OF assms, of i e]) (simp_all add: spec_ops)
  next
    case (Append i e)
    then show ?thesis
      by (intro snoc_acks [OF assms, of i e]) (simp_all add: spec_ops)
  next
    case (Self i n)
    then obtain b Q where el: "sp_elected s (sp_term s i) = Some (i, b, Q)"
        and led: "sp_ledger s (sp_term s i) = sp_log s i"
      using assms(1) by (auto simp: spec_inv_def inv_leads_def)
    show ?thesis
      by (rule revise_acks [OF assms el, where l = "sp_log s i" and K = "{..n}"])
        (use Self in \<open>auto simp: spec_ops led intro: same_upto_refl\<close>)
  next
    case (Accept p j b Q prev n)
    then have logs: "good_log s (sp_log s p)" "good_log s (sp_ledger s (sp_term s p))"
      using assms(1) good_ledger [OF inv(2)] by (simp_all add: spec_inv_def inv_logs_def)
    note reach = adopt_reaches [OF logs, of n] and revises = adopt_revises [OF logs, of n]
    show ?thesis
      by (rule revise_acks [OF assms Accept(3), where K = "{..n}"
            and l = "adopt n (sp_log s p) (sp_ledger s (sp_term s p))"])
        (use Accept revises same_upto_le [OF reach] in \<open>auto simp: spec_ops\<close>)
  next
    case (Cut p j b Q k)
    show ?thesis
      by (rule revise_acks [OF assms Cut(3), where K = "{}" and l = "take k (sp_log s p)"])
        (use Cut cut_revises in \<open>auto simp: spec_ops\<close>)
  qed
qed

theorem spec_step_inv:
  assumes "spec_inv N s" "spec_step N s s'"
  shows "spec_inv N s'"
  using step_logs [OF assms] step_leads [OF assms] step_ballots [OF assms] step_elected [OF assms]
    step_inv_acks [OF assms] by (simp add: spec_inv_def)

lemma spec_reach_inv: "spec_reach N s \<Longrightarrow> spec_inv N s"
proof (induction rule: spec_reach.induct)
  case (init s)
  then show ?case
    by (simp add: spec_init_def spec_inv_def inv_logs_def inv_leads_def inv_ballots_def inv_elected_def
        inv_acks_def good_log_def)
next
  case (step s s')
  then show ?case by (simp add: spec_step_inv)
qed

lemma leader_complete_ledger:
  assumes "spec_inv N s" "committed N s t n" "sp_elected s u \<noteq> None" "t \<le> u"
  shows "same_upto n (sp_ledger s u) (sp_ledger s t)"
proof (cases "t = u")
  case True
  then show ?thesis
    using assms(1,2) committed_elected(2) by (auto simp: spec_inv_def intro: same_upto_refl)
next
  case False
  obtain j b Q where el: "sp_elected s u = Some (j, b, Q)"
    using assms(3) by auto
  have b: "same_upto n b (sp_ledger s t)"
    using leader_complete [OF assms(1,2) el] False assms(4) by (simp add: order.strict_iff_order)
  obtain x where "sp_ledger s u = b @ x"
    using assms(1) elected_ledger [OF _ el] unfolding spec_inv_def by blast
  with b show ?thesis
    by (simp add: same_upto_append_iff same_upto_def)
qed

end
