(* ===== verification/RaftFacts.thy ===== *)
theory RaftFacts
  imports Raft RaftSpec
begin

text \<open>
  One node: the invariant of its state and the effect of every method and critical section on term,
  vote, role and log. The invariant says in particular that what is in memory is what is on disk,
  so that a crash between two steps loses nothing but the volatile fields.
\<close>

section \<open>The invariant of a node\<close>

definition persisted :: "RaftNode \<Rightarrow> bool" where
  "persisted n \<longleftrightarrow> dependable (storage n) \<and> s_currentTerm (storage n) = currentTerm n
     \<and> s_votedFor (storage n) = votedFor n \<and> rlog n = sentinel # s_entries (storage n)"

definition leader_view :: "nat \<Rightarrow> RaftNode \<Rightarrow> bool" where
  "leader_view N n \<longleftrightarrow> (\<forall>p<N. 0 < unat (nextIndex n ! p) \<and> unat (nextIndex n ! p) \<le> length (rlog n)
     \<and> unat (matchIndex n ! p) < length (rlog n))"

definition wf_node :: "nat \<Rightarrow> nat \<Rightarrow> RaftNode \<Rightarrow> bool" where
  "wf_node N i n \<longleftrightarrow> i < N \<and> N < 2 ^ 31 \<and> node_id n = word_of_nat i \<and> clusterSize n = word_of_nat N
     \<and> persisted n \<and> length (rlog n) < 2 ^ 64 \<and> length (nextIndex n) = N \<and> length (matchIndex n) = N
     \<and> (role n = Leader \<longrightarrow> leader_view N n) \<and> (role n \<noteq> Follower \<longrightarrow> currentTerm n \<noteq> 0)"

text \<open>There is room for one more term and one more entry.\<close>

definition room :: "RaftNode \<Rightarrow> bool" where
  "room n \<longleftrightarrow> currentTerm n < - 1 \<and> length (rlog n) + 1 < 2 ^ 64"

lemma wf_node_ids:
  assumes "wf_node N i n"
  shows "unat (node_id n) = i" "unat (clusterSize n) = N"
  using assms by (auto simp: wf_node_def intro!: unat_of_nat_id)

lemma wf_node_term: "wf_node N i n \<Longrightarrow> role n \<noteq> Follower \<Longrightarrow> currentTerm n \<noteq> 0"
  by (simp add: wf_node_def)

lemma wf_node_log:
  assumes "wf_node N i n"
  shows "rlog n \<noteq> []" "hd (rlog n) = sentinel" "unat (lastLogIndex n) = length (rlog n) - 1"
    "unat (lastLogIndex n + 1) = length (rlog n)" "lastLogTerm n = last_term (rlog n)"
proof -
  have l: "rlog n \<noteq> []" "hd (rlog n) = sentinel" "length (rlog n) < 2 ^ 64"
    using assms by (auto simp: wf_node_def persisted_def)
  then have len: "unat (word_of_nat (length (rlog n)) :: u64) = length (rlog n)"
    by (intro unat_of_nat_id) simp
  show "rlog n \<noteq> []" "hd (rlog n) = sentinel"
    using l by auto
  show "unat (lastLogIndex n) = length (rlog n) - 1"
  proof -
    obtain k where k: "length (rlog n) = Suc k"
      using l(1) by (cases "rlog n") auto
    then have "unat (word_of_nat k :: u64) = k"
      using l(3) by (intro unat_of_nat_id) simp
    with k show ?thesis by (simp add: lastLogIndex_def)
  qed
  show "unat (lastLogIndex n + 1) = length (rlog n)"
    using len by (simp add: lastLogIndex_def)
  show "lastLogTerm n = last_term (rlog n)"
    by (simp add: lastLogTerm_def last_term_def)
qed

lemma wf_node_volatile [simp]:
  "wf_node N i (n\<lparr>commitIndex := c\<rparr>) = wf_node N i n" "wf_node N i (n\<lparr>lastApplied := a\<rparr>) = wf_node N i n"
  "wf_node N i (n\<lparr>stopping := b\<rparr>) = wf_node N i n" "wf_node N i (n\<lparr>votesReceived := v\<rparr>) = wf_node N i n"
  "wf_node N i (resetElectionDeadline ck n) = wf_node N i n"
  by (simp_all add: wf_node_def persisted_def leader_view_def resetElectionDeadline_def)

section \<open>Effects\<close>

lemma becomeFollower_simps [simp]:
  "node_id (becomeFollower ck t n) = node_id n" "clusterSize (becomeFollower ck t n) = clusterSize n"
  "role (becomeFollower ck t n) = Follower" "currentTerm (becomeFollower ck t n) = max (currentTerm n) t"
  "votedFor (becomeFollower ck t n) = (if currentTerm n < t then -1 else votedFor n)"
  "rlog (becomeFollower ck t n) = rlog n" "commitIndex (becomeFollower ck t n) = commitIndex n"
  "lastApplied (becomeFollower ck t n) = lastApplied n" "nextIndex (becomeFollower ck t n) = nextIndex n"
  "matchIndex (becomeFollower ck t n) = matchIndex n" "stopping (becomeFollower ck t n) = stopping n"
  "storage (becomeFollower ck t n) = (if currentTerm n < t then saveMeta_done t (-1) (storage n) else storage n)"
  by (auto simp: becomeFollower_def resetElectionDeadline_def Let_def max_def)

lemma resetElectionDeadline_simps [simp]:
  "node_id (resetElectionDeadline ck n) = node_id n" "clusterSize (resetElectionDeadline ck n) = clusterSize n"
  "role (resetElectionDeadline ck n) = role n" "currentTerm (resetElectionDeadline ck n) = currentTerm n"
  "votedFor (resetElectionDeadline ck n) = votedFor n" "rlog (resetElectionDeadline ck n) = rlog n"
  "commitIndex (resetElectionDeadline ck n) = commitIndex n" "lastApplied (resetElectionDeadline ck n) = lastApplied n"
  "nextIndex (resetElectionDeadline ck n) = nextIndex n" "matchIndex (resetElectionDeadline ck n) = matchIndex n"
  "votesReceived (resetElectionDeadline ck n) = votesReceived n" "storage (resetElectionDeadline ck n) = storage n"
  "stopping (resetElectionDeadline ck n) = stopping n"
  by (simp_all add: resetElectionDeadline_def)

lemma push_entry_simps [simp]:
  "node_id (push_entry e n) = node_id n" "clusterSize (push_entry e n) = clusterSize n"
  "role (push_entry e n) = role n" "currentTerm (push_entry e n) = currentTerm n"
  "votedFor (push_entry e n) = votedFor n" "rlog (push_entry e n) = rlog n @ [e]"
  "commitIndex (push_entry e n) = commitIndex n" "lastApplied (push_entry e n) = lastApplied n"
  "nextIndex (push_entry e n) = nextIndex n" "matchIndex (push_entry e n) = matchIndex n"
  "votesReceived (push_entry e n) = votesReceived n" "storage (push_entry e n) = append_done e (storage n)"
  "stopping (push_entry e n) = stopping n"
  by (simp_all add: push_entry_def)

lemma advanceCommit_simps [simp]:
  "node_id (advanceCommit n) = node_id n" "clusterSize (advanceCommit n) = clusterSize n"
  "role (advanceCommit n) = role n" "currentTerm (advanceCommit n) = currentTerm n"
  "votedFor (advanceCommit n) = votedFor n" "rlog (advanceCommit n) = rlog n"
  "lastApplied (advanceCommit n) = lastApplied n" "nextIndex (advanceCommit n) = nextIndex n"
  "matchIndex (advanceCommit n) = matchIndex n" "votesReceived (advanceCommit n) = votesReceived n"
  "storage (advanceCommit n) = storage n" "stopping (advanceCommit n) = stopping n"
  by (simp_all add: advanceCommit_def)

lemma lastLogIndex_simps [simp]:
  "lastLogIndex (resetElectionDeadline ck n) = lastLogIndex n" "lastLogTerm (resetElectionDeadline ck n) = lastLogTerm n"
  "lastLogIndex (becomeFollower ck t n) = lastLogIndex n" "lastLogTerm (becomeFollower ck t n) = lastLogTerm n"
  by (simp_all add: lastLogIndex_def lastLogTerm_def)

lemma persisted_save: "persisted n \<Longrightarrow> persisted (n\<lparr>currentTerm := t, votedFor := v, storage := saveMeta_done t v (storage n)\<rparr>)"
  by (simp add: persisted_def store.save_view store.save_invar)

lemma persisted_becomeFollower [simp]: "persisted n \<Longrightarrow> persisted (becomeFollower ck t n)"
  by (auto simp: persisted_def store.save_view store.save_invar max_def)

lemma persisted_push: "persisted n \<Longrightarrow> currentTerm n \<noteq> 0 \<Longrightarrow> fits_record e \<Longrightarrow> persisted (push_entry e n)"
  by (simp add: persisted_def store.app_view store.app_invar)

lemma persisted_pushes:
  assumes "persisted n" "currentTerm n \<noteq> 0" "\<forall>e \<in> set es. fits_record e"
  shows "persisted (fold push_entry es n)"
  using assms by (induction es arbitrary: n) (simp_all add: persisted_push)

lemma pushes_simps [simp]:
  "node_id (fold push_entry es n) = node_id n" "clusterSize (fold push_entry es n) = clusterSize n"
  "role (fold push_entry es n) = role n" "currentTerm (fold push_entry es n) = currentTerm n"
  "votedFor (fold push_entry es n) = votedFor n" "rlog (fold push_entry es n) = rlog n @ es"
  "commitIndex (fold push_entry es n) = commitIndex n" "lastApplied (fold push_entry es n) = lastApplied n"
  "nextIndex (fold push_entry es n) = nextIndex n" "matchIndex (fold push_entry es n) = matchIndex n"
  "stopping (fold push_entry es n) = stopping n"
  by (induction es arbitrary: n) simp_all

section \<open>Votes\<close>

lemma persisted_vote: "persisted n \<Longrightarrow> persisted (n\<lparr>votedFor := v, storage := saveMeta_done (currentTerm n) v (storage n)\<rparr>)"
  by (simp add: persisted_def store.save_view store.save_invar)

definition logOk :: "RequestVoteArgs \<Rightarrow> LogEntry list \<Rightarrow> bool" where
  "logOk args l \<longleftrightarrow> rv_lastLogTerm args > last_term l
     \<or> rv_lastLogTerm args = last_term l \<and> length l - 1 \<le> unat (rv_lastLogIndex args)"

lemma onRequestVote_frame:
  assumes "onRequestVote ck args n = (reply, n')"
  shows "node_id n' = node_id n" "clusterSize n' = clusterSize n" "rlog n' = rlog n"
    "commitIndex n' = commitIndex n" "lastApplied n' = lastApplied n" "nextIndex n' = nextIndex n"
    "matchIndex n' = matchIndex n" "currentTerm n' = max (currentTerm n) (rv_term args)"
    "role n' = (if currentTerm n < rv_term args then Follower else role n)"
    "rvr_term reply = currentTerm n'"
  using assms
  by (auto simp: onRequestVote_def Let_def max_def split: if_splits)

lemma onRequestVote_persisted:
  assumes "onRequestVote ck args n = (reply, n')" "persisted n"
  shows "persisted n'"
proof -
  let ?m = "if currentTerm n < rv_term args then becomeFollower ck (rv_term args) n else n"
  have "persisted ?m"
    using assms(2) by simp
  from persisted_vote [OF this, of "rv_candidateId args"] this assms show ?thesis
    by (auto simp: onRequestVote_def Let_def persisted_def split: if_splits)
qed

lemma onRequestVote_vote:
  assumes "onRequestVote ck args n = (reply, n')"
  shows "rvr_voteGranted reply \<Longrightarrow> currentTerm n' = rv_term args \<and> votedFor n' = rv_candidateId args
      \<and> (currentTerm n = rv_term args \<longrightarrow> votedFor n = -1 \<or> votedFor n = rv_candidateId args)"
    "\<not> rvr_voteGranted reply \<Longrightarrow> votedFor n' = (if currentTerm n < rv_term args then -1 else votedFor n)"
  using assms by (auto simp: onRequestVote_def Let_def max_def split: if_splits)

lemma onRequestVote_logOk:
  assumes "onRequestVote ck args n = (reply, n')" "wf_node N i n" "rvr_voteGranted reply"
  shows "logOk args (rlog n)"
  using assms(1,3) wf_node_log [OF assms(2)]
  by (auto simp: onRequestVote_def Let_def logOk_def word_le_nat_alt split: if_splits)

lemma onRequestVote_wf:
  assumes "onRequestVote ck args n = (reply, n')" "wf_node N i n"
  shows "wf_node N i n'"
  using assms(2) onRequestVote_frame [OF assms(1)] onRequestVote_persisted [OF assms(1)]
  by (auto simp: wf_node_def leader_view_def split: if_splits)

section \<open>Commitment\<close>

lemma commit_scan_cases:
  "commit_scan nd m = commitIndex nd \<or>
   commitIndex nd < commit_scan nd m \<and> commit_scan nd m \<le> m
     \<and> entry_term (rlog nd ! unat (commit_scan nd m)) = currentTerm nd
     \<and> majority nd \<le> replicas nd (commit_scan nd m)"
proof (induction nd m rule: commit_scan.induct)
  case (1 nd m)
  show ?case
  proof (cases "commitIndex nd < m \<and> entry_term (rlog nd ! unat m) = currentTerm nd \<and> \<not> majority nd \<le> replicas nd m")
    case True
    then have "m - 1 \<le> m"
      using unat_pred_less [of "commitIndex nd" m] by (simp add: word_le_nat_alt)
    with True 1 show ?thesis
      by (subst (1 2 3 4 5) commit_scan.simps) auto
  next
    case False
    then show ?thesis
      by (subst (1 2 3 4 5) commit_scan.simps) auto
  qed
qed

lemma advanceCommit_commit:
  assumes "role n = Leader"
  shows "commitIndex (advanceCommit n) = commitIndex n \<or>
    commitIndex n < commitIndex (advanceCommit n) \<and> commitIndex (advanceCommit n) \<le> lastLogIndex n
      \<and> entry_term (rlog n ! unat (commitIndex (advanceCommit n))) = currentTerm n
      \<and> majority n \<le> replicas n (commitIndex (advanceCommit n))"
  using assms commit_scan_cases [of n "lastLogIndex n"] by (simp add: advanceCommit_def)

lemma wf_node_majority:
  assumes "wf_node N i n"
  shows "unat (majority n) = N div 2 + 1"
proof -
  have "unat (clusterSize n div 2) = N div 2"
    using wf_node_ids(2) [OF assms] by (simp add: unat_div)
  moreover have "N div 2 + 1 < 2 ^ 32"
  proof -
    have "N < 2 ^ 31"
      using assms by (simp add: wf_node_def)
    with div_le_dividend [of N 2] have "N div 2 < 2 ^ 31"
      by (rule le_less_trans)
    then show ?thesis by simp
  qed
  ultimately show ?thesis
    by (simp add: majority_def unat_word_ariths)
qed

lemma replicas_quorum:
  assumes "wf_node N i n" "majority n \<le> replicas n m"
  shows "quorum N {p. p < N \<and> m \<le> matchIndex n ! p}"
proof -
  let ?P = "\<lambda>p. m \<le> matchIndex n ! p"
  have N: "N < 2 ^ 31" "unat (clusterSize n) = N"
    using assms(1) wf_node_ids(2) by (auto simp: wf_node_def)
  have "length (filter ?P [0..<N]) \<le> N"
    using length_filter_le [of ?P "[0..<N]"] by simp
  then have "unat (replicas n m) = length (filter ?P [0..<N])"
    using N unfolding replicas_def by (subst unat_of_nat_id) simp_all
  also have "\<dots> = card (set (filter ?P [0..<N]))"
    by (simp add: distinct_card [symmetric])
  also have "set (filter ?P [0..<N]) = {p. p < N \<and> ?P p}"
    by auto
  finally have "N div 2 + 1 \<le> card {p. p < N \<and> ?P p}"
    using assms(2) wf_node_majority [OF assms(1)] by (simp add: word_le_nat_alt)
  then show ?thesis
    by (auto simp: quorum_def)
qed

section \<open>Merging a batch into the log\<close>

lemma beyond_last:
  assumes "persisted n" "length (rlog n) < 2 ^ 64"
  shows "p > lastLogIndex n \<longleftrightarrow> length (rlog n) \<le> unat p"
proof -
  have "rlog n \<noteq> []"
    using assms(1) by (simp add: persisted_def)
  then obtain k where k: "length (rlog n) = Suc k"
    by (cases "rlog n") auto
  then have "unat (word_of_nat k :: u64) = k"
    using assms(2) by (intro unat_of_nat_id) simp
  with k show ?thesis
    by (auto simp: lastLogIndex_def word_less_nat_alt)
qed

lemma merge_scan_spec:
  assumes "merge_scan n p es = (n2, ys)" "persisted n" "length (rlog n) < 2 ^ 64"
    and "1 \<le> unat p" "unat p \<le> length (rlog n)" "unat p + length es < 2 ^ 64"
  shows "\<exists>k \<le> length es. ys = drop k es \<and> unat p + k \<le> length (rlog n)
    \<and> (\<forall>i<k. entry_term (rlog n ! (unat p + i)) = entry_term (es ! i))
    \<and> rlog n2 = (if k = length es then rlog n else take (unat p + k) (rlog n))
    \<and> (k < length es \<longrightarrow> unat p + k < length (rlog n)
        \<longrightarrow> entry_term (rlog n ! (unat p + k)) \<noteq> entry_term (es ! k))
    \<and> persisted n2 \<and> n2 = n\<lparr>storage := storage n2, rlog := rlog n2\<rparr>"
  using assms
proof (induction n p es rule: merge_scan.induct)
  case (1 n p)
  then show ?case by auto
next
  case (2 n p e es)
  have last: "p > lastLogIndex n \<longleftrightarrow> length (rlog n) \<le> unat p"
    using 2(3,4) by (rule beyond_last)
  consider (out) "length (rlog n) \<le> unat p"
    | (cut) "unat p < length (rlog n)" "entry_term (rlog n ! unat p) \<noteq> entry_term e"
    | (skip) "unat p < length (rlog n)" "entry_term (rlog n ! unat p) = entry_term e"
    by linarith
  then show ?case
  proof cases
    case out
    with 2 last show ?thesis by (intro exI [of _ 0]) auto
  next
    case cut
    then have n2: "n2 = n\<lparr>storage := truncate_done p (storage n), rlog := take (unat p) (rlog n)\<rparr>"
      and ys: "ys = e # es"
      using 2(2) last by auto
    moreover have "persisted n2"
      using 2(3,5) unfolding n2 persisted_def
      by (auto simp: store.trunc_view store.trunc_log store.trunc_invar take_Cons')
    ultimately show ?thesis
      using cut 2(6) by (intro exI [of _ 0]) auto
  next
    case skip
    have p: "unat (p + 1) = unat p + 1"
      using 2(7) by (simp add: unat_word_ariths)
    have "\<exists>k \<le> length es. ys = drop k es \<and> unat (p + 1) + k \<le> length (rlog n)
      \<and> (\<forall>i<k. entry_term (rlog n ! (unat (p + 1) + i)) = entry_term (es ! i))
      \<and> rlog n2 = (if k = length es then rlog n else take (unat (p + 1) + k) (rlog n))
      \<and> (k < length es \<longrightarrow> unat (p + 1) + k < length (rlog n)
          \<longrightarrow> entry_term (rlog n ! (unat (p + 1) + k)) \<noteq> entry_term (es ! k))
      \<and> persisted n2 \<and> n2 = n\<lparr>storage := storage n2, rlog := rlog n2\<rparr>"
    proof (rule 2(1))
      show "\<not> p > lastLogIndex n" "\<not> entry_term (rlog n ! unat p) \<noteq> entry_term e"
        using skip last by auto
      then show "merge_scan n (p + 1) es = (n2, ys)"
        using 2(2) by simp
    qed (use 2(3-7) skip p in simp_all)
    then obtain k where k: "k \<le> length es" "ys = drop k es" "unat p + 1 + k \<le> length (rlog n)"
        "\<forall>i<k. entry_term (rlog n ! (unat p + 1 + i)) = entry_term (es ! i)"
        "rlog n2 = (if k = length es then rlog n else take (unat p + 1 + k) (rlog n))"
        "k < length es \<longrightarrow> unat p + 1 + k < length (rlog n)
          \<longrightarrow> entry_term (rlog n ! (unat p + 1 + k)) \<noteq> entry_term (es ! k)"
        "persisted n2" "n2 = n\<lparr>storage := storage n2, rlog := rlog n2\<rparr>"
      unfolding p by blast
    have "\<forall>i < Suc k. entry_term (rlog n ! (unat p + i)) = entry_term ((e # es) ! i)"
      using k(4) skip(2) by (auto simp: less_Suc_eq_0_disj)
    with k show ?thesis
      by (intro exI [of _ "Suc k"]) auto
  qed
qed

text \<open>The node after the first part of \<^verbatim>\<open>onAppendEntries\<close>, which every request of a current term passes.\<close>

definition heard :: "clock \<Rightarrow> AppendEntriesArgs \<Rightarrow> RaftNode \<Rightarrow> RaftNode" where
  "heard ck args n =
     resetElectionDeadline ck
       ((if ae_term args > currentTerm n \<or> role n \<noteq> Follower then becomeFollower ck (ae_term args) n else n)
          \<lparr>leaderHint := ae_leaderId args\<rparr>)"

lemma heard_simps [simp]:
  "node_id (heard ck args n) = node_id n" "clusterSize (heard ck args n) = clusterSize n"
  "role (heard ck args n) = Follower" "currentTerm (heard ck args n) = max (currentTerm n) (ae_term args)"
  "votedFor (heard ck args n) = (if currentTerm n < ae_term args then -1 else votedFor n)"
  "rlog (heard ck args n) = rlog n" "commitIndex (heard ck args n) = commitIndex n"
  "lastApplied (heard ck args n) = lastApplied n" "nextIndex (heard ck args n) = nextIndex n"
  "matchIndex (heard ck args n) = matchIndex n" "stopping (heard ck args n) = stopping n"
  "lastLogIndex (heard ck args n) = lastLogIndex n"
  "storage (heard ck args n) = (if currentTerm n < ae_term args then saveMeta_done (ae_term args) (-1) (storage n) else storage n)"
  by (auto simp: heard_def max_def lastLogIndex_def)

lemma heard_wf:
  assumes "wf_node N i n"
  shows "wf_node N i (heard ck args n)"
  using assms by (auto simp: wf_node_def persisted_def store.save_view store.save_invar max_def)

lemma onAppendEntries_eq:
  "onAppendEntries ck args n =
     (if ae_term args < currentTerm n then
        (\<lparr>aer_term = currentTerm n, aer_success = False, aer_conflictIndex = 0\<rparr>, n)
      else if ae_prevLogIndex args > lastLogIndex n then
        (\<lparr>aer_term = currentTerm (heard ck args n), aer_success = False, aer_conflictIndex = lastLogIndex n + 1\<rparr>,
         heard ck args n)
      else if entry_term (rlog n ! unat (ae_prevLogIndex args)) \<noteq> ae_prevLogTerm args then
        (\<lparr>aer_term = currentTerm (heard ck args n), aer_success = False,
          aer_conflictIndex = conflict_walk (rlog n) (entry_term (rlog n ! unat (ae_prevLogIndex args)))
            (ae_prevLogIndex args)\<rparr>, heard ck args n)
      else
        let (m, ys) = merge_scan (heard ck args n) (ae_prevLogIndex args + 1) (ae_entries args);
            f = fold push_entry ys m;
            f = (if ae_leaderCommit args > commitIndex f
                 then f\<lparr>commitIndex := min (ae_leaderCommit args) (lastLogIndex f)\<rparr> else f)
        in (\<lparr>aer_term = currentTerm f, aer_success = True, aer_conflictIndex = 0\<rparr>, f))"
proof -
  have h: "resetElectionDeadline ck
       ((if ae_term args > currentTerm n \<or> role n \<noteq> Follower then becomeFollower ck (ae_term args) n else n)
          \<lparr>leaderHint := ae_leaderId args\<rparr>) = heard ck args n"
    by (simp only: heard_def)
  show ?thesis
    unfolding onAppendEntries_def Let_def h heard_simps by (rule refl)
qed

lemma onAppendEntries_cases:
  assumes "onAppendEntries ck args n = (reply, n')"
  obtains (old) "ae_term args < currentTerm n" "n' = n" "\<not> aer_success reply"
  | (refused) "currentTerm n \<le> ae_term args" "n' = heard ck args n" "\<not> aer_success reply"
      "aer_term reply = ae_term args"
  | (accepted) m ys where "currentTerm n \<le> ae_term args" "\<not> ae_prevLogIndex args > lastLogIndex n"
      "entry_term (rlog n ! unat (ae_prevLogIndex args)) = ae_prevLogTerm args"
      "merge_scan (heard ck args n) (ae_prevLogIndex args + 1) (ae_entries args) = (m, ys)"
      "n' = (fold push_entry ys m)\<lparr>commitIndex :=
         (if ae_leaderCommit args > commitIndex m
          then min (ae_leaderCommit args) (lastLogIndex (fold push_entry ys m)) else commitIndex m)\<rparr>"
      "aer_success reply" "aer_term reply = currentTerm n'"
proof -
  obtain m ys where ms: "merge_scan (heard ck args n) (ae_prevLogIndex args + 1) (ae_entries args) = (m, ys)"
    by (rule prod.exhaust)
  let ?f = "fold push_entry ys m"
  consider "ae_term args < currentTerm n"
    | "\<not> ae_term args < currentTerm n" "ae_prevLogIndex args > lastLogIndex n"
    | "\<not> ae_term args < currentTerm n" "\<not> ae_prevLogIndex args > lastLogIndex n"
        "entry_term (rlog n ! unat (ae_prevLogIndex args)) \<noteq> ae_prevLogTerm args"
    | "\<not> ae_term args < currentTerm n" "\<not> ae_prevLogIndex args > lastLogIndex n"
        "entry_term (rlog n ! unat (ae_prevLogIndex args)) = ae_prevLogTerm args"
    by blast
  then show thesis
  proof cases
    case 1
    then have "onAppendEntries ck args n =
        (\<lparr>aer_term = currentTerm n, aer_success = False, aer_conflictIndex = 0\<rparr>, n)"
      by (simp add: onAppendEntries_eq)
    then have "reply = \<lparr>aer_term = currentTerm n, aer_success = False, aer_conflictIndex = 0\<rparr>" "n' = n"
      using assms by simp_all
    then show thesis
      using old [OF 1] by simp
  next
    case 2
    then have "onAppendEntries ck args n =
        (\<lparr>aer_term = currentTerm (heard ck args n), aer_success = False,
          aer_conflictIndex = lastLogIndex n + 1\<rparr>, heard ck args n)"
      by (simp only: onAppendEntries_eq if_False if_True)
    then have "reply = \<lparr>aer_term = currentTerm (heard ck args n), aer_success = False,
          aer_conflictIndex = lastLogIndex n + 1\<rparr>" "n' = heard ck args n"
      using assms by simp_all
    then show thesis
      using refused 2(1) by (simp add: not_less max_def)
  next
    case 3
    then have "onAppendEntries ck args n =
        (\<lparr>aer_term = currentTerm (heard ck args n), aer_success = False,
          aer_conflictIndex = conflict_walk (rlog n) (entry_term (rlog n ! unat (ae_prevLogIndex args)))
            (ae_prevLogIndex args)\<rparr>, heard ck args n)"
      by (simp only: onAppendEntries_eq if_False if_True simp_thms)
    then have "\<not> aer_success reply" "aer_term reply = currentTerm (heard ck args n)" "n' = heard ck args n"
      using assms by (metis AppendEntriesReply.select_convs(1,2) prod.inject)+
    then show thesis
      using refused 3(1) by (simp add: not_less max_def)
  next
    case 4
    then have "onAppendEntries ck args n =
        (\<lparr>aer_term = currentTerm ?f, aer_success = True, aer_conflictIndex = 0\<rparr>,
         ?f\<lparr>commitIndex := (if ae_leaderCommit args > commitIndex m
           then min (ae_leaderCommit args) (lastLogIndex ?f) else commitIndex m)\<rparr>)"
      by (simp add: onAppendEntries_eq ms Let_def)
    then have "reply = \<lparr>aer_term = currentTerm ?f, aer_success = True, aer_conflictIndex = 0\<rparr>"
        "n' = ?f\<lparr>commitIndex := (if ae_leaderCommit args > commitIndex m
           then min (ae_leaderCommit args) (lastLogIndex ?f) else commitIndex m)\<rparr>"
      using assms by simp_all
    then show thesis
      using accepted [OF _ 4(2,3) ms] 4(1) by (simp add: not_less)
  qed
qed

section \<open>Leadership\<close>

lemma persisted_cong:
  "storage n' = storage n \<Longrightarrow> currentTerm n' = currentTerm n \<Longrightarrow> votedFor n' = votedFor n
   \<Longrightarrow> rlog n' = rlog n \<Longrightarrow> persisted n' = persisted n"
  by (simp add: persisted_def)

lemma becomeLeader_frame:
  assumes "becomeLeader n = (n', ths)"
  shows "node_id n' = node_id n" "clusterSize n' = clusterSize n" "role n' = Leader"
    "currentTerm n' = currentTerm n" "votedFor n' = votedFor n" "lastApplied n' = lastApplied n"
    "rlog n' = rlog n @ [\<lparr>entry_term = currentTerm n, entry_command = []\<rparr>]"
    "storage n' = append_done \<lparr>entry_term = currentTerm n, entry_command = []\<rparr> (storage n)"
    "nextIndex n' = replicate (length (nextIndex n)) (lastLogIndex n + 1)"
    "matchIndex n' = (replicate (length (matchIndex n)) 0)[unat (node_id n) := lastLogIndex n']"
    "ths = map (\<lambda>p. Replicator p (currentTerm n)) (peers n')"
    "stopping n' = stopping n"
  using assms by (auto simp: becomeLeader_def Let_def lastLogIndex_def peers_def)

lemma noop_fits [simp]: "fits_record \<lparr>entry_term = t, entry_command = []\<rparr>"
  by (simp add: fits_record_def)

lemma snoc_last:
  assumes "rlog n' = l @ [e]" "length l + 1 < 2 ^ 64"
  shows "unat (lastLogIndex n') = length l"
  using assms unat_of_nat_id [of "length l", where 'a = 64] by (simp add: lastLogIndex_def)

lemma becomeLeader_wf:
  assumes "becomeLeader n = (n', ths)" "wf_node N i n" "length (rlog n) + 1 < 2 ^ 64" "currentTerm n \<noteq> 0"
  shows "wf_node N i n'"
proof -
  note f = becomeLeader_frame [OF assms(1)]
  have last: "unat (lastLogIndex n') = length (rlog n)"
    by (rule snoc_last [OF f(7) assms(3)])
  have "persisted n'"
    using assms(2,4) persisted_push [of n "\<lparr>entry_term = currentTerm n, entry_command = []\<rparr>"]
    by (simp add: f wf_node_def persisted_def)
  moreover have "leader_view N n'"
    unfolding leader_view_def
  proof (intro allI impI)
    fix p
    assume "p < N"
    then have "nextIndex n' ! p = lastLogIndex n + 1" "unat (matchIndex n' ! p) \<le> length (rlog n)"
      using assms(2) wf_node_ids(1) [OF assms(2)] last by (auto simp: f(9,10) wf_node_def nth_list_update)
    then show "0 < unat (nextIndex n' ! p) \<and> unat (nextIndex n' ! p) \<le> length (rlog n')
        \<and> unat (matchIndex n' ! p) < length (rlog n')"
      using wf_node_log(1,4) [OF assms(2)] by (simp add: f(7))
  qed
  ultimately show ?thesis
    using assms(2-4) by (simp add: wf_node_def f)
qed

lemma list_update_bound:
  assumes "\<forall>p < length xs. unat (xs ! p) < b" "unat v < b" "p < length xs"
  shows "unat (xs[j := v] ! p) < b"
  using assms by (cases "j = p") simp_all

lemma submit_cases:
  assumes "submit cmd n = (r, n')"
  obtains (rejected) "stopping n \<or> role n \<noteq> Leader" "n' = n" "\<not> sr_isLeader r"
  | (appended) m where "\<not> stopping n" "role n = Leader" "sr_isLeader r"
      "m = (push_entry \<lparr>entry_term = currentTerm n, entry_command = cmd\<rparr> n)"
      "n' = advanceCommit (m\<lparr>matchIndex := (matchIndex m)[unat (node_id m) := lastLogIndex m]\<rparr>)"
      "sr_index r = lastLogIndex n'" "sr_term r = currentTerm n"
proof (cases "stopping n \<or> role n \<noteq> Leader")
  case True
  with assms have "r = \<lparr>sr_isLeader = False, sr_leaderHint = leaderHint n, sr_index = 0, sr_term = 0\<rparr>" "n' = n"
    by (auto simp: submit_def)
  then show thesis
    using rejected [OF True] by simp
next
  case False
  define m where "m = push_entry \<lparr>entry_term = currentTerm n, entry_command = cmd\<rparr> n"
  let ?f = "advanceCommit (m\<lparr>matchIndex := (matchIndex m)[unat (node_id m) := lastLogIndex m]\<rparr>)"
  have "submit cmd n = (\<lparr>sr_isLeader = True, sr_leaderHint = node_id ?f, sr_index = lastLogIndex ?f,
      sr_term = currentTerm ?f\<rparr>, ?f)"
    using False by (simp add: submit_def Let_def m_def)
  then have "r = \<lparr>sr_isLeader = True, sr_leaderHint = node_id ?f, sr_index = lastLogIndex ?f,
      sr_term = currentTerm ?f\<rparr>" "n' = ?f"
    using assms by simp_all
  then show thesis
    using appended [OF _ _ _ m_def] False by (simp add: m_def)
qed

lemma submit_wf:
  assumes "submit cmd n = (r, n')" "wf_node N i n" "length (rlog n) + 1 < 2 ^ 64" "length cmd + 20 < 2 ^ 32"
  shows "wf_node N i n'"
  using assms(1)
proof (cases rule: submit_cases)
  case rejected
  with assms(2) show ?thesis by simp
next
  case (appended m)
  let ?e = "\<lparr>entry_term = currentTerm n, entry_command = cmd\<rparr>"
  have last: "unat (lastLogIndex m) = length (rlog n)"
    using snoc_last [of m "rlog n" ?e] assms(3) appended(4) by simp
  have "persisted m"
    using assms(2,4) persisted_push [of n ?e] appended(2) by (simp add: appended(4) wf_node_def fits_record_def)
  then have "persisted n'"
    unfolding appended(5) by (simp add: persisted_def)
  moreover have "leader_view N n'"
    unfolding leader_view_def
  proof (intro allI impI)
    fix p
    assume "p < N"
    have old: "\<forall>p<N. 0 < unat (nextIndex n ! p) \<and> unat (nextIndex n ! p) \<le> length (rlog n)
        \<and> unat (matchIndex n ! p) < length (rlog n)" "length (matchIndex n) = N"
      using assms(2) appended(2) by (auto simp: wf_node_def leader_view_def)
    have "unat ((matchIndex n)[unat (node_id m) := lastLogIndex m] ! p) < Suc (length (rlog n))"
      using old \<open>p < N\<close> last by (intro list_update_bound) (auto intro: less_SucI)
    with old \<open>p < N\<close> show "0 < unat (nextIndex n' ! p) \<and> unat (nextIndex n' ! p) \<le> length (rlog n')
        \<and> unat (matchIndex n' ! p) < length (rlog n')"
      by (simp add: appended(4,5) le_SucI)
  qed
  ultimately show ?thesis
    using assms(2,3) appended(2) by (simp add: wf_node_def appended(4,5))
qed

section \<open>Followers\<close>

text \<open>What is asked of a request: its entries fit into log records and its last index into 64 bits.\<close>

definition sound_batch :: "AppendEntriesArgs \<Rightarrow> bool" where
  "sound_batch args \<longleftrightarrow> (\<forall>e \<in> set (ae_entries args). fits_record e)
     \<and> unat (ae_prevLogIndex args) + length (ae_entries args) + 1 < 2 ^ 64"

text \<open>
  The first \<open>k\<close> entries of the batch match the log; if there are more, the log ends there or is cut
  there.
\<close>

definition merge_point :: "LogEntry list \<Rightarrow> nat \<Rightarrow> LogEntry list \<Rightarrow> nat \<Rightarrow> bool" where
  "merge_point l p es k \<longleftrightarrow> k \<le> length es \<and> p + k \<le> length l
     \<and> (\<forall>i<k. entry_term (l ! (p + i)) = entry_term (es ! i))
     \<and> (k < length es \<longrightarrow> p + k < length l \<longrightarrow> entry_term (l ! (p + k)) \<noteq> entry_term (es ! k))"

lemma merge_scan_heard:
  assumes "wf_node N i n" "sound_batch args" "\<not> ae_prevLogIndex args > lastLogIndex n"
    and "merge_scan (heard ck args n) (ae_prevLogIndex args + 1) (ae_entries args) = (m, ys)"
  shows "\<exists>k. merge_point (rlog n) (unat (ae_prevLogIndex args) + 1) (ae_entries args) k
    \<and> ys = drop k (ae_entries args)
    \<and> rlog m = (if k = length (ae_entries args) then rlog n else take (unat (ae_prevLogIndex args) + 1 + k) (rlog n))
    \<and> persisted m \<and> m = (heard ck args n)\<lparr>storage := storage m, rlog := rlog m\<rparr>"
proof -
  let ?p = "ae_prevLogIndex args"
  have wf: "persisted (heard ck args n)" "persisted n" "length (rlog n) < 2 ^ 64"
    using assms(1) heard_wf [OF assms(1), of ck args] by (auto simp: wf_node_def)
  have p: "unat ?p < length (rlog n)"
    using assms(3) beyond_last [OF wf(2,3), of ?p] by simp
  have p1: "unat (?p + 1) = unat ?p + 1"
    using assms(2) by (simp add: sound_batch_def unat_word_ariths)
  have "\<exists>k \<le> length (ae_entries args). ys = drop k (ae_entries args) \<and> unat (?p + 1) + k \<le> length (rlog (heard ck args n))
    \<and> (\<forall>i<k. entry_term (rlog (heard ck args n) ! (unat (?p + 1) + i)) = entry_term (ae_entries args ! i))
    \<and> rlog m = (if k = length (ae_entries args) then rlog (heard ck args n) else take (unat (?p + 1) + k) (rlog (heard ck args n)))
    \<and> (k < length (ae_entries args) \<longrightarrow> unat (?p + 1) + k < length (rlog (heard ck args n))
        \<longrightarrow> entry_term (rlog (heard ck args n) ! (unat (?p + 1) + k)) \<noteq> entry_term (ae_entries args ! k))
    \<and> persisted m \<and> m = (heard ck args n)\<lparr>storage := storage m, rlog := rlog m\<rparr>"
    using assms(2) wf p by (intro merge_scan_spec [OF assms(4)]) (simp_all add: p1 sound_batch_def)
  then show ?thesis
    unfolding p1 heard_simps merge_point_def by blast
qed

lemma wf_node_follower:
  assumes "wf_node N i h" "role n = Follower" "persisted n" "length (rlog n) < 2 ^ 64"
    and "node_id n = node_id h" "clusterSize n = clusterSize h" "nextIndex n = nextIndex h" "matchIndex n = matchIndex h"
  shows "wf_node N i n"
  using assms by (simp add: wf_node_def)

lemma merge_frame:
  assumes "m = h\<lparr>storage := s, rlog := l\<rparr>"
  shows "node_id m = node_id h" "clusterSize m = clusterSize h" "nextIndex m = nextIndex h"
    "matchIndex m = matchIndex h" "role m = role h" "currentTerm m = currentTerm h" "votedFor m = votedFor h"
    "commitIndex m = commitIndex h" "lastApplied m = lastApplied h" "stopping m = stopping h"
  by (simp_all add: assms)

lemma merged_persisted:
  assumes "persisted m" "currentTerm m \<noteq> 0" "sound_batch args" "ys = drop k (ae_entries args)"
  shows "persisted (fold push_entry ys m)"
  using assms by (intro persisted_pushes) (auto simp: sound_batch_def dest: in_set_dropD)

text \<open>The log a follower has after merging a batch, and after a crash that interrupts the merge.\<close>

definition merged :: "LogEntry list \<Rightarrow> nat \<Rightarrow> LogEntry list \<Rightarrow> nat \<Rightarrow> nat \<Rightarrow> LogEntry list" where
  "merged l p es k j = (if k = length es then l else take (p + k) l @ take j (drop k es))"

lemma length_merged:
  "merge_point l p es k \<Longrightarrow> length (merged l p es k j) \<le> max (length l) (p + length es)"
  by (auto simp: merged_def merge_point_def)

lemma accepted_frame:
  assumes "wf_node N i n" "sound_batch args" "\<not> ae_prevLogIndex args > lastLogIndex n"
    and "merge_scan (heard ck args n) (ae_prevLogIndex args + 1) (ae_entries args) = (m, ys)"
  obtains k where "merge_point (rlog n) (unat (ae_prevLogIndex args) + 1) (ae_entries args) k"
    "ys = drop k (ae_entries args)"
    "\<And>j. rlog (fold push_entry (take j ys) m) = merged (rlog n) (unat (ae_prevLogIndex args) + 1) (ae_entries args) k j"
    "\<And>j. ae_term args \<noteq> 0 \<Longrightarrow> wf_node N i (fold push_entry (take j ys) m)"
    "role m = Follower" "currentTerm m = max (currentTerm n) (ae_term args)"
    "votedFor m = (if currentTerm n < ae_term args then -1 else votedFor n)"
    "commitIndex m = commitIndex n" "lastApplied m = lastApplied n"
proof -
  let ?p = "unat (ae_prevLogIndex args) + 1" and ?es = "ae_entries args"
  obtain k where k: "merge_point (rlog n) ?p ?es k" "ys = drop k ?es"
      "rlog m = (if k = length ?es then rlog n else take (?p + k) (rlog n))"
      "persisted m" and m: "m = (heard ck args n)\<lparr>storage := storage m, rlog := rlog m\<rparr>"
    using merge_scan_heard [OF assms] by blast
  note f = merge_frame [OF m, unfolded heard_simps]
  have log: "rlog (fold push_entry (take j ys) m) = merged (rlog n) ?p ?es k j" for j
    using k(2,3) by (simp add: merged_def)
  moreover have "wf_node N i (fold push_entry (take j ys) m)" if "ae_term args \<noteq> 0" for j
  proof (rule wf_node_follower [OF assms(1)])
    show "persisted (fold push_entry (take j ys) m)"
      using assms(2) k(2,4) that f(6)
      by (intro persisted_pushes) (auto simp: sound_batch_def max_def dest!: in_set_takeD in_set_dropD)
    have "max (length (rlog n)) (?p + length ?es) < 2 ^ 64"
      using assms(1,2) by (simp add: wf_node_def sound_batch_def)
    then show "length (rlog (fold push_entry (take j ys) m)) < 2 ^ 64"
      unfolding log using length_merged [OF k(1), of j] by linarith
  qed (simp_all add: f)
  ultimately show thesis
    using that k(1,2) f by simp
qed

lemma onAppendEntries_wf:
  assumes "onAppendEntries ck args n = (reply, n')" "wf_node N i n" "sound_batch args" "ae_term args \<noteq> 0"
  shows "wf_node N i n'"
  using assms(1)
proof (cases rule: onAppendEntries_cases)
  case old
  with assms(2) show ?thesis by simp
next
  case refused
  with heard_wf [OF assms(2)] show ?thesis by simp
next
  case (accepted m ys)
  obtain k where "\<And>j. wf_node N i (fold push_entry (take j ys) m)"
    using accepted_frame [OF assms(2,3) accepted(2,4)] assms(4) by metis
  from this [of "length ys"] have "wf_node N i (fold push_entry ys m)"
    by simp
  then show ?thesis
    unfolding accepted(5) by simp
qed

section \<open>The threads of a node\<close>

lemma becomeFollower_wf:
  assumes "wf_node N i n"
  shows "wf_node N i (becomeFollower ck t n)"
  using assms by (simp add: wf_node_def)

text \<open>The candidate that \<^verbatim>\<open>startElection\<close> makes of a node.\<close>

definition candidate_of :: "RaftNode \<Rightarrow> RaftNode \<Rightarrow> bool" where
  "candidate_of n c \<longleftrightarrow> role c = Candidate \<and> currentTerm c = currentTerm n + 1 \<and> votedFor c = node_id n
     \<and> rlog c = rlog n \<and> votesReceived c = 1 \<and> node_id c = node_id n \<and> clusterSize c = clusterSize n
     \<and> nextIndex c = nextIndex n \<and> matchIndex c = matchIndex n \<and> commitIndex c = commitIndex n
     \<and> lastApplied c = lastApplied n
     \<and> storage c = saveMeta_done (currentTerm n + 1) (node_id n) (storage n)"

lemma startElection_cases:
  assumes "startElection ck n = (n', ths)"
  obtains (alone) c where "candidate_of n c" "majority n \<le> 1" "becomeLeader c = (n', ths)"
  | (asking) "candidate_of n n'" "\<not> majority n \<le> 1"
      "ths = map (\<lambda>p. VoteSender p \<lparr>rv_term = currentTerm n + 1, rv_candidateId = node_id n,
          rv_lastLogIndex = lastLogIndex n, rv_lastLogTerm = lastLogTerm n\<rparr>) (peers n)"
proof -
  let ?c = "resetElectionDeadline ck (n\<lparr>role := Candidate, currentTerm := currentTerm n + 1, votedFor := node_id n,
    storage := saveMeta_done (currentTerm n + 1) (node_id n) (storage n), leaderHint := -1, votesReceived := 1\<rparr>)"
  have same: "majority ?c = majority n" "peers ?c = peers n" "lastLogIndex ?c = lastLogIndex n"
      "lastLogTerm ?c = lastLogTerm n"
    by (simp_all add: majority_def peers_def lastLogIndex_def lastLogTerm_def)
  have c: "candidate_of n ?c"
    by (simp add: candidate_of_def)
  show thesis
  proof (cases "majority n \<le> 1")
    case True
    then have "startElection ck n = becomeLeader ?c"
      using same by (simp add: startElection_def Let_def)
    with assms True c alone show thesis by simp
  next
    case False
    then have "startElection ck n = (?c, map (\<lambda>p. VoteSender p \<lparr>rv_term = currentTerm n + 1,
        rv_candidateId = node_id n, rv_lastLogIndex = lastLogIndex n, rv_lastLogTerm = lastLogTerm n\<rparr>) (peers n))"
      using same by (simp add: startElection_def Let_def)
    with assms False c asking show thesis by auto
  qed
qed

lemma next_term: "room n \<Longrightarrow> currentTerm n + 1 \<noteq> 0"
  by (metis eq_neg_iff_add_eq_0 order_less_irrefl room_def)

lemma candidate_wf:
  assumes "wf_node N i n" "candidate_of n c" "room n"
  shows "wf_node N i c"
  using assms next_term [OF assms(3)] by (auto simp: wf_node_def persisted_def candidate_of_def store.save_view store.save_invar)

lemma startElection_wf:
  assumes "startElection ck n = (n', ths)" "wf_node N i n" "room n"
  shows "wf_node N i n'"
  using assms(1)
proof (cases rule: startElection_cases)
  case (alone c)
  then show ?thesis
    using becomeLeader_wf [OF alone(3) candidate_wf [OF assms(2) _ assms(3)]] assms(3) next_term [OF assms(3)]
    by (simp add: room_def candidate_of_def)
next
  case asking
  then show ?thesis
    using candidate_wf [OF assms(2) _ assms(3)] by simp
qed

lemma tickerLoop_wf:
  assumes "tickerLoop ck n = (n', ths)" "wf_node N i n" "room n"
  shows "wf_node N i n'"
  using assms startElection_wf by (auto simp: tickerLoop_def split: if_splits)

lemma voteSender_cases:
  assumes "voteSender ck args reply n = (n', ths)"
  obtains (ignored) "n' = n" "ths = []"
  | (deposed) u where "n' = becomeFollower ck u n" "ths = []" "currentTerm n < u"
  | (counted) r where "reply = Some r" "role n = Candidate" "currentTerm n = rv_term args" "rvr_voteGranted r"
      "votesReceived n + 1 < majority n" "n' = n\<lparr>votesReceived := votesReceived n + 1\<rparr>" "ths = []"
  | (won) r where "reply = Some r" "role n = Candidate" "currentTerm n = rv_term args" "rvr_voteGranted r"
      "majority n \<le> votesReceived n + 1"
      "becomeLeader (n\<lparr>votesReceived := votesReceived n + 1\<rparr>) = (n', ths)"
proof -
  have maj: "majority (n\<lparr>votesReceived := votesReceived n + 1\<rparr>) = majority n"
    by (simp add: majority_def)
  show thesis
  proof (cases reply)
    case None
    with assms show thesis
      by (intro ignored) (auto simp: voteSender_def)
  next
    case (Some r)
    note eq = assms [unfolded Some voteSender_def Let_def option.case maj]
    consider "stopping n"
      | "\<not> stopping n" "currentTerm n < rvr_term r"
      | "\<not> stopping n" "\<not> currentTerm n < rvr_term r"
          "role n \<noteq> Candidate \<or> currentTerm n \<noteq> rv_term args \<or> \<not> rvr_voteGranted r"
      | "\<not> stopping n" "\<not> currentTerm n < rvr_term r" "role n = Candidate" "currentTerm n = rv_term args"
          "rvr_voteGranted r"
      by blast
    then show thesis
    proof cases
      case 4
      show thesis
      proof (cases "majority n \<le> votesReceived n + 1")
        case True
        with 4 eq Some won show thesis by simp
      next
        case False
        with 4 eq have "n' = n\<lparr>votesReceived := votesReceived n + 1\<rparr>" "ths = []"
          by auto
        with 4 False Some counted show thesis by (simp add: not_le)
      qed
    qed (use eq ignored deposed in auto)
  qed
qed

lemma voteSender_wf:
  assumes "voteSender ck args reply n = (n', ths)" "wf_node N i n" "room n"
  shows "wf_node N i n'"
  using assms(1)
proof (cases rule: voteSender_cases)
  case (won r)
  then show ?thesis
    using becomeLeader_wf [OF won(6)] assms(2,3) wf_node_term [OF assms(2)] by (simp add: room_def)
qed (use assms(2) in \<open>auto intro: becomeFollower_wf\<close>)

lemma replicator_reply_cases:
  assumes "replicator_reply ck peer t args reply n = n'"
  obtains (ignored) "n' = n"
  | (deposed) u where "n' = becomeFollower ck u n" "currentTerm n < u"
  | (matched) r m where "role n = Leader" "currentTerm n = t" "reply = Some r" "aer_term r = t" "aer_success r"
      "m = max (matchIndex n ! unat peer) (ae_prevLogIndex args + word_of_nat (length (ae_entries args)))"
      "n' = advanceCommit (n\<lparr>matchIndex := (matchIndex n)[unat peer := m],
         nextIndex := (nextIndex n)[unat peer := (matchIndex n)[unat peer := m] ! unat peer + 1]\<rparr>)"
  | (backed_up) r where "role n = Leader" "currentTerm n = t" "reply = Some r" "aer_term r = t" "\<not> aer_success r"
      "n' = n\<lparr>nextIndex := (nextIndex n)[unat peer := min (max (aer_conflictIndex r) 1) (lastLogIndex n + 1)]\<rparr>"
proof (cases "stopping n \<or> role n \<noteq> Leader \<or> currentTerm n \<noteq> t \<or> reply = None")
  case True
  with assms show thesis
    by (intro ignored) (auto simp: replicator_reply_def split: option.splits)
next
  case False
  then obtain r where r: "reply = Some r" "role n = Leader" "currentTerm n = t" "\<not> stopping n"
    by auto
  note eq = assms [unfolded replicator_reply_def r(1) Let_def option.case]
  consider "currentTerm n < aer_term r" | "aer_term r < currentTerm n"
    | "aer_term r = currentTerm n" "aer_success r" | "aer_term r = currentTerm n" "\<not> aer_success r"
    by (cases "aer_term r" "currentTerm n" rule: linorder_cases) auto
  then show thesis
  proof cases
    case 1
    with eq r deposed [of "aer_term r"] show thesis by simp
  next
    case 2
    with eq r ignored show thesis by (auto simp: less_not_sym)
  next
    case 3
    with eq r show thesis
      by (intro matched) auto
  next
    case 4
    with eq r show thesis
      by (intro backed_up) auto
  qed
qed

lemma replicator_reply_wf:
  assumes "replicator_reply ck (word_of_nat p) t args reply n = n'" "wf_node N i n" "p < N"
    and "role n = Leader \<Longrightarrow> currentTerm n = t \<Longrightarrow>
      unat (ae_prevLogIndex args) + length (ae_entries args) < length (rlog n)"
  shows "wf_node N i n'"
proof -
  have p: "unat (word_of_nat p :: u32) = p"
    using assms(2,3) by (intro unat_of_nat_id) (simp add: wf_node_def)
  have len: "length (rlog n) < 2 ^ 64" "length (matchIndex n) = N" "length (nextIndex n) = N"
    using assms(2) by (auto simp: wf_node_def)
  have view: "\<forall>q<N. 0 < unat (nextIndex n ! q) \<and> unat (nextIndex n ! q) \<le> length (rlog n)
      \<and> unat (matchIndex n ! q) < length (rlog n)" if "role n = Leader"
    using assms(2) that by (simp add: wf_node_def leader_view_def)
  show ?thesis
    using assms(1)
  proof (cases rule: replicator_reply_cases)
    case ignored
    with assms(2) show ?thesis by simp
  next
    case (deposed u)
    with becomeFollower_wf [OF assms(2)] show ?thesis by simp
  next
    case (matched r m)
    have "unat (ae_prevLogIndex args) + length (ae_entries args) < 2 ^ 64"
      using assms(4) [OF matched(1,2)] len(1) by simp
    then have "unat (ae_prevLogIndex args + word_of_nat (length (ae_entries args)))
        = unat (ae_prevLogIndex args) + length (ae_entries args)"
      using unat_of_nat_id [of "length (ae_entries args)", where 'a = 64] by (simp add: unat_word_ariths)
    then have m: "unat m < length (rlog n)"
      using assms(4) [OF matched(1,2)] view [OF matched(1)] assms(3) by (simp add: matched(6) p max_def)
    then have "unat (m + 1) = unat m + 1"
      using len(1) by (simp add: unat_word_ariths)
    with m view [OF matched(1)] assms(2,3) len show ?thesis
      by (auto simp: matched(7) p wf_node_def persisted_def leader_view_def nth_list_update)
  next
    case (backed_up r)
    let ?h = "min (max (aer_conflictIndex r) 1) (lastLogIndex n + 1)"
    have "0 < unat ?h" "unat ?h \<le> length (rlog n)"
      using wf_node_log(1,4) [OF assms(2)]
      by (auto simp: min_def max_def word_le_nat_alt unat_gt_0)
    with view [OF backed_up(1)] assms(2,3) len show ?thesis
      by (auto simp: backed_up(6) p wf_node_def persisted_def leader_view_def nth_list_update)
  qed
qed

section \<open>Start and restart\<close>

lemma RaftNode_new_simps [simp]:
  "node_id (RaftNode_new i sz s cfg) = i" "clusterSize (RaftNode_new i sz s cfg) = sz"
  "role (RaftNode_new i sz s cfg) = Follower" "currentTerm (RaftNode_new i sz s cfg) = s_currentTerm s"
  "votedFor (RaftNode_new i sz s cfg) = s_votedFor s" "rlog (RaftNode_new i sz s cfg) = sentinel # s_entries s"
  "commitIndex (RaftNode_new i sz s cfg) = 0" "lastApplied (RaftNode_new i sz s cfg) = 0"
  "storage (RaftNode_new i sz s cfg) = s"
  by (simp_all add: RaftNode_new_def)

lemma RaftNode_new_wf:
  assumes "dependable s" "length (s_entries s) + 1 < 2 ^ 64" "i < N" "N < 2 ^ 31"
  shows "wf_node N i (RaftNode_new (word_of_nat i) (word_of_nat N) s cfg)"
  using assms unat_of_nat_id [of N, where 'a = 32]
  by (simp add: wf_node_def persisted_def RaftNode_new_def)

text \<open>What a restart makes of a node whose storage has survived: same identity, term, vote and log.\<close>

lemma restart_wf:
  assumes "dependable s" "wf_node N i n" "length (s_entries s) < length (rlog n)"
  shows "wf_node N i (start ck (RaftNode_new (node_id n) (clusterSize n) s cfg))"
proof -
  have "node_id n = word_of_nat i" "clusterSize n = word_of_nat N" "i < N" "N < 2 ^ 31"
      "length (s_entries s) + 1 < 2 ^ 64"
    using assms(2,3) by (simp_all add: wf_node_def)
  then show ?thesis
    using RaftNode_new_wf [OF assms(1)] by (simp add: start_def)
qed

end
