(* ===== verification/Transport.thy ===== *)
theory Transport
  imports Net RaftFacts
begin

text \<open>
  The transport (\<^verbatim>\<open>include/dkvs/transport.hpp\<close>, \<^verbatim>\<open>src/transport.cpp\<close>): one connection per call. What
  \<^verbatim>\<open>net::tcpConnect\<close> makes of an address is a parameter: no connection, or one with the events of its
  two directions.
\<close>

section \<open>Calls\<close>

type_synonym network = "Address \<Rightarrow> (tx list \<times> rx list) option"

record TcpTransport =
  peerAddrs :: "Address list"
  connectTimeoutMs :: int
  ioTimeoutMs :: int

definition TcpTransport_new :: "Address list \<Rightarrow> TcpTransport" where
  "TcpTransport_new addrs = \<lparr>peerAddrs = addrs, connectTimeoutMs = 250, ioTimeoutMs = 1000\<rparr>"

definition call :: "network \<Rightarrow> TcpTransport \<Rightarrow> u32 \<Rightarrow> string \<Rightarrow> string option" where
  "call net tr peer request =
     (if unat peer \<ge> length (peerAddrs tr) then None
      else case net (peerAddrs tr ! unat peer) of
        None \<Rightarrow> None
      | Some (ts, es) \<Rightarrow>
          let (ok, w, ts) = sendFrame request ts
          in if ok then fst (recvFrame es) else None)"

definition requestVote :: "network \<Rightarrow> TcpTransport \<Rightarrow> u32 \<Rightarrow> RequestVoteArgs \<Rightarrow> RequestVoteReply option" where
  "requestVote net tr peer args =
     (case call net tr peer (RequestVoteArgs_encode args) of
        None \<Rightarrow> None | Some raw \<Rightarrow> RequestVoteReply_decode raw)"

definition appendEntries :: "network \<Rightarrow> TcpTransport \<Rightarrow> u32 \<Rightarrow> AppendEntriesArgs \<Rightarrow> AppendEntriesReply option" where
  "appendEntries net tr peer args =
     (case call net tr peer (AppendEntriesArgs_encode args) of
        None \<Rightarrow> None | Some raw \<Rightarrow> AppendEntriesReply_decode raw)"

section \<open>Properties\<close>

lemma call_reply:
  assumes "unat peer < length (peerAddrs tr)" "net (peerAddrs tr ! unat peer) = Some (ts, es)"
    and "sendFrame request ts = (True, w, ts')" "length reply \<le> 67108864" "delivers es (frame reply @ rem)"
  shows "call net tr peer request = Some reply"
proof -
  obtain es' where "recvFrame es = (Some reply, es')"
    using recvFrame_complete [OF assms(4,5)] by blast
  with assms(1-3) show ?thesis
    by (simp add: call_def)
qed

lemma encode_length:
  "length (AppendEntriesArgs_encode args) = 41 + (\<Sum>e \<leftarrow> ae_entries args. 12 + length (entry_command e))"
proof -
  have "length (concat (map LogEntry_bytes es)) = (\<Sum>e \<leftarrow> es. 12 + length (entry_command e))" for es
    by (induction es) (simp_all add: LogEntry_bytes_def)
  then show ?thesis
    by (simp add: AppendEntriesArgs_encode_eq)
qed

text \<open>
  C35: a batch is bounded in entries but not in bytes. When the entries a leader has to send take more
  than 64 MiB together, the frame is refused by the peer's \<^verbatim>\<open>recvFrame\<close> whatever the network does, the
  call returns nothing, and the replicator builds the same request again: the peer is never caught up.
\<close>

theorem oversized_batch_stuck:
  assumes "replicator_send peer t n = Some args"
    and "67108864 < 41 + (\<Sum>e \<leftarrow> ae_entries args. 12 + length (entry_command e))"
    and "41 + (\<Sum>e \<leftarrow> ae_entries args. 12 + length (entry_command e)) < 2 ^ 32"
    and "sendFrame (AppendEntriesArgs_encode args) ts = (True, w, ts')" "delivers es (w @ rem)"
  shows "fst (recvFrame es) = None \<and> replicator_send peer t (replicator_reply ck peer t args None n) = Some args"
proof -
  have "fst (recvFrame es) = None"
    by (rule frame_refused [where payload = "AppendEntriesArgs_encode args" and rem = rem])
      (use assms(2,3,5) sendFrame_bytes [OF assms(4)] in \<open>simp_all add: encode_length\<close>)
  moreover have "replicator_reply ck peer t args None n = n"
    by (simp add: replicator_reply_def)
  ultimately show ?thesis
    using assms(1) by simp
qed

definition heavy :: RaftNode where
  "heavy = (RaftNode_new 0 3 fresh_Storage
      \<lparr>heartbeatInterval = 50, electionTimeoutMin = 150, electionTimeoutMax = 300, tickInterval = 10\<rparr>)
     \<lparr>role := Leader, currentTerm := 1,
      rlog := [sentinel, \<lparr>entry_term = 1, entry_command = replicate 40000000 (CHR ''x'')\<rparr>,
               \<lparr>entry_term = 1, entry_command = replicate 40000000 (CHR ''y'')\<rparr>]\<rparr>"

theorem oversized_batch_stuck_witness:
  "\<exists>args w. replicator_send 1 1 heavy = Some args \<and> sendFrame (AppendEntriesArgs_encode args) [Sent 4, Sent 90000000] = (True, w, [])
     \<and> fst (recvFrame [Avail w]) = None"
proof -
  let ?a = "\<lparr>entry_term = 1, entry_command = replicate 40000000 (CHR ''x'')\<rparr>"
    and ?b = "\<lparr>entry_term = 1, entry_command = replicate 40000000 (CHR ''y'')\<rparr>"
  let ?args = "\<lparr>ae_term = 1, ae_leaderId = 0, ae_prevLogIndex = 0, ae_prevLogTerm = 0, ae_leaderCommit = 0,
    ae_entries = [?a, ?b]\<rparr>"
  have send: "replicator_send 1 1 heavy = Some ?args"
    by (simp add: replicator_send_def heavy_def RaftNode_new_def kMaxBatch_def)
  have len: "length (AppendEntriesArgs_encode ?args) = 80000065"
    by (simp add: encode_length)
  then have "AppendEntriesArgs_encode ?args \<noteq> []"
    by auto
  then obtain x xs where "AppendEntriesArgs_encode ?args = x # xs"
    by (meson neq_Nil_conv)
  with len have out: "sendFrame (AppendEntriesArgs_encode ?args) [Sent 4, Sent 90000000]
      = (True, frame (AppendEntriesArgs_encode ?args), [])"
    by (simp add: sendFrame_def frame_def codec_simps be32_def)
  have "delivers [Avail (frame (AppendEntriesArgs_encode ?args))] (frame (AppendEntriesArgs_encode ?args) @ [])"
    by (simp add: delivers_def frame_def be32_def)
  from oversized_batch_stuck [OF send _ _ out this] send out show ?thesis
    by (intro exI [of _ ?args] exI [of _ "frame (AppendEntriesArgs_encode ?args)"]) simp
qed

end
