(* ===== verification/Server.thy ===== *)
theory Server
  imports KvStore Protocol Transport
begin

text \<open>
  The server (\<^verbatim>\<open>include/dkvs/server.hpp\<close>, \<^verbatim>\<open>src/server.cpp\<close>): it serves peers and clients, submits commands
  to its \<^verbatim>\<open>RaftNode\<close> (passed beside the server's own state) and applies what the node commits. The
  critical sections under \<^verbatim>\<open>waitMutex_\<close> are single steps: the first part of \<^verbatim>\<open>executeCommand\<close> up to the
  wait, its part after the wait, and \<^verbatim>\<open>onApply\<close>. Diagnostics on \<^verbatim>\<open>stderr\<close> are not modelled.
\<close>

section \<open>State\<close>

record NodeConfig =
  cfg_id :: u32
  raftAddrs :: "Address list"
  clientAddrs :: "Address list"
  dataDir :: string
  cfg_raft :: RaftConfig

record PendingResult =
  pr_applied :: bool
  pr_appliedTerm :: u64
  pr_value :: "string option"
  pr_existed :: bool

record Server =
  sv_config :: NodeConfig
  store :: KVStore
  waiters :: "u64 \<Rightarrow> PendingResult option"
  sv_stopping :: bool

definition PendingResult_new :: PendingResult where
  "PendingResult_new = \<lparr>pr_applied = False, pr_appliedTerm = 0, pr_value = None, pr_existed = False\<rparr>"

definition Server_new :: "NodeConfig \<Rightarrow> Server" where
  "Server_new cfg = \<lparr>sv_config = cfg, store = KVStore_new, waiters = Map.empty, sv_stopping = False\<rparr>"

section \<open>Start and stop\<close>

text \<open>
  \<^verbatim>\<open>init\<close>: the storage that \<^verbatim>\<open>load\<close> recovered, if any, and whether the two ports could be opened (as a
  function of the port) are arguments.
\<close>

definition Server_init :: "Storage option \<Rightarrow> (u16 \<Rightarrow> bool) \<Rightarrow> Server \<Rightarrow> RaftNode option" where
  "Server_init loaded listens sv =
     (let cfg = sv_config sv in
      case loaded of
        None \<Rightarrow> None
      | Some s \<Rightarrow>
          if \<not> listens (port (raftAddrs cfg ! unat (cfg_id cfg))) then None
          else if \<not> listens (port (clientAddrs cfg ! unat (cfg_id cfg))) then None
          else Some (RaftNode_new (cfg_id cfg) (word_of_nat (length (raftAddrs cfg))) s (cfg_raft cfg)))"

text \<open>
  \<^verbatim>\<open>run\<close> starts the node; its accept loops and its wait for the connection threads are in \<^verbatim>\<open>Threads\<close>.
\<close>

definition Server_run :: "clock \<Rightarrow> RaftNode \<Rightarrow> RaftNode" where
  "Server_run ck n = start ck n"

definition Server_stop :: "RaftNode option \<Rightarrow> Server \<Rightarrow> RaftNode option \<times> Server" where
  "Server_stop raft sv =
     (if sv_stopping sv then (raft, sv)
      else (map_option stop raft, sv\<lparr>sv_stopping := True\<rparr>))"

section \<open>Peers\<close>

text \<open>
  The handling of one frame: the reply (empty: close the connection) and the new state of the node, or
  the exception that ends the process.
\<close>

definition raft_dispatch :: "(nat \<Rightarrow> bool) \<Rightarrow> clock \<Rightarrow> string \<Rightarrow> RaftNode \<Rightarrow> exn + (string \<times> RaftNode)" where
  "raft_dispatch fits ck fr n =
     (let tag = byte_of_char (hd fr) in
      if tag = MsgType_byte RequestVoteArgs_Msg then
        (case RequestVoteArgs_decode fr of
           None \<Rightarrow> Inr ([], n)
         | Some args \<Rightarrow> let (r, n) = onRequestVote ck args n in Inr (RequestVoteReply_encode r, n))
      else if tag = MsgType_byte AppendEntriesArgs_Msg then
        (case AppendEntriesArgs_decode fits fr of
           Inl x \<Rightarrow> Inl x
         | Inr None \<Rightarrow> Inr ([], n)
         | Inr (Some args) \<Rightarrow> let (r, n) = onAppendEntries ck args n in Inr (AppendEntriesReply_encode r, n))
      else Inr ([], n))"

text \<open>
  The loop, over the rounds of a connection. A round has the value of \<^verbatim>\<open>stopping_\<close> it reads, what other
  threads have done to the node meanwhile, and the clock. The result is what was sent.
\<close>

fun handleRaftConnection ::
    "(nat \<Rightarrow> bool) \<Rightarrow> (bool \<times> (RaftNode \<Rightarrow> RaftNode) \<times> clock) list \<Rightarrow> rx list \<Rightarrow> tx list \<Rightarrow> RaftNode
     \<Rightarrow> exn + (string \<times> RaftNode)" where
  "handleRaftConnection fits [] es ts n = Inr ([], n)"
| "handleRaftConnection fits ((halt, others, ck) # rounds) es ts n =
     (if halt then Inr ([], n)
      else case recvFrame es of
        (None, es) \<Rightarrow> Inr ([], n)
      | (Some fr, es) \<Rightarrow>
          if fr = [] then Inr ([], n)
          else case raft_dispatch fits ck fr (others n) of
            Inl x \<Rightarrow> Inl x
          | Inr (reply, n) \<Rightarrow>
              if reply = [] then Inr ([], n)
              else let (ok, w, ts) = sendFrame reply ts in
                if \<not> ok then Inr (w, n)
                else case handleRaftConnection fits rounds es ts n of
                  Inl x \<Rightarrow> Inl x
                | Inr (w', n) \<Rightarrow> Inr (w @ w', n))"

section \<open>Commands\<close>

text \<open>The first part of \<^verbatim>\<open>executeCommand\<close>: an answer, or the submission to wait for.\<close>

definition executeCommand_submit ::
    "Command \<Rightarrow> RaftNode \<Rightarrow> Server \<Rightarrow> (string + SubmitResult) \<times> RaftNode \<times> Server" where
  "executeCommand_submit cmd n sv =
     (let (result, n) = submit (Command_encode cmd) n; cfg = sv_config sv in
      if \<not> sr_isLeader result then
        (if sint (sr_leaderHint result) \<ge> 0 \<and> sint (sr_leaderHint result) < int (length (clientAddrs cfg))
            \<and> sint (sr_leaderHint result) \<noteq> sint (cfg_id cfg)
         then Inl (''REDIRECT '' @ Address_str (clientAddrs cfg ! nat (sint (sr_leaderHint result))))
         else Inl ''ERROR no leader known, retry'', n, sv)
      else
        (Inr result, n,
         sv\<lparr>waiters := (if waiters sv (sr_index result) = None
                        then (waiters sv)(sr_index result \<mapsto> PendingResult_new) else waiters sv)\<rparr>))"

text \<open>The condition it waits for; \<^verbatim>\<open>wait_for\<close> returns its value, also at the timeout.\<close>

definition executeCommand_ready :: "SubmitResult \<Rightarrow> Server \<Rightarrow> bool" where
  "executeCommand_ready result sv \<longleftrightarrow>
     sv_stopping sv \<or> (case waiters sv (sr_index result) of None \<Rightarrow> False | Some pr \<Rightarrow> pr_applied pr)"

text \<open>The part after the wait.\<close>

definition executeCommand_finish :: "Command \<Rightarrow> SubmitResult \<Rightarrow> Server \<Rightarrow> string \<times> Server" where
  "executeCommand_finish cmd result sv =
     (let ready = executeCommand_ready result sv;
          pending = (case waiters sv (sr_index result) of None \<Rightarrow> PendingResult_new | Some pr \<Rightarrow> pr);
          sv = sv\<lparr>waiters := (waiters sv)(sr_index result := None)\<rparr>
      in if \<not> ready \<or> \<not> pr_applied pending then (''ERROR commit timeout, retry'', sv)
         else if pr_appliedTerm pending \<noteq> sr_term result then (''ERROR lost leadership, retry'', sv)
         else
           (case cmd_op cmd of
              Set_Op \<Rightarrow> ''OK''
            | Get_Op \<Rightarrow> (case pr_value pending of Some v \<Rightarrow> ''VALUE '' @ v | None \<Rightarrow> ''NOT_FOUND'')
            | Del_Op \<Rightarrow> if pr_existed pending then ''DELETED'' else ''NOT_FOUND'', sv))"

text \<open>\<^verbatim>\<open>onApply\<close>: first the store, then, under \<^verbatim>\<open>waitMutex_\<close>, the waiter.\<close>

definition apply_command :: "string \<Rightarrow> KVStore \<Rightarrow> string option \<times> bool \<times> KVStore" where
  "apply_command rawCommand s =
     (if rawCommand = [] then (None, False, s)
      else case Command_decode rawCommand of
        None \<Rightarrow> (None, False, s)
      | Some cmd \<Rightarrow>
          (case cmd_op cmd of
             Set_Op \<Rightarrow> (None, False, KVStore_set (cmd_key cmd) (cmd_value cmd) s)
           | Get_Op \<Rightarrow> (KVStore_get s (cmd_key cmd), False, s)
           | Del_Op \<Rightarrow> let (existed, s) = KVStore_remove (cmd_key cmd) s in (None, existed, s)))"

definition onApply :: "u64 \<Rightarrow> u64 \<Rightarrow> string \<Rightarrow> Server \<Rightarrow> Server" where
  "onApply index trm rawCommand sv =
     (let (val, existed, s) = apply_command rawCommand (store sv);
          sv = sv\<lparr>store := s\<rparr>
      in case waiters sv index of
           None \<Rightarrow> sv
         | Some pr \<Rightarrow>
             sv\<lparr>waiters := (waiters sv)(index \<mapsto>
               pr\<lparr>pr_applied := True, pr_appliedTerm := trm, pr_value := val, pr_existed := existed\<rparr>)\<rparr>)"

section \<open>Clients\<close>

definition to_string_int :: "int \<Rightarrow> string" where
  "to_string_int i = (if i < 0 then ''-'' @ to_string (nat (- i)) else to_string (nat i))"

definition status_line :: "RaftNode \<Rightarrow> Server \<Rightarrow> string" where
  "status_line n sv =
     (let s = status n in
      ''STATUS role='' @ roleName (rs_role s) @ '' term='' @ to_string (unat (rs_term s))
        @ '' leader='' @ to_string_int (sint (rs_leaderHint s)) @ '' commit='' @ to_string (unat (rs_commitIndex s))
        @ '' applied='' @ to_string (unat (rs_lastApplied s)) @ '' log='' @ to_string (unat (rs_lastLogIndex s))
        @ '' keys='' @ to_string (KVStore_size (store sv)))"

text \<open>
  \<^verbatim>\<open>executeCommand\<close> as a whole. The first argument is what the other threads do to the node and the server
  during the wait, when \<^verbatim>\<open>waitMutex_\<close> is free.
\<close>

type_synonym others = "RaftNode \<times> Server \<Rightarrow> RaftNode \<times> Server"

definition executeCommand :: "others \<Rightarrow> Command \<Rightarrow> RaftNode \<times> Server \<Rightarrow> string \<times> RaftNode \<times> Server" where
  "executeCommand others cmd ns =
     (case executeCommand_submit cmd (fst ns) (snd ns) of
        (Inl reply, ns) \<Rightarrow> (reply, ns)
      | (Inr result, ns) \<Rightarrow>
          let (n, sv) = others ns; (reply, sv) = executeCommand_finish cmd result sv in (reply, n, sv))"

definition handleRequest :: "others \<Rightarrow> ClientRequest \<Rightarrow> RaftNode \<times> Server \<Rightarrow> string \<times> RaftNode \<times> Server" where
  "handleRequest others req ns =
     (case req_kind req of
        Ping \<Rightarrow> (''PONG'', ns)
      | Status \<Rightarrow> (status_line (fst ns) (snd ns), ns)
      | Command_Kind \<Rightarrow> executeCommand others (req_command req) ns
      | Quit \<Rightarrow> (''ERROR internal'', ns))"

text \<open>
  The loop, over the rounds of a connection. A round has the value of \<^verbatim>\<open>stopping_\<close> it reads and what other
  threads do until its line is read and while its command waits. The result is what was sent.
\<close>

fun handleClientConnection ::
    "(bool \<times> others \<times> others) list \<Rightarrow> string \<Rightarrow> rx list \<Rightarrow> tx list \<Rightarrow> RaftNode \<times> Server
     \<Rightarrow> string \<times> RaftNode \<times> Server" where
  "handleClientConnection [] buffer es ts ns = ([], ns)"
| "handleClientConnection ((halt, before, others) # rounds) buffer es ts ns =
     (if halt then ([], ns)
      else let ns = before ns in
        case recvLine buffer es of
          (None, buffer, es) \<Rightarrow> ([], ns)
        | (Some line, buffer, es) \<Rightarrow>
            if line = [] then handleClientConnection rounds buffer es ts ns
            else case parseClientRequest line of
              None \<Rightarrow>
                let (ok, w, ts) = sendLine ''ERROR unknown command'' ts in
                if \<not> ok then (w, ns)
                else let (w', ns) = handleClientConnection rounds buffer es ts ns in (w @ w', ns)
            | Some req \<Rightarrow>
                if req_kind req = Quit then let (ok, w, ts) = sendLine ''BYE'' ts in (w, ns)
                else let (reply, ns) = handleRequest others req ns; (ok, w, ts) = sendLine reply ts in
                  if \<not> ok then (w, ns)
                  else let (w', ns) = handleClientConnection rounds buffer es ts ns in (w @ w', ns))"

section \<open>Remote calls\<close>

lemma dispatch_append:
  assumes "AppendEntriesArgs_ok args" "fits (length (ae_entries args))" "onAppendEntries ck args n = (r, n')"
  shows "raft_dispatch fits ck (AppendEntriesArgs_encode args) n = Inr (AppendEntriesReply_encode r, n')"
proof -
  have "byte_of_char (hd (AppendEntriesArgs_encode args)) = 3"
    by (simp add: AppendEntriesArgs_encode_eq)
  with assms AppendEntriesArgs_decode_encode [of args fits] show ?thesis
    by (simp add: raft_dispatch_def)
qed

lemma dispatch_vote:
  assumes "onRequestVote ck args n = (r, n')"
  shows "raft_dispatch fits ck (RequestVoteArgs_encode args) n = Inr (RequestVoteReply_encode r, n')"
proof -
  have "byte_of_char (hd (RequestVoteArgs_encode args)) = 1"
    by (simp add: RequestVoteArgs_encode_eq)
  with assms show ?thesis
    by (simp add: raft_dispatch_def RequestVoteArgs_decode_encode)
qed

text \<open>A connection that carries one request whose reply can be sent.\<close>

lemma served_once:
  assumes "delivers es (frame request @ rem)" "length request \<le> 67108864" "request \<noteq> []"
    and "raft_dispatch fits ck request (others n) = Inr (reply, n1)" "reply \<noteq> []"
    and "fst (sendFrame reply ts)" "handleRaftConnection fits [(False, others, ck)] es ts n = Inr (w, n')"
  shows "w = frame reply" "n' = n1"
proof -
  obtain es' where "recvFrame es = (Some request, es')"
    using recvFrame_complete [OF assms(2,1)] by blast
  moreover obtain w1 ts1 where send: "sendFrame reply ts = (True, w1, ts1)"
    using assms(6) by (cases "sendFrame reply ts") auto
  ultimately show "w = frame reply" "n' = n1"
    using assms(3-5,7) sendFrame_bytes [OF send] by auto
qed

lemma rpc_call:
  assumes "unat peer < length (peerAddrs tr)" "net (peerAddrs tr ! unat peer) = Some (ts, es)"
    and "sendFrame request ts = (True, w, ts')" "delivers es2 (w @ rem)" "length request \<le> 67108864" "request \<noteq> []"
    and "raft_dispatch fits ck request (others n) = Inr (reply, n1)" "reply \<noteq> []" "length reply \<le> 67108864"
    and "fst (sendFrame reply ts2)" "handleRaftConnection fits [(False, others, ck)] es2 ts2 n = Inr (w', n')"
    and "delivers es (w' @ rem')"
  shows "call net tr peer request = Some reply" "n' = n1"
proof -
  have "delivers es2 (frame request @ rem)"
    using assms(4) sendFrame_bytes [OF assms(3)] by simp
  note served = served_once [where others = others, OF this assms(5-8,10,11)]
  show "n' = n1" by (rule served(2))
  show "call net tr peer request = Some reply"
    using assms(12) served(1) by (intro call_reply [where net = net, OF assms(1-3,9)]) simp
qed

text \<open>
  C34: an \<^verbatim>\<open>AppendEntries\<close> call through TCP is a call of the peer's handler. When the bytes the caller sent
  reach the peer and the bytes the peer sent reach the caller, in any chunks, the caller gets exactly
  the reply that \<^verbatim>\<open>onAppendEntries\<close> computed for exactly its arguments, on the state the peer had then.
\<close>

theorem rpc_append_transparent:
  assumes "unat peer < length (peerAddrs tr)" "net (peerAddrs tr ! unat peer) = Some (ts, es)"
    and "sendFrame (AppendEntriesArgs_encode args) ts = (True, w, ts')" "delivers es2 (w @ rem)"
    and "AppendEntriesArgs_ok args" "fits (length (ae_entries args))" "length (AppendEntriesArgs_encode args) \<le> 67108864"
    and "onAppendEntries ck args (others n) = (reply, n1)" "fst (sendFrame (AppendEntriesReply_encode reply) ts2)"
    and "handleRaftConnection fits [(False, others, ck)] es2 ts2 n = Inr (w', n')" "delivers es (w' @ rem')"
  shows "appendEntries net tr peer args = Some reply \<and> n' = n1"
proof -
  have sizes: "AppendEntriesArgs_encode args \<noteq> []" "AppendEntriesReply_encode reply \<noteq> []"
      "length (AppendEntriesReply_encode reply) \<le> 67108864"
    by (simp_all add: AppendEntriesArgs_encode_eq AppendEntriesReply_encode_eq)
  note rpc = rpc_call [where net = net and others = others, OF assms(1-4,7) sizes(1)
      dispatch_append [where fits = fits, OF assms(5,6,8)] sizes(2,3) assms(9-11)]
  show ?thesis
    using rpc by (simp add: appendEntries_def AppendEntriesReply_decode_encode)
qed

text \<open>A call of node 0 that node 1, freshly started, answers.\<close>

theorem rpc_append_transparent_witness:
  "\<exists>net reply n'. appendEntries net (TcpTransport_new [\<lparr>host = ''a'', port = 7100\<rparr>, \<lparr>host = ''b'', port = 7101\<rparr>]) 1
      \<lparr>ae_term = 1, ae_leaderId = 0, ae_prevLogIndex = 0, ae_prevLogTerm = 0, ae_leaderCommit = 0, ae_entries = []\<rparr> = Some reply
    \<and> aer_success reply \<and> currentTerm (n' :: RaftNode) = 1"
proof -
  let ?args = "\<lparr>ae_term = 1, ae_leaderId = 0, ae_prevLogIndex = 0, ae_prevLogTerm = 0, ae_leaderCommit = 0, ae_entries = []\<rparr>"
  let ?tr = "TcpTransport_new [\<lparr>host = ''a'', port = 7100\<rparr>, \<lparr>host = ''b'', port = 7101\<rparr>]"
  let ?ck = "\<lparr>now = 0, drawn = 0\<rparr>" and ?req = "AppendEntriesArgs_encode ?args"
  define n where "n = RaftNode_new 1 2 fresh_Storage
    \<lparr>heartbeatInterval = 50, electionTimeoutMin = 150, electionTimeoutMax = 300, tickInterval = 10\<rparr>"
  define reply n1 where r: "reply = fst (onAppendEntries ?ck ?args n)" "n1 = snd (onAppendEntries ?ck ?args n)"
  have run: "onAppendEntries ?ck ?args (id n) = (reply, n1)"
    by (simp add: r)
  have ok: "aer_success reply" "currentTerm n1 = 1"
    unfolding r n_def by (simp_all add: onAppendEntries_def RaftNode_new_def becomeFollower_def resetElectionDeadline_def
        lastLogIndex_def Let_def)
  have full: "sendFrame s [Sent 4, Sent 100] = (True, frame s, [])" if "s \<noteq> []" "length s \<le> 100" for s
    using that by (cases s) (simp_all add: sendFrame_def frame_def codec_simps be32_def)
  have len: "?req \<noteq> []" "length ?req \<le> 100" "AppendEntriesReply_encode reply \<noteq> []"
      "length (AppendEntriesReply_encode reply) \<le> 100"
    by (simp_all add: AppendEntriesArgs_encode_eq AppendEntriesReply_encode_eq)
  have args: "AppendEntriesArgs_ok ?args"
    by (simp add: AppendEntriesArgs_ok_def)
  have one: "delivers [Avail (frame s)] (frame s @ [])" for s
    by (simp add: delivers_def frame_def be32_def)
  have serve: "handleRaftConnection (\<lambda>_. True) [(False, id, ?ck)] [Avail (frame ?req)] [Sent 4, Sent 100] n
      = Inr (frame (AppendEntriesReply_encode reply), n1)"
  proof -
    obtain es where "recvFrame [Avail (frame ?req)] = (Some ?req, es)"
      using recvFrame_complete [OF _ one, of ?req] len(2) by auto
    then show ?thesis
      using dispatch_append [OF args, where fits = "\<lambda>_. True", OF TrueI run] len full [OF len(3,4)] by simp
  qed
  have "appendEntries (\<lambda>_. Some ([Sent 4, Sent 100], [Avail (frame (AppendEntriesReply_encode reply))])) ?tr 1 ?args
      = Some reply \<and> n1 = n1"
    by (rule rpc_append_transparent [where fits = "\<lambda>_. True" and others = id, OF _ refl full [OF len(1,2)] one args _ _ run _ serve one])
      (use len full [OF len(3,4)] in \<open>simp_all add: TcpTransport_new_def\<close>)
  with ok show ?thesis by blast
qed

end
