(* ===== verification/Cluster.thy ===== *)
theory Cluster
  imports RaftFacts
begin

text \<open>
  A cluster: the nodes, the messages between them and the threads that wait for replies. Every step
  is one critical section of \<^verbatim>\<open>src/raft.cpp\<close> executed by one node. The network may delay,
  duplicate, reorder and lose messages: a request or reply that was sent once stays available, and
  any step may use it, any number of times; but a vote sender reads one reply only. A node may
  crash between any two writes to its storage, with or without a power loss, and starts again from
  what \<^verbatim>\<open>Storage::load\<close> recovers. The executions considered are those in which the directory syncs of
  \<^verbatim>\<open>saveMeta\<close> succeed; the code ignores their failure, and a vote can then be lost.
\<close>

section \<open>State\<close>

record Cluster =
  nodes :: "nat \<Rightarrow> RaftNode"
  rvReqs :: "(nat \<times> RequestVoteArgs) set"
  rvReps :: "(nat \<times> RequestVoteArgs \<times> RequestVoteReply) set"
  voters :: "(nat \<times> u64 \<times> nat) set"
  aeReqs :: "(nat \<times> AppendEntriesArgs) set"
  aeReps :: "(nat \<times> AppendEntriesArgs \<times> AppendEntriesReply) set"
  repls :: "(nat \<times> nat \<times> u64) set"
  pending :: "nat \<Rightarrow> (u64 \<times> LogEntry) option"
  applied :: "nat \<Rightarrow> LogEntry list"
  history :: "(nat \<times> u64 \<times> LogEntry) set"
  boots :: "nat \<Rightarrow> nat"

text \<open>
  Messages carry the node they are addressed to; replies also carry the request. \<open>voters\<close> are the
  live vote senders (candidate, term, peer), \<open>repls\<close> the live replicators (leader, peer, term),
  \<open>pending\<close> is the entry an applier has fetched, \<open>applied\<close> what \<^verbatim>\<open>applyFn_\<close> has been given since
  the node started, \<open>history\<close> every call of \<^verbatim>\<open>applyFn_\<close> ever made, \<open>boots\<close> how often a node was started again.
\<close>

definition put :: "nat \<Rightarrow> RaftNode \<Rightarrow> Cluster \<Rightarrow> Cluster" where
  "put i n c = c\<lparr>nodes := (nodes c)(i := n)\<rparr>"

definition spawn :: "nat \<Rightarrow> thread list \<Rightarrow> Cluster \<Rightarrow> Cluster" where
  "spawn i ths c = c\<lparr>
     rvReqs := rvReqs c \<union> {(unat p, args) | p args. VoteSender p args \<in> set ths},
     voters := voters c \<union> {(i, rv_term args, unat p) | p args. VoteSender p args \<in> set ths},
     repls := repls c \<union> {(i, unat p, t) | p t. Replicator p t \<in> set ths}\<rparr>"

definition init :: "nat \<Rightarrow> RaftConfig \<Rightarrow> clock \<Rightarrow> Cluster" where
  "init N cfg ck =
     \<lparr>nodes = (\<lambda>i. start ck (RaftNode_new (word_of_nat i) (word_of_nat N) fresh_Storage cfg)),
      rvReqs = {}, rvReps = {}, voters = {}, aeReqs = {}, aeReps = {}, repls = {},
      pending = (\<lambda>_. None), applied = (\<lambda>_. []), history = {}, boots = (\<lambda>_. 0)\<rparr>"

text \<open>
  The initial cluster on empty data directories, \<open>ds i k\<close> telling whether the \<open>k\<close>-th directory sync of
  node \<open>i\<close> will succeed; \<open>init\<close> is the cluster for which all of them do.
\<close>

definition init_on :: "(nat \<Rightarrow> nat \<Rightarrow> bool) \<Rightarrow> nat \<Rightarrow> RaftConfig \<Rightarrow> clock \<Rightarrow> Cluster" where
  "init_on ds N cfg ck = (init N cfg ck)
     \<lparr>nodes := \<lambda>i. start ck (RaftNode_new (word_of_nat i) (word_of_nat N) (with_syncs (ds i) fresh_Storage) cfg)\<rparr>"

definition syncs_succeed :: "(nat \<Rightarrow> nat \<Rightarrow> bool) \<Rightarrow> bool" where
  "syncs_succeed ds \<longleftrightarrow> (\<forall>i k. ds i k)"

lemma init_on_succeed: "syncs_succeed ds \<Longrightarrow> init_on ds N cfg ck = init N cfg ck"
proof -
  assume "syncs_succeed ds"
  then have "with_syncs (ds i) fresh_Storage = fresh_Storage" for i
    by (auto simp: syncs_succeed_def with_syncs_def fresh_Storage_def put_wal_def Storage_new_def empty_disk_def)
  then show ?thesis
    by (simp add: init_on_def init_def)
qed

text \<open>A node starts again on the storage \<open>s\<close>; its threads and volatile state are gone.\<close>

definition reboot :: "clock \<Rightarrow> nat \<Rightarrow> Storage \<Rightarrow> Cluster \<Rightarrow> Cluster" where
  "reboot ck i s c =
     (let n = nodes c i in
      (put i (start ck (RaftNode_new (node_id n) (clusterSize n) s (config n))) c)
        \<lparr>voters := {x \<in> voters c. fst x \<noteq> i}, repls := {x \<in> repls c. fst x \<noteq> i},
         pending := (pending c)(i := None), applied := (applied c)(i := []), boots := (boots c)(i := boots c i + 1)\<rparr>)"

definition recovers :: "Storage \<Rightarrow> Storage \<Rightarrow> bool" where
  "recovers s s' \<longleftrightarrow> (\<exists>d. power_loss (sdisk s) d \<and> reopen d = Some s')"

section \<open>Steps\<close>

text \<open>
  The parameter \<open>P\<close> restricts the append requests that are delivered; \<open>\<lambda>_ _. True\<close> is the code.
\<close>

inductive cluster_step :: "nat \<Rightarrow> (AppendEntriesArgs \<Rightarrow> RaftNode \<Rightarrow> bool) \<Rightarrow> Cluster \<Rightarrow> Cluster \<Rightarrow> bool"
  for N :: nat and P :: "AppendEntriesArgs \<Rightarrow> RaftNode \<Rightarrow> bool" where
  Tick: "i < N \<Longrightarrow> room (nodes c i) \<Longrightarrow> tickerLoop ck (nodes c i) = (n', ths)
    \<Longrightarrow> cluster_step N P c (spawn i ths (put i n' c))"
| VoteRequest: "(p, args) \<in> rvReqs c \<Longrightarrow> onRequestVote ck args (nodes c p) = (reply, n')
    \<Longrightarrow> cluster_step N P c ((put p n' c)\<lparr>rvReps := insert (p, args, reply) (rvReps c)\<rparr>)"
| VoteReply: "(i, rv_term args, p) \<in> voters c \<Longrightarrow> (p, args, reply) \<in> rvReps c
    \<Longrightarrow> rv_candidateId args = word_of_nat i \<Longrightarrow> room (nodes c i)
    \<Longrightarrow> voteSender ck args (Some reply) (nodes c i) = (n', ths)
    \<Longrightarrow> cluster_step N P c (spawn i ths ((put i n' c)\<lparr>voters := voters c - {(i, rv_term args, p)}\<rparr>))"
| VoteLost: "x \<in> voters c \<Longrightarrow> cluster_step N P c (c\<lparr>voters := voters c - {x}\<rparr>)"
| Send: "(i, p, t) \<in> repls c \<Longrightarrow> replicator_send (word_of_nat p) t (nodes c i) = Some args
    \<Longrightarrow> cluster_step N P c (c\<lparr>aeReqs := insert (p, args) (aeReqs c)\<rparr>)"
| AppendRequest: "(p, args) \<in> aeReqs c \<Longrightarrow> P args (nodes c p)
    \<Longrightarrow> onAppendEntries ck args (nodes c p) = (reply, n')
    \<Longrightarrow> cluster_step N P c ((put p n' c)\<lparr>aeReps := insert (p, args, reply) (aeReps c)\<rparr>)"
| AppendReply: "(i, p, ae_term args) \<in> repls c \<Longrightarrow> (p, args, reply) \<in> aeReps c
    \<Longrightarrow> ae_leaderId args = word_of_nat i
    \<Longrightarrow> replicator_reply ck (word_of_nat p) (ae_term args) args (Some reply) (nodes c i) = n'
    \<Longrightarrow> cluster_step N P c (put i n' c)"
| Submit: "i < N \<Longrightarrow> room (nodes c i) \<Longrightarrow> length cmd + 20 < 2 ^ 32 \<Longrightarrow> submit cmd (nodes c i) = (r, n')
    \<Longrightarrow> cluster_step N P c (put i n' c)"
| Fetch: "i < N \<Longrightarrow> pending c i = None \<Longrightarrow> applier_fetch inner (nodes c i) = Some x
    \<Longrightarrow> cluster_step N P c (c\<lparr>pending := (pending c)(i := Some x)\<rparr>)"
| Apply: "i < N \<Longrightarrow> pending c i = Some (idx, e)
    \<Longrightarrow> cluster_step N P c ((put i (applier_done idx (nodes c i)) c)
          \<lparr>pending := (pending c)(i := None), applied := (applied c)(i := applied c i @ [e]),
           history := insert (i, idx, e) (history c)\<rparr>)"
| Stop: "i < N \<Longrightarrow> cluster_step N P c (put i (stop (nodes c i)) c)"
| Crash: "i < N \<Longrightarrow> recovers (storage (nodes c i)) s \<Longrightarrow> cluster_step N P c (reboot ck i s c)"
| CrashElection: "i < N \<Longrightarrow> room (nodes c i)
    \<Longrightarrow> recovers (saveMeta_done (currentTerm (nodes c i) + 1) (node_id (nodes c i)) (storage (nodes c i))) s
    \<Longrightarrow> cluster_step N P c (reboot ck i s c)"
| CrashVote: "(p, args) \<in> rvReqs c \<Longrightarrow> recovers (storage (becomeFollower ck (rv_term args) (nodes c p))) s
    \<Longrightarrow> cluster_step N P c (reboot ck p s c)"
| CrashHeard: "(p, args) \<in> aeReqs c \<Longrightarrow> recovers (storage (heard ck args (nodes c p))) s
    \<Longrightarrow> cluster_step N P c (reboot ck p s c)"
| CrashMerge: "(p, args) \<in> aeReqs c \<Longrightarrow> \<not> ae_term args < currentTerm (nodes c p)
    \<Longrightarrow> \<not> ae_prevLogIndex args > lastLogIndex (nodes c p)
    \<Longrightarrow> entry_term (rlog (nodes c p) ! unat (ae_prevLogIndex args)) = ae_prevLogTerm args
    \<Longrightarrow> merge_scan (heard ck args (nodes c p)) (ae_prevLogIndex args + 1) (ae_entries args) = (m, ys)
    \<Longrightarrow> recovers (storage (fold push_entry (take j ys) m)) s
    \<Longrightarrow> cluster_step N P c (reboot ck p s c)"

inductive reachable :: "nat \<Rightarrow> (AppendEntriesArgs \<Rightarrow> RaftNode \<Rightarrow> bool) \<Rightarrow> Cluster \<Rightarrow> bool"
  for N :: nat and P :: "AppendEntriesArgs \<Rightarrow> RaftNode \<Rightarrow> bool" where
  start: "syncs_succeed ds \<Longrightarrow> reachable N P (init_on ds N cfg ck)"
| step: "reachable N P c \<Longrightarrow> cluster_step N P c c' \<Longrightarrow> reachable N P c'"

lemma reachable_init: "reachable N P (init N cfg ck)"
  using reachable.start [of "\<lambda>_ _. True" N P cfg ck] by (simp add: init_on_succeed syncs_succeed_def)

end
