(* ===== verification/Simulation.thy ===== *)
theory Simulation
  imports Cluster
begin

text \<open>
  The cluster refines the abstract protocol: a forward simulation between the steps of the nodes of
  \<^verbatim>\<open>src/raft.cpp\<close> and the steps of the specification. The relation says that terms, logs and
  leadership agree, that the votes in storage are the ballots cast, that a candidate counts
  distinct voters, that every append request in flight is a slice of the ledger of its term, and that what a
  leader believes to be replicated has been acknowledged.
\<close>

section \<open>Steps of one node in the protocol\<close>

definition local_to :: "nat \<Rightarrow> spec \<Rightarrow> spec \<Rightarrow> bool" where
  "local_to i s s' \<longleftrightarrow> ext s s'
     \<and> (\<forall>p. p \<noteq> i \<longrightarrow> sp_term s' p = sp_term s p \<and> sp_log s' p = sp_log s p \<and> sp_lead s' p = sp_lead s p)
     \<and> (\<forall>t p d l. p \<noteq> i \<longrightarrow> (t, p, d, l) \<in> sp_ballots s' \<longrightarrow> (t, p, d, l) \<in> sp_ballots s)
     \<and> (\<forall>t p b Q. p \<noteq> i \<longrightarrow> sp_elected s' t = Some (p, b, Q) \<longrightarrow> sp_elected s t = Some (p, b, Q))"

inductive acts :: "nat \<Rightarrow> nat \<Rightarrow> spec \<Rightarrow> spec \<Rightarrow> bool" for N :: nat and i :: nat where
  none: "acts N i s s"
| more: "acts N i s s' \<Longrightarrow> spec_step N s' s'' \<Longrightarrow> local_to i s' s'' \<Longrightarrow> acts N i s s''"

lemma local_refl: "local_to i s s"
  by (simp add: local_to_def)

lemma local_trans:
  assumes "local_to i s s'" "local_to i s' s''"
  shows "local_to i s s''"
  using assms ext_trans unfolding local_to_def by (intro conjI) (blast | metis)+

lemma acts_local: "acts N i s s' \<Longrightarrow> local_to i s s'"
  by (induction rule: acts.induct) (auto intro: local_refl local_trans)

lemma acts_reach: "acts N i s s' \<Longrightarrow> spec_reach N s \<Longrightarrow> spec_reach N s'"
  by (induction rule: acts.induct) (auto intro: spec_reach.step)

lemma acts_trans:
  assumes "acts N i s s'" "acts N i s' s''"
  shows "acts N i s s''"
  using assms(2,1) by (induction rule: acts.induct) (auto intro: acts.more)

lemma acts_one:
  assumes "spec_reach N s" "spec_step N s s'"
    and "\<And>p. p \<noteq> i \<Longrightarrow> sp_term s' p = sp_term s p \<and> sp_log s' p = sp_log s p \<and> sp_lead s' p = sp_lead s p"
    and "\<And>t p d l. p \<noteq> i \<Longrightarrow> (t, p, d, l) \<in> sp_ballots s' \<Longrightarrow> (t, p, d, l) \<in> sp_ballots s"
    and "\<And>t p b Q. p \<noteq> i \<Longrightarrow> sp_elected s' t = Some (p, b, Q) \<Longrightarrow> sp_elected s t = Some (p, b, Q)"
  shows "acts N i s s'"
  using assms step_ext [OF spec_reach_inv [OF assms(1)] assms(2)]
  by (intro acts.more [OF acts.none]) (auto simp: local_to_def)

lemma acts_raise: "spec_reach N s \<Longrightarrow> i < N \<Longrightarrow> sp_term s i \<le> t \<Longrightarrow> acts N i s (do_raise i t s)"
  by (rule acts_one) (auto simp: spec_ops intro: spec_step.Raise [unfolded spec_ops])

lemma acts_vote:
  "spec_reach N s \<Longrightarrow> i < N \<Longrightarrow> c < N \<Longrightarrow> \<forall>c' l. (sp_term s i, i, c', l) \<in> sp_ballots s \<longrightarrow> c' = c
   \<Longrightarrow> acts N i s (do_vote i c s)"
  by (rule acts_one) (auto simp: do_vote_def intro: spec_step.Vote [unfolded do_vote_def])

lemma acts_elect:
  assumes "spec_reach N s" "i < N" "0 < sp_term s i" "supported N s i Q"
    and "\<forall>b Q'. sp_elected s (sp_term s i) \<noteq> Some (i, b, Q')" "entry_term e = sp_term s i"
  shows "acts N i s (do_elect i Q e s)"
  using assms(1) spec_step.Elect [OF assms(2-6)]
  by (rule acts_one) (auto simp: spec_ops split: if_splits)

lemma acts_append:
  assumes "spec_reach N s" "i < N" "sp_lead s i" "entry_term e = sp_term s i"
  shows "acts N i s (do_append i e s)"
  using assms(1) spec_step.Append [OF assms(2-4)] by (rule acts_one) (auto simp: spec_ops)

lemma acts_self:
  assumes "spec_reach N s" "i < N" "sp_lead s i" "n < length (sp_log s i)"
  shows "acts N i s (do_ack i n s)"
  using assms(1) spec_step.Self [OF assms(2-4)] by (rule acts_one) (auto simp: spec_ops)

lemma acts_accept:
  assumes "spec_reach N s" "p < N" "sp_elected s (sp_term s p) = Some (j, b, Q)" "j \<noteq> p"
    and "prev < length (sp_log s p)" "prev \<le> n" "n < length (sp_ledger s (sp_term s p))"
    and "entry_term (sp_log s p ! prev) = entry_term (sp_ledger s (sp_term s p) ! prev)"
  shows "acts N p s (do_accept p n s)"
  using assms(1) spec_step.Accept [OF assms(2-8)] by (rule acts_one) (auto simp: spec_ops)

lemma acts_cut:
  assumes "spec_reach N s" "p < N" "sp_elected s (sp_term s p) = Some (j, b, Q)" "j \<noteq> p" "0 < k"
    and "k < length (sp_log s p)" "k < length (sp_ledger s (sp_term s p))"
    and "entry_term (sp_log s p ! k) \<noteq> entry_term (sp_ledger s (sp_term s p) ! k)"
  shows "acts N p s (put_log p (take k (sp_log s p)) s)"
  using assms(1) spec_step.Cut [OF assms(2-8)] by (rule acts_one) (auto simp: spec_ops)

section \<open>The simulation relation\<close>

definition candidate_ok :: "nat \<Rightarrow> Cluster \<Rightarrow> spec \<Rightarrow> nat \<Rightarrow> bool" where
  "candidate_ok N c s i \<longleftrightarrow> (let n = nodes c i; t = currentTerm n in
     0 < t \<and> (\<forall>b Q. sp_elected s t \<noteq> Some (i, b, Q))
     \<and> (\<exists>Q \<subseteq> {..<N}. card Q = unat (votesReceived n)
          \<and> (\<forall>p \<in> Q. (i, t, p) \<notin> voters c \<and> (\<exists>l. (t, p, i, l) \<in> sp_ballots s \<and> up_to_date (rlog n) l))))"

definition votes_ok :: "nat \<Rightarrow> RaftNode \<Rightarrow> spec \<Rightarrow> bool" where
  "votes_ok i n s \<longleftrightarrow> (\<forall>d l. (currentTerm n, i, d, l) \<in> sp_ballots s \<longrightarrow> votedFor n = word_of_nat d)"

definition matches_ok :: "nat \<Rightarrow> RaftNode \<Rightarrow> spec \<Rightarrow> bool" where
  "matches_ok N n s \<longleftrightarrow>
     (\<forall>p<N. \<forall>k. 0 < k \<longrightarrow> k \<le> unat (matchIndex n ! p) \<longrightarrow> (currentTerm n, p, k) \<in> sp_acks s)"

text \<open>The vote senders of a node and the vote requests it has sent.\<close>

definition asked_ok :: "nat \<Rightarrow> Cluster \<Rightarrow> nat \<Rightarrow> bool" where
  "asked_ok N c i \<longleftrightarrow> (let n = nodes c i in
     (\<forall>t p. (i, t, p) \<in> voters c \<longrightarrow> t \<le> currentTerm n \<and> p < N \<and> p \<noteq> i)
     \<and> (\<forall>p args. (p, args) \<in> rvReqs c \<longrightarrow> rv_candidateId args = word_of_nat i \<longrightarrow>
          rv_term args \<le> currentTerm n
          \<and> (role n = Candidate \<longrightarrow> rv_term args = currentTerm n \<longrightarrow>
               rv_lastLogIndex args = lastLogIndex n \<and> rv_lastLogTerm args = lastLogTerm n)))"

definition node_ok :: "nat \<Rightarrow> Cluster \<Rightarrow> spec \<Rightarrow> nat \<Rightarrow> bool" where
  "node_ok N c s i \<longleftrightarrow> (let n = nodes c i in
     wf_node N i n \<and> sp_term s i = currentTerm n \<and> sp_log s i = rlog n \<and> sp_lead s i = (role n = Leader)
     \<and> votes_ok i n s \<and> (role n = Candidate \<longrightarrow> candidate_ok N c s i)
     \<and> (role n = Leader \<longrightarrow> matches_ok N n s) \<and> asked_ok N c i)"

text \<open>An append request to \<open>p\<close> is a slice of the ledger of its term, whose leader is not \<open>p\<close>.\<close>

definition request_ok :: "spec \<Rightarrow> nat \<Rightarrow> AppendEntriesArgs \<Rightarrow> bool" where
  "request_ok s p args \<longleftrightarrow> sound_batch args \<and>
     (let L = sp_ledger s (ae_term args); k = unat (ae_prevLogIndex args); es = ae_entries args in
      (\<exists>j b Q. sp_elected s (ae_term args) = Some (j, b, Q) \<and> j \<noteq> p)
      \<and> k + length es < length L \<and> ae_prevLogTerm args = entry_term (L ! k)
      \<and> es = take (length es) (drop (k + 1) L))"

definition net_ok :: "nat \<Rightarrow> Cluster \<Rightarrow> spec \<Rightarrow> bool" where
  "net_ok N c s \<longleftrightarrow>
     (\<forall>p args. (p, args) \<in> rvReqs c \<longrightarrow> p < N \<and> (\<exists>i<N. rv_candidateId args = word_of_nat i))
     \<and> (\<forall>p args r. (p, args, r) \<in> rvReps c \<longrightarrow> (p, args) \<in> rvReqs c
          \<and> (rvr_voteGranted r \<longrightarrow>
               (\<exists>l. (rv_term args, p, unat (rv_candidateId args), l) \<in> sp_ballots s \<and> logOk args l)))
     \<and> (\<forall>p args. (p, args) \<in> aeReqs c \<longrightarrow> p < N \<and> request_ok s p args)
     \<and> (\<forall>p args r. (p, args, r) \<in> aeReps c \<longrightarrow> (p, args) \<in> aeReqs c
          \<and> (aer_success r \<longrightarrow> (\<forall>k \<le> unat (ae_prevLogIndex args) + length (ae_entries args).
               (ae_term args, p, k) \<in> sp_acks s)))
     \<and> (\<forall>i p t. (i, p, t) \<in> repls c \<longrightarrow> i < N \<and> p < N \<and> p \<noteq> i)
     \<and> (\<forall>i t p. (i, t, p) \<in> voters c \<longrightarrow> i < N)"

definition sim :: "nat \<Rightarrow> Cluster \<Rightarrow> spec \<Rightarrow> bool" where
  "sim N c s \<longleftrightarrow> spec_reach N s \<and> N < 2 ^ 31 \<and> (\<forall>i<N. node_ok N c s i) \<and> net_ok N c s"

section \<open>What a step of one node leaves alone\<close>

lemma ext_sets: "ext s s' \<Longrightarrow> x \<in> sp_ballots s \<Longrightarrow> x \<in> sp_ballots s'" "ext s s' \<Longrightarrow> y \<in> sp_acks s \<Longrightarrow> y \<in> sp_acks s'"
  by (auto simp: ext_def)

lemma take_drop_append:
  "k + length es < length L \<Longrightarrow> take (length es) (drop (k + 1) (L @ y)) = take (length es) (drop (k + 1) L)"
  by simp

lemma request_ok_ext:
  assumes "ext s s'" "request_ok s p args"
  shows "request_ok s' p args"
proof -
  let ?t = "ae_term args"
  obtain j b Q where el: "sp_elected s ?t = Some (j, b, Q)" "j \<noteq> p"
    using assms(2) by (auto simp: request_ok_def Let_def)
  then obtain y where y: "sp_ledger s' ?t = sp_ledger s ?t @ y"
    using ext_ledger [OF assms(1), of ?t] by auto
  have "sp_elected s' ?t = Some (j, b, Q)"
    using ext_elected [OF assms(1), of ?t] el(1) by simp
  with el(2) assms(2) show ?thesis
    unfolding request_ok_def Let_def y
    by (simp add: take_drop_append nth_append)
qed

lemma net_ok_ext:
  assumes "ext s s'" "net_ok N c s"
  shows "net_ok N c s'"
  using assms(2) ext_sets [OF assms(1)] request_ok_ext [OF assms(1)] unfolding net_ok_def by meson

lemma candidate_ok_other:
  assumes "candidate_ok N c s p" "local_to i s s'" "p \<noteq> i" "nodes c' p = nodes c p"
    and "\<And>t q. (p, t, q) \<in> voters c' \<Longrightarrow> (p, t, q) \<in> voters c"
  shows "candidate_ok N c' s' p"
proof -
  have loc: "ext s s'" "\<And>t b Q. sp_elected s' t = Some (p, b, Q) \<Longrightarrow> sp_elected s t = Some (p, b, Q)"
    using assms(2,3) unfolding local_to_def by blast+
  show ?thesis
    using assms(1,5) loc(2) ext_sets(1) [OF loc(1)] unfolding candidate_ok_def Let_def assms(4) by meson
qed

lemma node_ok_other:
  assumes "node_ok N c s p" "local_to i s s'" "p \<noteq> i" "nodes c' p = nodes c p"
    and "\<And>t q. (p, t, q) \<in> voters c' \<Longrightarrow> (p, t, q) \<in> voters c"
    and "\<And>q args. (q, args) \<in> rvReqs c' \<Longrightarrow> rv_candidateId args = word_of_nat p \<Longrightarrow> (q, args) \<in> rvReqs c"
  shows "node_ok N c' s' p"
proof -
  have loc: "ext s s'" "sp_term s' p = sp_term s p" "sp_log s' p = sp_log s p" "sp_lead s' p = sp_lead s p"
      "\<And>t d l. (t, p, d, l) \<in> sp_ballots s' \<Longrightarrow> (t, p, d, l) \<in> sp_ballots s"
    using assms(2,3) unfolding local_to_def by blast+
  have "votes_ok p (nodes c p) s'" "asked_ok N c' p"
    using assms(1,4-6) loc(5) unfolding node_ok_def Let_def votes_ok_def asked_ok_def by (blast, metis)
  moreover have "role (nodes c p) = Leader \<longrightarrow> matches_ok N (nodes c p) s'"
    using assms(1) ext_sets(2) [OF loc(1)] unfolding node_ok_def Let_def matches_ok_def by blast
  moreover have "role (nodes c p) = Candidate \<longrightarrow> candidate_ok N c' s' p"
    using assms(1) candidate_ok_other [OF _ assms(2-5)] unfolding node_ok_def Let_def by blast
  ultimately show ?thesis
    using assms(1) unfolding node_ok_def Let_def assms(4) loc(2-4) by blast
qed

lemma sim_step:
  assumes "sim N c s" "acts N i s s'" "nodes c' = (nodes c)(i := n')"
    and "\<And>p t q. p \<noteq> i \<Longrightarrow> (p, t, q) \<in> voters c' \<Longrightarrow> (p, t, q) \<in> voters c"
    and "\<And>q args p. p < N \<Longrightarrow> p \<noteq> i \<Longrightarrow> (q, args) \<in> rvReqs c' \<Longrightarrow> rv_candidateId args = word_of_nat p
      \<Longrightarrow> (q, args) \<in> rvReqs c"
    and "i < N \<Longrightarrow> node_ok N c' s' i" "net_ok N c' s'"
  shows "sim N c' s'"
proof -
  have "node_ok N c' s' p" if "p < N" for p
  proof (cases "p = i")
    case False
    have "node_ok N c s p"
      using assms(1) that by (simp add: sim_def)
    then show ?thesis
      by (rule node_ok_other [OF _ acts_local [OF assms(2)] False]) (use assms(3-5) that False in auto)
  qed (use assms(6) that in simp)
  then show ?thesis
    using assms(1,7) acts_reach [OF assms(2)] by (simp add: sim_def)
qed

section \<open>Reading the relation\<close>

lemma simD:
  assumes "sim N c s"
  shows "spec_reach N s" "spec_inv N s" "N < 2 ^ 31" "i < N \<Longrightarrow> node_ok N c s i" "net_ok N c s"
  using assms spec_reach_inv by (auto simp: sim_def)

lemma nodeD:
  assumes "sim N c s" "i < N"
  shows "wf_node N i (nodes c i)" "sp_term s i = currentTerm (nodes c i)" "sp_log s i = rlog (nodes c i)"
    "sp_lead s i \<longleftrightarrow> role (nodes c i) = Leader" "votes_ok i (nodes c i) s"
    "role (nodes c i) = Candidate \<Longrightarrow> candidate_ok N c s i"
    "role (nodes c i) = Leader \<Longrightarrow> matches_ok N (nodes c i) s" "asked_ok N c i"
  using simD(4) [OF assms] by (auto simp: node_ok_def Let_def)

lemma netD:
  assumes "sim N c s"
  shows "(p, args) \<in> rvReqs c \<Longrightarrow> p < N" "(p, args) \<in> rvReqs c \<Longrightarrow> \<exists>i<N. rv_candidateId args = word_of_nat i"
    "(p, args, r) \<in> rvReps c \<Longrightarrow> (p, args) \<in> rvReqs c"
    "(p, args, r) \<in> rvReps c \<Longrightarrow> rvr_voteGranted r \<Longrightarrow>
       \<exists>l. (rv_term args, p, unat (rv_candidateId args), l) \<in> sp_ballots s \<and> logOk args l"
    "(p, args') \<in> aeReqs c \<Longrightarrow> p < N" "(p, args') \<in> aeReqs c \<Longrightarrow> request_ok s p args'"
    "(p, args', r') \<in> aeReps c \<Longrightarrow> (p, args') \<in> aeReqs c"
    "(p, args', r') \<in> aeReps c \<Longrightarrow> aer_success r' \<Longrightarrow>
       k \<le> unat (ae_prevLogIndex args') + length (ae_entries args') \<Longrightarrow> (ae_term args', p, k) \<in> sp_acks s"
    "(i, p, t) \<in> repls c \<Longrightarrow> i < N \<and> p < N \<and> p \<noteq> i" "(i, t, p) \<in> voters c \<Longrightarrow> i < N"
  using simD(5) [OF assms] unfolding net_ok_def by blast+

text \<open>The identifiers of nodes fit into 31 bits, so that they are distinct and none reads as \<^verbatim>\<open>-1\<close>.\<close>

lemma id_unat: "N < 2 ^ 31 \<Longrightarrow> i < N \<Longrightarrow> unat (word_of_nat i :: u32) = i"
  by (intro unat_of_nat_id) simp

lemma id_inj: "N < 2 ^ 31 \<Longrightarrow> i < N \<Longrightarrow> j < N \<Longrightarrow> (word_of_nat i :: u32) = word_of_nat j \<longleftrightarrow> i = j"
  by (metis id_unat)

lemma id_not_none:
  assumes "N < 2 ^ 31" "i < N"
  shows "(word_of_nat i :: u32) \<noteq> - 1"
proof
  assume "(word_of_nat i :: u32) = - 1"
  then have "i = unat (- 1 :: u32)"
    using id_unat [OF assms] by simp
  also have "(- 1 :: u32) = 0xFFFFFFFF"
    by simp
  also have "unat (0xFFFFFFFF :: u32) = 0xFFFFFFFF"
    by simp
  finally show False
    using assms by simp
qed

lemma ballots_below:
  assumes "sim N c s" "(t, i, d, l) \<in> sp_ballots s"
  shows "t \<le> sp_term s i"
  using ballot_basic(3) [OF _ assms(2)] simD(2) [OF assms(1)] by (auto simp: spec_inv_def)

section \<open>Nodes after a step\<close>

lemma node_ok_follower:
  assumes "wf_node N i (nodes c i)" "role (nodes c i) = Follower" "sp_term s i = currentTerm (nodes c i)"
    and "sp_log s i = rlog (nodes c i)" "\<not> sp_lead s i" "votes_ok i (nodes c i) s" "asked_ok N c i"
  shows "node_ok N c s i"
  using assms by (simp add: node_ok_def)

lemma asked_ok_mono:
  assumes "asked_ok N c i" "currentTerm (nodes c i) \<le> currentTerm (nodes c' i)"
    and "\<And>t p. (i, t, p) \<in> voters c' \<Longrightarrow> (i, t, p) \<in> voters c" "rvReqs c' = rvReqs c"
    and "role (nodes c' i) = Candidate \<Longrightarrow> role (nodes c i) = Candidate
      \<and> currentTerm (nodes c' i) = currentTerm (nodes c i) \<and> rlog (nodes c' i) = rlog (nodes c i)"
  shows "asked_ok N c' i"
  unfolding asked_ok_def Let_def
proof (intro conjI allI impI)
  fix t p
  assume "(i, t, p) \<in> voters c'"
  then show "t \<le> currentTerm (nodes c' i)" "p < N" "p \<noteq> i"
    using assms(1-3) unfolding asked_ok_def Let_def by (blast intro: order_trans)+
next
  fix p args
  assume "(p, args) \<in> rvReqs c'" "rv_candidateId args = word_of_nat i"
  then have old: "rv_term args \<le> currentTerm (nodes c i)" "role (nodes c i) = Candidate \<Longrightarrow>
      rv_term args = currentTerm (nodes c i) \<Longrightarrow>
      rv_lastLogIndex args = lastLogIndex (nodes c i) \<and> rv_lastLogTerm args = lastLogTerm (nodes c i)"
    using assms(1,4) unfolding asked_ok_def Let_def by blast+
  show "rv_term args \<le> currentTerm (nodes c' i)"
    using old(1) assms(2) by (rule order_trans)
  assume "role (nodes c' i) = Candidate" "rv_term args = currentTerm (nodes c' i)"
  with old(2) assms(5) show "rv_lastLogIndex args = lastLogIndex (nodes c' i)"
      "rv_lastLogTerm args = lastLogTerm (nodes c' i)"
    by (auto simp: lastLogIndex_def lastLogTerm_def)
qed

text \<open>A step that leaves term, role, log and the bookkeeping of votes and matches as they are.\<close>

lemma node_ok_same:
  assumes "node_ok N c s i" "ext s s'" "wf_node N i (nodes c' i)" "votes_ok i (nodes c' i) s'"
    and "sp_term s' i = sp_term s i" "sp_log s' i = sp_log s i" "sp_lead s' i = sp_lead s i"
    and "\<And>t b Q. sp_elected s' t = Some (i, b, Q) \<Longrightarrow> sp_elected s t = Some (i, b, Q)"
    and "currentTerm (nodes c' i) = currentTerm (nodes c i)" "role (nodes c' i) = role (nodes c i)"
    and "rlog (nodes c' i) = rlog (nodes c i)" "matchIndex (nodes c' i) = matchIndex (nodes c i)"
    and "role (nodes c i) = Candidate \<Longrightarrow> votesReceived (nodes c' i) = votesReceived (nodes c i)"
    and "\<And>t p. (i, t, p) \<in> voters c' \<Longrightarrow> (i, t, p) \<in> voters c" "rvReqs c' = rvReqs c"
  shows "node_ok N c' s' i"
proof -
  have "asked_ok N c' i"
    using assms(1) by (intro asked_ok_mono [OF _ _ assms(14,15)]) (simp_all add: node_ok_def Let_def assms(9-11))
  moreover have "role (nodes c' i) = Leader \<longrightarrow> matches_ok N (nodes c' i) s'"
    using assms(1) ext_sets(2) [OF assms(2)] unfolding node_ok_def Let_def matches_ok_def assms(9,10,12) by blast
  moreover have "candidate_ok N c' s' i" if "role (nodes c' i) = Candidate"
  proof -
    have c: "role (nodes c i) = Candidate"
      using that assms(10) by simp
    then have "candidate_ok N c s i"
      using assms(1) by (simp add: node_ok_def Let_def)
    then show ?thesis
      using assms(8,14) ext_sets(1) [OF assms(2)]
      unfolding candidate_ok_def Let_def assms(9,11) assms(13) [OF c] by meson
  qed
  ultimately show ?thesis
    using assms(1,3,4) unfolding node_ok_def Let_def by (simp add: assms(5-7,9-11))
qed

section \<open>Steps to a follower\<close>

lemma net_ok_sub:
  assumes "net_ok N c s" "ext s s'" "rvReqs c' = rvReqs c" "rvReps c' = rvReps c" "aeReqs c' = aeReqs c"
    and "aeReps c' = aeReps c" "repls c' \<subseteq> repls c" "voters c' \<subseteq> voters c"
  shows "net_ok N c' s'"
  using net_ok_ext [OF assms(2,1)] assms(7,8) unfolding net_ok_def assms(3-6) by blast

lemma raise_votes:
  assumes "sim N c s" "i < N" "currentTerm (nodes c i) \<le> currentTerm m" "sp_ballots s' = sp_ballots s"
    and "votedFor m = (if currentTerm (nodes c i) < currentTerm m then -1 else votedFor (nodes c i))"
  shows "votes_ok i m s'"
  unfolding votes_ok_def assms(4)
proof (intro allI impI)
  fix d l
  assume b: "(currentTerm m, i, d, l) \<in> sp_ballots s"
  then have "currentTerm m = currentTerm (nodes c i)"
    using ballots_below [OF assms(1) b] nodeD(2) [OF assms(1,2)] assms(3) by simp
  with b nodeD(5) [OF assms(1,2)] assms(5) show "votedFor m = word_of_nat d"
    by (auto simp: votes_ok_def)
qed

lemma follower_step:
  assumes "sim N c s" "i < N" "acts N i s s'" "nodes c' = (nodes c)(i := n')" "wf_node N i n'" "role n' = Follower"
    and "currentTerm (nodes c i) \<le> currentTerm n'"
    and "votedFor n' = (if currentTerm (nodes c i) < currentTerm n' then -1 else votedFor (nodes c i))"
    and "sp_term s' i = currentTerm n'" "sp_log s' i = rlog n'" "\<not> sp_lead s' i" "sp_ballots s' = sp_ballots s"
    and "voters c' \<subseteq> voters c" "rvReqs c' = rvReqs c" "net_ok N c' s'"
  shows "sim N c' s'"
proof -
  note n = nodeD [OF assms(1,2)]
  have votes: "votes_ok i n' s'"
    by (rule raise_votes [OF assms(1,2,7,12,8)])
  have "asked_ok N c' i"
    using n(8) assms(4,6,7,13,14) by (intro asked_ok_mono [of N c i c']) auto
  then have "node_ok N c' s' i"
    using assms(4-6,9-11) votes by (intro node_ok_follower) simp_all
  then show ?thesis
    using assms(4,13-15) by (intro sim_step [OF assms(1,3)]) auto
qed

text \<open>The case in which nothing else in the cluster changes.\<close>

lemma raise_put:
  assumes "sim N c s" "i < N" "wf_node N i n'" "role n' = Follower"
    and "currentTerm (nodes c i) \<le> currentTerm n'" "rlog n' = rlog (nodes c i)"
    and "votedFor n' = (if currentTerm (nodes c i) < currentTerm n' then -1 else votedFor (nodes c i))"
    and "nodes c' = (nodes c)(i := n')" "rvReqs c' = rvReqs c" "rvReps c' = rvReps c" "aeReqs c' = aeReqs c"
    and "aeReps c' = aeReps c" "repls c' \<subseteq> repls c" "voters c' \<subseteq> voters c"
  shows "acts N i s (do_raise i (currentTerm n') s)" "sim N c' (do_raise i (currentTerm n') s)"
proof -
  show acts: "acts N i s (do_raise i (currentTerm n') s)"
    using simD(1) [OF assms(1)] assms(2,5) nodeD(2) [OF assms(1,2)] by (intro acts_raise) simp_all
  then have "net_ok N c' (do_raise i (currentTerm n') s)"
    using acts_local by (intro net_ok_sub [OF simD(5) [OF assms(1)] _ assms(9-14)]) (auto simp: local_to_def)
  with acts show "sim N c' (do_raise i (currentTerm n') s)"
    using nodeD(3) [OF assms(1,2)] assms(6)
    by (intro follower_step [OF assms(1,2) acts assms(8,3-5,7)]) (simp_all add: do_raise_def assms(9,14))
qed

text \<open>The case in which the node keeps its term, role, vote and log.\<close>

lemma quiet_put:
  assumes "sim N c s" "i < N" "wf_node N i n'" "nodes c' = (nodes c)(i := n')"
    and "currentTerm n' = currentTerm (nodes c i)" "role n' = role (nodes c i)" "rlog n' = rlog (nodes c i)"
    and "votedFor n' = votedFor (nodes c i)" "matchIndex n' = matchIndex (nodes c i)"
    and "role (nodes c i) = Candidate \<Longrightarrow> votesReceived n' = votesReceived (nodes c i)"
    and "rvReqs c' = rvReqs c" "net_ok N c' s" "voters c' \<subseteq> voters c"
  shows "sim N c' s"
proof (rule sim_step [OF assms(1) acts.none assms(4)])
  note n = nodeD [OF assms(1,2)]
  have "votes_ok i (nodes c' i) s"
    using n(5) assms(4,5,8) by (simp add: votes_ok_def)
  then show "node_ok N c' s i"
    using assms(3-7,9-13) simD(4) [OF assms(1,2)] by (intro node_ok_same [of N c s i s c']) auto
qed (use assms in auto)

section \<open>Becoming leader\<close>

lemma peer_range:
  assumes "wf_node N i n" "p \<in> set (peers n)"
  shows "unat p < N \<and> unat p \<noteq> i"
proof -
  obtain k where k: "p = word_of_nat k" "k < N" "p \<noteq> node_id n"
    using assms(2) wf_node_ids(2) [OF assms(1)] by (auto simp: peers_def)
  have "N < 2 ^ 31" "node_id n = word_of_nat i"
    using assms(1) by (auto simp: wf_node_def)
  with k id_unat [of N k] show ?thesis by auto
qed

lemma spawn_other [simp]:
  "nodes (spawn i ths c) = nodes c" "rvReps (spawn i ths c) = rvReps c" "aeReqs (spawn i ths c) = aeReqs c"
  "aeReps (spawn i ths c) = aeReps c" "spawn i [] c = c"
  by (simp_all add: spawn_def)

lemma spawn_repls:
  "rvReqs (spawn i (map (\<lambda>p. Replicator p t) ps) c) = rvReqs c"
  "voters (spawn i (map (\<lambda>p. Replicator p t) ps) c) = voters c"
  "repls (spawn i (map (\<lambda>p. Replicator p t) ps) c) = repls c \<union> {(i, unat p, t) | p. p \<in> set ps}"
  by (auto simp: spawn_def)

lemma net_ok_spawn_repls:
  assumes "net_ok N c s" "i < N" "wf_node N i n" "ths = map (\<lambda>p. Replicator p t) (peers n)"
  shows "net_ok N (spawn i ths c) s"
proof -
  have new: "repls (spawn i ths c) = repls c \<union> {(i, unat p, t) | p. p \<in> set (peers n)}"
    unfolding assms(4) by (rule spawn_repls)
  have "\<forall>j p u. (j, p, u) \<in> repls c \<longrightarrow> j < N \<and> p < N \<and> p \<noteq> j"
    using assms(1) unfolding net_ok_def by blast
  then have "\<forall>j p u. (j, p, u) \<in> repls (spawn i ths c) \<longrightarrow> j < N \<and> p < N \<and> p \<noteq> j"
    using peer_range [OF assms(3)] assms(2) unfolding new by blast
  moreover have "rvReqs (spawn i ths c) = rvReqs c" "voters (spawn i ths c) = voters c"
    unfolding assms(4) by (rule spawn_repls)+
  ultimately show ?thesis
    using assms(1) unfolding net_ok_def by simp
qed

lemma lead_matches:
  assumes "becomeLeader n = (n', ths)" "wf_node N i n" "length (rlog n) + 1 < 2 ^ 64"
    and "\<And>k. k \<le> length (rlog n) \<Longrightarrow> (currentTerm n, i, k) \<in> sp_acks s"
  shows "matches_ok N n' s"
  unfolding matches_ok_def
proof (intro allI impI)
  note f = becomeLeader_frame [OF assms(1)]
  fix p k
  assume p: "p < N" and k: "0 < k" "k \<le> unat (matchIndex n' ! p)"
  have "length (matchIndex n) = N" "unat (node_id n) = i" "unat (lastLogIndex n') = length (rlog n)"
    using assms(2) wf_node_ids(1) [OF assms(2)] snoc_last [OF f(7) assms(3)] by (auto simp: wf_node_def)
  with p k have "p = i" "k \<le> length (rlog n)"
    unfolding f(10) by (cases "p = i"; simp)+
  then show "(currentTerm n', p, k) \<in> sp_acks s"
    using assms(4) by (simp add: f(4))
qed

lemma become_leader:
  assumes "sim N c s" "i < N" "acts N i s s1" "wf_node N i n" "sp_term s1 i = currentTerm n" "sp_log s1 i = rlog n"
    and "votes_ok i n s1" "0 < currentTerm n" "supported N s1 i Q"
    and "\<forall>b Q'. sp_elected s1 (sp_term s1 i) \<noteq> Some (i, b, Q')"
    and "becomeLeader n = (n', ths)" "length (rlog n) + 1 < 2 ^ 64"
    and "nodes c1 = (nodes c)(i := n')" "rvReqs c1 = rvReqs c" "voters c1 \<subseteq> voters c" "net_ok N c1 s1"
    and "currentTerm (nodes c i) \<le> currentTerm n"
  shows "\<exists>s'. acts N i s s' \<and> sim N (spawn i ths c1) s'"
proof -
  let ?e = "\<lparr>entry_term = currentTerm n, entry_command = []\<rparr>"
  let ?s2 = "do_elect i Q ?e s1" let ?s3 = "do_ack i (length (rlog n)) ?s2" and ?c = "spawn i ths c1"
  note f = becomeLeader_frame [OF assms(11)]
  have wf: "wf_node N i n'"
    using assms(8) by (intro becomeLeader_wf [OF assms(11,4,12)]) auto
  have r1: "spec_reach N s1"
    using acts_reach [OF assms(3) simD(1) [OF assms(1)]] .
  have a2: "acts N i s1 ?s2"
    using assms(5,8-10) by (intro acts_elect [OF r1 assms(2)]) simp_all
  have a3: "acts N i ?s2 ?s3"
    by (intro acts_self [OF acts_reach [OF a2 r1] assms(2)]) (simp_all add: spec_ops assms(6))
  have acts: "acts N i s ?s3"
    by (rule acts_trans [OF acts_trans [OF assms(3) a2] a3])
  have sp: "sp_term ?s3 i = currentTerm n'" "sp_log ?s3 i = rlog n'" "sp_lead ?s3 i" "sp_ballots ?s3 = sp_ballots s1"
    by (simp_all add: spec_ops f assms(5,6))
  have same: "rvReqs ?c = rvReqs c" "voters ?c \<subseteq> voters c" "nodes ?c = (nodes c)(i := n')"
    using assms(13-15) unfolding f(11) by (simp_all add: spawn_repls)
  have "matches_ok N n' ?s3"
    by (rule lead_matches [OF assms(11,4,12)]) (simp add: spec_ops assms(5))
  moreover have "asked_ok N ?c i"
    by (rule asked_ok_mono [OF nodeD(8) [OF assms(1,2)] _ _ same(1)])
      (use same(2) assms(17) in \<open>auto simp: assms(13) f(3,4)\<close>)
  moreover have "votes_ok i n' ?s3"
    using assms(7) by (simp add: votes_ok_def sp(4) f(4,5))
  ultimately have "node_ok N ?c ?s3 i"
    using wf sp(1-3) by (simp add: node_ok_def f(3) assms(13))
  moreover have "net_ok N ?c ?s3"
    using acts_local [OF acts_trans [OF a2 a3]] wf f(11)
    by (intro net_ok_spawn_repls [OF net_ok_ext [OF _ assms(16)] assms(2)]) (auto simp: local_to_def)
  ultimately have "sim N ?c ?s3"
    using same by (intro sim_step [OF assms(1) acts same(3)]) auto
  with acts show ?thesis by blast
qed

section \<open>Elections\<close>

lemma up_to_date_refl: "up_to_date l l"
  by (simp add: up_to_date_def)

lemma room_next:
  assumes "room n"
  shows "currentTerm n < currentTerm n + 1" "0 < currentTerm n + 1"
proof -
  have "1 + currentTerm n \<noteq> 0"
  proof
    assume "1 + currentTerm n = 0"
    then have "currentTerm n = - 1"
      by (simp add: add_eq_0_iff)
    with assms show False by (simp add: room_def)
  qed
  then have "unat (currentTerm n + 1) = unat (currentTerm n) + 1"
    using unatSuc [of "currentTerm n"] by (simp add: add.commute)
  then show "currentTerm n < currentTerm n + 1" "0 < currentTerm n + 1"
    by (simp_all add: word_less_nat_alt)
qed

definition own_ballot :: "nat \<Rightarrow> RaftNode \<Rightarrow> spec \<Rightarrow> spec" where
  "own_ballot i n s = do_vote i i (do_raise i (currentTerm n + 1) s)"

lemma own_ballot_sel [simp]:
  "sp_term (own_ballot i n s) = (sp_term s)(i := currentTerm n + 1)" "sp_log (own_ballot i n s) = sp_log s"
  "sp_lead (own_ballot i n s) = (sp_lead s)(i := False)" "sp_elected (own_ballot i n s) = sp_elected s"
  "sp_ballots (own_ballot i n s) = insert (currentTerm n + 1, i, i, sp_log s i) (sp_ballots s)"
  by (simp_all add: own_ballot_def spec_ops)

lemma election_acts:
  assumes "sim N c s" "i < N" "room (nodes c i)"
  shows "acts N i s (own_ballot i (nodes c i) s)"
    "(currentTerm (nodes c i) + 1, i, d, l) \<notin> sp_ballots s"
    "sp_elected s (currentTerm (nodes c i) + 1) \<noteq> Some (i, b, Q)"
proof -
  let ?t = "currentTerm (nodes c i) + 1" and ?s1 = "do_raise i (currentTerm (nodes c i) + 1) s"
  note next_term = room_next(1) [OF assms(3)] and tm = nodeD(2) [OF assms(1,2)]
  show none: "(?t, i, d, l) \<notin> sp_ballots s" for d l
    using ballots_below [OF assms(1), of ?t i d l] next_term tm by auto
  show "sp_elected s ?t \<noteq> Some (i, b, Q)"
    using elected_basic(4) [of N s ?t i b Q] simD(2) [OF assms(1)] next_term tm by (auto simp: spec_inv_def)
  have a1: "acts N i s ?s1"
    using simD(1) [OF assms(1)] assms(2) next_term tm by (intro acts_raise) simp_all
  have "acts N i ?s1 (do_vote i i ?s1)"
    using none acts_reach [OF a1 simD(1) [OF assms(1)]] assms(2) by (intro acts_vote) (simp_all add: do_raise_def)
  with a1 show "acts N i s (own_ballot i (nodes c i) s)"
    unfolding own_ballot_def by (rule acts_trans)
qed

lemma election_votes:
  assumes "sim N c s" "i < N" "room (nodes c i)" "currentTerm m = currentTerm (nodes c i) + 1" "votedFor m = word_of_nat i"
  shows "votes_ok i m (own_ballot i (nodes c i) s)"
  using election_acts(2) [OF assms(1-3)] assms(4,5) by (auto simp: votes_ok_def)

lemma candidate_ids:
  assumes "wf_node N i n" "candidate_of n m"
  shows "votedFor m = word_of_nat i" "currentTerm m = currentTerm n + 1" "rlog m = rlog n"
  using assms by (auto simp: wf_node_def candidate_of_def)

lemma step_alone:
  assumes "sim N c s" "i < N" "room (nodes c i)" "candidate_of (nodes c i) m" "majority (nodes c i) \<le> 1"
    and "becomeLeader m = (n', ths)"
  shows "\<exists>s'. acts N i s s' \<and> sim N (spawn i ths (put i n' c)) s'"
proof -
  let ?s = "own_ballot i (nodes c i) s"
  note n = nodeD [OF assms(1,2)] and a = election_acts [OF assms(1-3)] and m = candidate_ids [OF n(1) assms(4)]
  have "N div 2 + 1 \<le> 1"
    using assms(5) wf_node_majority [OF n(1)] by (simp add: word_le_nat_alt)
  then have "supported N ?s i {i}"
    using assms(2) n(3) by (auto simp: supported_def quorum_def intro: up_to_date_refl)
  moreover have "net_ok N (put i n' c) ?s"
    using acts_local [OF a(1)] by (intro net_ok_sub [OF simD(5) [OF assms(1)]]) (auto simp: local_to_def put_def)
  ultimately show ?thesis
    using a(3) m room_next [OF assms(3)] election_votes [OF assms(1-3)] n(3) assms(3)
    by (intro become_leader [OF assms(1,2) a(1) candidate_wf [OF n(1) assms(4,3)], where Q = "{i}"])
      (simp_all add: assms(6) put_def room_def)
qed

lemma spawn_voters:
  "rvReqs (spawn i (map (\<lambda>p. VoteSender p args) ps) c) = rvReqs c \<union> {(unat p, args) | p. p \<in> set ps}"
  "voters (spawn i (map (\<lambda>p. VoteSender p args) ps) c) = voters c \<union> {(i, rv_term args, unat p) | p. p \<in> set ps}"
  "repls (spawn i (map (\<lambda>p. VoteSender p args) ps) c) = repls c"
  by (auto simp: spawn_def)

lemma net_ok_spawn_voters:
  assumes "net_ok N c s" "i < N" "wf_node N i n" "rv_candidateId args = word_of_nat i"
  shows "net_ok N (spawn i (map (\<lambda>p. VoteSender p args) (peers n)) c) s"
proof -
  note peers = peer_range [OF assms(3)]
  have 1: "\<forall>p a. (p, a) \<in> rvReqs c \<union> {(unat p, args) | p. p \<in> set (peers n)}
      \<longrightarrow> p < N \<and> (\<exists>i<N. rv_candidateId a = word_of_nat i)"
    using assms(1,2,4) peers unfolding net_ok_def by blast
  have 2: "\<forall>j t p. (j, t, p) \<in> voters c \<union> {(i, rv_term args, unat p) | p. p \<in> set (peers n)} \<longrightarrow> j < N"
    using assms(1,2) unfolding net_ok_def by blast
  show ?thesis
    using assms(1) 1 2 unfolding net_ok_def spawn_voters spawn_other by blast
qed

lemma asking_asked:
  assumes "sim N c s" "i < N" "room (nodes c i)" "candidate_of (nodes c i) m"
    and "args = \<lparr>rv_term = currentTerm (nodes c i) + 1, rv_candidateId = node_id (nodes c i),
      rv_lastLogIndex = lastLogIndex (nodes c i), rv_lastLogTerm = lastLogTerm (nodes c i)\<rparr>"
  shows "asked_ok N (spawn i (map (\<lambda>p. VoteSender p args) (peers (nodes c i))) (put i m c)) i"
proof -
  note n = nodeD [OF assms(1,2)] and m = candidate_ids [OF n(1) assms(4)]
  have less: "currentTerm (nodes c i) < currentTerm m"
    using room_next(1) [OF assms(3)] m(2) by simp
  have last: "lastLogIndex m = lastLogIndex (nodes c i)" "lastLogTerm m = lastLogTerm (nodes c i)"
    by (simp_all add: lastLogIndex_def lastLogTerm_def m(3))
  have new: "rv_term args = currentTerm m" "rv_lastLogIndex args = lastLogIndex m" "rv_lastLogTerm args = lastLogTerm m"
    by (simp_all add: assms(5) m(2) last)
  have 1: "t \<le> currentTerm m \<and> p < N \<and> p \<noteq> i"
    if "(i, t, p) \<in> voters c \<union> {(i, rv_term args, unat p) | p. p \<in> set (peers (nodes c i))}" for t p
    using n(8) that peer_range [OF n(1)] less new(1) unfolding asked_ok_def Let_def by fastforce
  have 2: "rv_term a \<le> currentTerm m \<and> (rv_term a = currentTerm m \<longrightarrow> a = args)"
    if "(p, a) \<in> rvReqs c \<union> {(unat p, args) | p. p \<in> set (peers (nodes c i))}" "rv_candidateId a = word_of_nat i" for p a
    using n(8) that less new(1) unfolding asked_ok_def Let_def by fastforce
  have put: "voters (put i m c) = voters c" "rvReqs (put i m c) = rvReqs c" "nodes (put i m c) i = m"
    by (simp_all add: put_def)
  show ?thesis
    unfolding asked_ok_def Let_def spawn_voters spawn_other put
    using 1 2 new by blast
qed

lemma step_asking:
  assumes "sim N c s" "i < N" "room (nodes c i)" "candidate_of (nodes c i) m"
    and "args = \<lparr>rv_term = currentTerm (nodes c i) + 1, rv_candidateId = node_id (nodes c i),
      rv_lastLogIndex = lastLogIndex (nodes c i), rv_lastLogTerm = lastLogTerm (nodes c i)\<rparr>"
  shows "\<exists>s'. acts N i s s' \<and> sim N (spawn i (map (\<lambda>p. VoteSender p args) (peers (nodes c i))) (put i m c)) s'"
proof -
  let ?s = "own_ballot i (nodes c i) s" and ?c = "spawn i (map (\<lambda>p. VoteSender p args) (peers (nodes c i))) (put i m c)"
  note n = nodeD [OF assms(1,2)] and a = election_acts [OF assms(1-3)] and m = candidate_ids [OF n(1) assms(4)]
  have rm: "role m = Candidate" "votesReceived m = 1"
    using assms(4) by (auto simp: candidate_of_def)
  have id: "rv_candidateId args = word_of_nat i"
    using n(1) by (simp add: assms(5) wf_node_def)
  have asked: "asked_ok N ?c i"
    by (rule asking_asked [OF assms])
  then have "(i, currentTerm m, i) \<notin> voters ?c"
    unfolding asked_ok_def Let_def by blast
  then have "candidate_ok N ?c ?s i"
    unfolding candidate_ok_def Let_def
    using a(3) m rm(2) room_next(2) [OF assms(3)] assms(2) n(3)
    by (auto simp: put_def intro!: exI [of _ "{i}"] up_to_date_refl)
  then have "node_ok N ?c ?s i"
    using asked candidate_wf [OF n(1) assms(4,3)] election_votes [OF assms(1-3) m(2,1)] m n(3) rm
    by (simp add: node_ok_def put_def)
  moreover have "net_ok N (put i m c) ?s"
    using acts_local [OF a(1)] by (intro net_ok_sub [OF simD(5) [OF assms(1)]]) (auto simp: local_to_def put_def)
  then have "net_ok N ?c ?s"
    by (rule net_ok_spawn_voters [OF _ assms(2) n(1) id])
  moreover have "(q, x) \<in> rvReqs c"
    if "p < N" "p \<noteq> i" "(q, x) \<in> rvReqs ?c" "rv_candidateId x = word_of_nat p" for p q x
    using that id id_inj [OF simD(3) [OF assms(1)], of i p] assms(2) unfolding spawn_voters by (auto simp: put_def)
  ultimately have "sim N ?c ?s"
    by (intro sim_step [OF assms(1) a(1), where n' = m]) (auto simp: put_def spawn_voters)
  with a(1) show ?thesis by blast
qed

lemma step_tick:
  assumes "sim N c s" "i < N" "room (nodes c i)" "tickerLoop ck (nodes c i) = (n', ths)"
  shows "\<exists>s'. acts N i s s' \<and> sim N (spawn i ths (put i n' c)) s'"
proof (cases "startElection ck (nodes c i) = (n', ths)")
  case True
  then show ?thesis
  proof (cases rule: startElection_cases)
    case (alone m)
    with step_alone [OF assms(1-3)] show ?thesis by blast
  next
    case asking
    with step_asking [OF assms(1-3) asking(1) refl] show ?thesis by simp
  qed
next
  case False
  then have "n' = nodes c i" "ths = []"
    using assms(4) by (auto simp: tickerLoop_def split: if_splits)
  then have "spawn i ths (put i n' c) = c"
    by (simp add: put_def)
  with assms(1) acts.none show ?thesis by auto
qed

section \<open>Vote requests and replies\<close>

lemma put_simps [simp]:
  "nodes (put i n c) = (nodes c)(i := n)" "rvReqs (put i n c) = rvReqs c" "rvReps (put i n c) = rvReps c"
  "voters (put i n c) = voters c" "aeReqs (put i n c) = aeReqs c" "aeReps (put i n c) = aeReps c"
  "repls (put i n c) = repls c" "pending (put i n c) = pending c" "applied (put i n c) = applied c"
  "history (put i n c) = history c" "put i n (put i m c) = put i n c"
  by (simp_all add: put_def)

lemma onRequestVote_raise:
  "currentTerm n < rv_term args \<Longrightarrow>
   onRequestVote ck args n = onRequestVote ck args (becomeFollower ck (rv_term args) n)"
  using less_not_sym [of "currentTerm n" "rv_term args"] by (simp add: onRequestVote_def Let_def)

lemma net_ok_rvReply:
  assumes "net_ok N c s" "ext s s'" "(p, args) \<in> rvReqs c"
    and "rvr_voteGranted reply \<Longrightarrow>
      \<exists>l. (rv_term args, p, unat (rv_candidateId args), l) \<in> sp_ballots s' \<and> logOk args l"
  shows "net_ok N ((put p n c)\<lparr>rvReps := insert (p, args, reply) (rvReps c)\<rparr>) s'"
proof -
  have old: "net_ok N c s'"
    using assms(2,1) by (rule net_ok_ext)
  show ?thesis
    using old assms(3,4) unfolding net_ok_def by simp
qed

lemma step_vote_same:
  assumes "sim N c s" "(p, args) \<in> rvReqs c" "\<not> currentTerm (nodes c p) < rv_term args"
    and "onRequestVote ck args (nodes c p) = (reply, n')"
  shows "\<exists>s'. acts N p s s' \<and> sim N ((put p n' c)\<lparr>rvReps := insert (p, args, reply) (rvReps c)\<rparr>) s'"
proof -
  let ?c = "(put p n' c)\<lparr>rvReps := insert (p, args, reply) (rvReps c)\<rparr>"
  have p: "p < N" using netD(1) [OF assms(1,2)] .
  note n = nodeD [OF assms(1) p] and f = onRequestVote_frame [OF assms(4)] and v = onRequestVote_vote [OF assms(4)]
  have wf: "wf_node N p n'"
    using assms(4) n(1) by (rule onRequestVote_wf)
  have keep: "currentTerm n' = currentTerm (nodes c p)" "role n' = role (nodes c p)"
    "votesReceived n' = votesReceived (nodes c p)"
    using assms(3,4) by (auto simp: onRequestVote_def Let_def split: if_splits)
  show ?thesis
  proof (cases "rvr_voteGranted reply")
    case False
    then have "votedFor n' = votedFor (nodes c p)"
      using v(2) assms(3) by simp
    with p wf f keep False net_ok_rvReply [OF simD(5) [OF assms(1)] ext_refl assms(2)] have "sim N ?c s"
      by (intro quiet_put [OF assms(1) p wf]) auto
    with acts.none show ?thesis by blast
  next
    case True
    obtain d where d: "d < N" "rv_candidateId args = word_of_nat d"
      using netD(2) [OF assms(1,2)] by blast
    have id: "unat (rv_candidateId args) = d"
      using id_unat [OF simD(3) [OF assms(1)] d(1)] d(2) by simp
    have tm: "rv_term args = currentTerm (nodes c p)"
      using v(1) [OF True] keep(1) by simp
    have once: "d' = d" if "(currentTerm (nodes c p), p, d', l) \<in> sp_ballots s" for d' l
    proof -
      have "votedFor (nodes c p) = word_of_nat d'" "d' < N"
        using n(5) that ballot_basic(2) [OF _ that] simD(2) [OF assms(1)] by (auto simp: votes_ok_def spec_inv_def)
      then show ?thesis
        using v(1) [OF True] tm d id_not_none [OF simD(3) [OF assms(1)], of d']
          id_inj [OF simD(3) [OF assms(1)], of d' d] by auto
    qed
    have acts: "acts N p s (do_vote p d s)"
      using once n(2) by (intro acts_vote [OF simD(1) [OF assms(1)] p d(1)]) auto
    have votes: "votes_ok p n' (do_vote p d s)"
      using once v(1) [OF True] d(2) n(2) keep(1) by (auto simp: votes_ok_def do_vote_frame)
    have ex: "ext s (do_vote p d s)"
      using acts_local [OF acts] by (simp add: local_to_def)
    have "(rv_term args, p, unat (rv_candidateId args), rlog (nodes c p)) \<in> sp_ballots (do_vote p d s)"
      by (simp add: do_vote_frame id tm n(2,3))
    with onRequestVote_logOk [OF assms(4) n(1) True] have "net_ok N ?c (do_vote p d s)"
      by (intro net_ok_rvReply [OF simD(5) [OF assms(1)] ex assms(2)]) blast
    moreover have "node_ok N ?c (do_vote p d s) p"
      by (rule node_ok_same [OF simD(4) [OF assms(1) p] ex])
        (use wf votes f(3,7) keep in \<open>simp_all add: do_vote_def\<close>)
    ultimately have "sim N ?c (do_vote p d s)"
      by (intro sim_step [OF assms(1) acts]) auto
    with acts show ?thesis by blast
  qed
qed

lemma step_vote_request:
  assumes "sim N c s" "(p, args) \<in> rvReqs c" "onRequestVote ck args (nodes c p) = (reply, n')"
  shows "\<exists>s'. acts N p s s' \<and> sim N ((put p n' c)\<lparr>rvReps := insert (p, args, reply) (rvReps c)\<rparr>) s'"
proof (cases "currentTerm (nodes c p) < rv_term args")
  case True
  let ?m = "becomeFollower ck (rv_term args) (nodes c p)"
  have p: "p < N" using netD(1) [OF assms(1,2)] .
  have m: "currentTerm ?m = rv_term args"
    using True by simp
  have 1: "acts N p s (do_raise p (rv_term args) s)" "sim N (put p ?m c) (do_raise p (rv_term args) s)"
    using raise_put [OF assms(1) p becomeFollower_wf [OF nodeD(1) [OF assms(1) p]], of ck "rv_term args" "put p ?m c"] True
    unfolding m by auto
  have "onRequestVote ck args (nodes (put p ?m c) p) = (reply, n')"
    using assms(3) onRequestVote_raise [OF True] by simp
  then obtain s' where "acts N p (do_raise p (rv_term args) s) s'"
      "sim N ((put p n' (put p ?m c))\<lparr>rvReps := insert (p, args, reply) (rvReps (put p ?m c))\<rparr>) s'"
    using step_vote_same [OF 1(2), of p args ck reply n'] assms(2) m by auto
  with acts_trans [OF 1(1)] show ?thesis
    by (simp only: put_simps) blast
qed (use step_vote_same [OF assms(1,2) _ assms(3)] in blast)

lemma reply_ballot:
  assumes "sim N c s" "i < N" "(p, args, r) \<in> rvReps c" "rv_candidateId args = word_of_nat i" "rvr_voteGranted r"
    and "role (nodes c i) = Candidate" "currentTerm (nodes c i) = rv_term args"
  obtains l where "(currentTerm (nodes c i), p, i, l) \<in> sp_ballots s" "up_to_date (rlog (nodes c i)) l" "p < N"
proof -
  note n = nodeD [OF assms(1,2)]
  obtain l where l: "(rv_term args, p, unat (rv_candidateId args), l) \<in> sp_ballots s" "logOk args l"
    using netD(4) [OF assms(1,3,5)] by blast
  have id: "unat (rv_candidateId args) = i"
    using id_unat [OF simD(3) [OF assms(1)] assms(2)] assms(4) by simp
  have req: "(p, args) \<in> rvReqs c"
    using netD(3) [OF assms(1,3)] .
  then have "rv_lastLogIndex args = lastLogIndex (nodes c i)" "rv_lastLogTerm args = lastLogTerm (nodes c i)"
    using n(8) assms(4,6,7) unfolding asked_ok_def Let_def by auto
  then have "up_to_date (rlog (nodes c i)) l"
    using l(2) wf_node_log [OF n(1)] by (auto simp: logOk_def up_to_date_def le_diff_conv)
  with l(1) id assms(7) netD(1) [OF assms(1) req] show thesis
    by (intro that) simp_all
qed

lemma counted_voters:
  assumes "sim N c s" "i < N" "(i, rv_term args, p) \<in> voters c" "(p, args, r) \<in> rvReps c"
    and "rv_candidateId args = word_of_nat i" "rvr_voteGranted r"
    and "role (nodes c i) = Candidate" "currentTerm (nodes c i) = rv_term args"
  obtains Q where "Q \<subseteq> {..<N}" "card Q = unat (votesReceived (nodes c i) + 1)"
    "\<forall>q \<in> Q. (i, currentTerm (nodes c i), q) \<notin> voters c - {(i, rv_term args, p)}
       \<and> (\<exists>l. (currentTerm (nodes c i), q, i, l) \<in> sp_ballots s \<and> up_to_date (rlog (nodes c i)) l)"
proof -
  let ?n = "nodes c i"
  obtain l where l: "(currentTerm ?n, p, i, l) \<in> sp_ballots s" "up_to_date (rlog ?n) l" "p < N"
    by (rule reply_ballot [OF assms(1,2,4-8)])
  obtain Q where Q: "Q \<subseteq> {..<N}" "card Q = unat (votesReceived ?n)"
      "\<forall>q \<in> Q. (i, currentTerm ?n, q) \<notin> voters c \<and> (\<exists>l. (currentTerm ?n, q, i, l) \<in> sp_ballots s \<and> up_to_date (rlog ?n) l)"
    using nodeD(6) [OF assms(1,2,7)] unfolding candidate_ok_def Let_def by blast
  have "p \<notin> Q"
    using Q(3) assms(3,8) by auto
  moreover have fin: "finite Q"
    using Q(1) by (rule finite_subset) simp
  ultimately have card: "card (insert p Q) = unat (votesReceived ?n) + 1"
    using Q(2) by simp
  have "card (insert p Q) \<le> N"
    using card_mono [of "{..<N}" "insert p Q"] Q(1) l(3) by simp
  then have "unat (votesReceived ?n) + 1 < 2 ^ 32"
    using card simD(3) [OF assms(1)] by simp
  then have "unat (votesReceived ?n + 1) = unat (votesReceived ?n) + 1"
    by (simp add: unat_word_ariths)
  with card Q(1,3) l assms(8) show thesis
    by (intro that [of "insert p Q"]) auto
qed

lemma step_counted:
  assumes "sim N c s" "i < N" "(i, rv_term args, p) \<in> voters c" "(p, args, r) \<in> rvReps c"
    and "rv_candidateId args = word_of_nat i" "rvr_voteGranted r"
    and "role (nodes c i) = Candidate" "currentTerm (nodes c i) = rv_term args"
    and "n' = (nodes c i)\<lparr>votesReceived := votesReceived (nodes c i) + 1\<rparr>"
    and "c' = (put i n' c)\<lparr>voters := voters c - {(i, rv_term args, p)}\<rparr>"
  shows "sim N c' s"
proof -
  note n = nodeD [OF assms(1,2)]
  obtain Q where Q: "Q \<subseteq> {..<N}" "card Q = unat (votesReceived (nodes c i) + 1)"
    "\<forall>q \<in> Q. (i, currentTerm (nodes c i), q) \<notin> voters c - {(i, rv_term args, p)}
       \<and> (\<exists>l. (currentTerm (nodes c i), q, i, l) \<in> sp_ballots s \<and> up_to_date (rlog (nodes c i)) l)"
    by (rule counted_voters [OF assms(1-8)])
  have "0 < currentTerm (nodes c i)" "\<forall>b Q. sp_elected s (currentTerm (nodes c i)) \<noteq> Some (i, b, Q)"
    using n(6) [OF assms(7)] unfolding candidate_ok_def Let_def by blast+
  with Q have "candidate_ok N c' s i"
    unfolding candidate_ok_def Let_def by (auto simp: assms(9,10))
  moreover have "asked_ok N c' i"
    by (rule asked_ok_mono [OF n(8)]) (auto simp: assms(7,9,10))
  ultimately have "node_ok N c' s i"
    using n assms(7) by (simp add: node_ok_def assms(9,10) votes_ok_def)
  moreover have "net_ok N c' s"
    by (rule net_ok_sub [OF simD(5) [OF assms(1)]]) (auto simp: assms(10))
  ultimately show ?thesis
    by (intro sim_step [OF assms(1) acts.none, of _ i n']) (auto simp: assms(10))
qed

lemma step_won:
  assumes "sim N c s" "i < N" "(i, rv_term args, p) \<in> voters c" "(p, args, r) \<in> rvReps c"
    and "rv_candidateId args = word_of_nat i" "rvr_voteGranted r" "room (nodes c i)"
    and "role (nodes c i) = Candidate" "currentTerm (nodes c i) = rv_term args"
    and "majority (nodes c i) \<le> votesReceived (nodes c i) + 1"
    and "becomeLeader ((nodes c i)\<lparr>votesReceived := votesReceived (nodes c i) + 1\<rparr>) = (n', ths)"
    and "c' = (put i n' c)\<lparr>voters := voters c - {(i, rv_term args, p)}\<rparr>"
  shows "\<exists>s'. acts N i s s' \<and> sim N (spawn i ths c') s'"
proof -
  note n = nodeD [OF assms(1,2)]
  obtain Q where Q: "Q \<subseteq> {..<N}" "card Q = unat (votesReceived (nodes c i) + 1)"
    "\<forall>q \<in> Q. \<exists>l. (currentTerm (nodes c i), q, i, l) \<in> sp_ballots s \<and> up_to_date (rlog (nodes c i)) l"
    by (rule counted_voters [OF assms(1-6,8,9)]) blast
  have cand: "0 < currentTerm (nodes c i)" "\<forall>b Q. sp_elected s (currentTerm (nodes c i)) \<noteq> Some (i, b, Q)"
    using n(6) [OF assms(8)] unfolding candidate_ok_def Let_def by blast+
  have "quorum N Q"
    using Q(1,2) assms(10) wf_node_majority [OF n(1)] by (simp add: quorum_def word_le_nat_alt)
  with Q(3) n(2,3) have "supported N s i Q"
    by (simp add: supported_def)
  moreover have "net_ok N c' s"
    by (rule net_ok_sub [OF simD(5) [OF assms(1)]]) (auto simp: assms(12))
  ultimately show ?thesis
    using n(1-3,5) cand assms(7,11)
    by (intro become_leader [OF assms(1,2) acts.none, where Q = Q
          and n = "(nodes c i)\<lparr>votesReceived := votesReceived (nodes c i) + 1\<rparr>"])
      (auto simp: assms(12) votes_ok_def room_def)
qed

lemma step_vote_lost:
  assumes "sim N c s" "x \<in> voters c"
  shows "sim N (c\<lparr>voters := voters c - {x}\<rparr>) s"
proof -
  obtain i t p where x: "x = (i, t, p)" by (cases x)
  have i: "i < N" using netD(10) [OF assms(1)] assms(2) x by blast
  have "net_ok N (c\<lparr>voters := voters c - {x}\<rparr>) s"
    by (rule net_ok_sub [OF simD(5) [OF assms(1)]]) auto
  then show ?thesis
    using nodeD(1) [OF assms(1) i] by (intro quiet_put [OF assms(1) i, of "nodes c i"]) auto
qed

lemma step_vote_reply:
  assumes "sim N c s" "(i, rv_term args, p) \<in> voters c" "(p, args, r) \<in> rvReps c"
    and "rv_candidateId args = word_of_nat i" "room (nodes c i)"
    and "voteSender ck args (Some r) (nodes c i) = (n', ths)"
  shows "\<exists>s'. acts N i s s' \<and> sim N (spawn i ths ((put i n' c)\<lparr>voters := voters c - {(i, rv_term args, p)}\<rparr>)) s'"
proof -
  let ?c = "(put i n' c)\<lparr>voters := voters c - {(i, rv_term args, p)}\<rparr>"
  have i: "i < N" using netD(10) [OF assms(1,2)] .
  show ?thesis
    using assms(6)
  proof (cases rule: voteSender_cases)
    case ignored
    then have "spawn i ths ?c = c\<lparr>voters := voters c - {(i, rv_term args, p)}\<rparr>"
      by (simp add: put_def)
    then show ?thesis
      using step_vote_lost [OF assms(1,2)] acts.none by auto
  next
    case (deposed u)
    have wf: "wf_node N i n'"
      using becomeFollower_wf [OF nodeD(1) [OF assms(1) i]] by (simp add: deposed(1))
    show ?thesis
      using raise_put [OF assms(1) i wf, of ?c] deposed less_imp_le [OF deposed(3)] by auto
  next
    case (counted r')
    then show ?thesis
      using step_counted [OF assms(1) i assms(2,3,4) _ _ _ _ refl] acts.none by auto
  next
    case (won r')
    then show ?thesis
      using step_won [OF assms(1) i assms(2,3,4) _ assms(5) _ _ _ won(6) refl] by simp
  qed
qed

section \<open>Append requests\<close>

lemma take_length_take: "take (length (take m xs)) xs = take m xs"
  by (cases "m \<le> length xs") (simp_all add: min_def)

lemma leader_ledger:
  assumes "sim N c s" "i < N" "role (nodes c i) = Leader"
  shows "sp_ledger s (currentTerm (nodes c i)) = rlog (nodes c i)"
    "\<exists>b Q. sp_elected s (currentTerm (nodes c i)) = Some (i, b, Q)"
proof -
  have "inv_leads N s" "sp_lead s i"
    using simD(2) [OF assms(1)] nodeD(4) [OF assms(1,2)] assms(3) by (simp_all add: spec_inv_def)
  with assms(2) show "sp_ledger s (currentTerm (nodes c i)) = rlog (nodes c i)"
      "\<exists>b Q. sp_elected s (currentTerm (nodes c i)) = Some (i, b, Q)"
    unfolding inv_leads_def nodeD(2,3) [OF assms(1,2), symmetric] by blast+
qed

lemma sent_request:
  assumes "sim N c s" "i < N" "p < N" "p \<noteq> i" "replicator_send (word_of_nat p) t (nodes c i) = Some args"
  shows "request_ok s p args"
proof -
  let ?n = "nodes c i"
  note wf = nodeD(1) [OF assms(1,2)]
  have lead: "role ?n = Leader" "currentTerm ?n = t"
    using assms(5) by (auto simp: replicator_send_def split: if_splits)
  note led = leader_ledger [OF assms(1,2) lead(1)]
  define k where "k = nextIndex ?n ! p"
  have p: "unat (word_of_nat p :: u32) = p"
    by (rule id_unat [OF simD(3) [OF assms(1)] assms(3)])
  have args: "args = \<lparr>ae_term = t, ae_leaderId = node_id ?n, ae_prevLogIndex = k - 1,
      ae_prevLogTerm = entry_term (rlog ?n ! unat (k - 1)), ae_leaderCommit = commitIndex ?n,
      ae_entries = take (unat kMaxBatch) (drop (unat k) (rlog ?n))\<rparr>"
    using assms(5) lead by (auto simp: replicator_send_def Let_def p k_def split: if_splits)
  have k: "0 < unat k" "unat k \<le> length (rlog ?n)" and len: "length (rlog ?n) < 2 ^ 64"
    using wf lead(1) assms(3) by (auto simp: wf_node_def leader_view_def k_def)
  then have prev: "unat (k - 1) = unat k - 1" "unat (k - 1) + 1 = unat k"
    using unat_pred [of 0 k] by (simp_all add: word_less_nat_alt)
  have "fits_record e" if "e \<in> set (drop (unat k) (rlog ?n))" for e
  proof -
    have "rlog ?n = sentinel # s_entries (storage ?n)" "\<forall>e \<in> set (s_entries (storage ?n)). fits_record e"
      using wf by (auto simp: wf_node_def persisted_def dependable_def wf_Storage_def wf_wal_def)
    with that k(1) show ?thesis
      by (cases "unat k") (auto dest: in_set_dropD)
  qed
  then have "sound_batch args"
    using k len prev by (auto simp: sound_batch_def args dest: in_set_takeD)
  then show ?thesis
    using led assms(4) k prev lead(2)
    by (auto simp: request_ok_def Let_def args take_length_take min_def)
qed

lemma step_send:
  assumes "sim N c s" "(i, p, t) \<in> repls c" "replicator_send (word_of_nat p) t (nodes c i) = Some args"
  shows "sim N (c\<lparr>aeReqs := insert (p, args) (aeReqs c)\<rparr>) s"
proof -
  have ip: "i < N" "p < N" "p \<noteq> i"
    using netD(9) [OF assms(1,2)] by auto
  have "request_ok s p args"
    by (rule sent_request [OF assms(1) ip assms(3)])
  then have "net_ok N (c\<lparr>aeReqs := insert (p, args) (aeReqs c)\<rparr>) s"
    using simD(5) [OF assms(1)] ip(2) unfolding net_ok_def by simp
  then show ?thesis
    using nodeD(1) [OF assms(1) ip(1)] by (intro quiet_put [OF assms(1) ip(1), of "nodes c i"]) auto
qed

text \<open>A slice of the ledger is merged the way the protocol adopts it.\<close>

definition slice :: "LogEntry list \<Rightarrow> nat \<Rightarrow> LogEntry list \<Rightarrow> bool" where
  "slice L k es \<longleftrightarrow> k + length es < length L \<and> es = take (length es) (drop (k + 1) L)"

lemma slice_nth:
  assumes "slice L k es" "i < length es"
  shows "es ! i = L ! (k + 1 + i)"
proof -
  have "es = take (length es) (drop (k + 1) L)" "k + length es < length L"
    using assms(1) by (auto simp: slice_def)
  then have "es ! i = take (length es) (drop (k + 1) L) ! i"
    by metis
  then show ?thesis
    using assms(2) \<open>k + length es < length L\<close> by simp
qed

lemma slice_take:
  assumes "slice L k es"
  shows "slice L k (take m es)"
proof -
  have es: "es = take (length es) (drop (k + 1) L)" and len: "k + length es < length L"
    using assms by (auto simp: slice_def)
  have "take m es = take m (take (length es) (drop (k + 1) L))"
    using es by metis
  also have "\<dots> = take (length (take m es)) (drop (k + 1) L)"
    by (simp only: take_take length_take min.commute)
  finally show ?thesis
    using len unfolding slice_def by simp
qed

lemma merge_prefix:
  assumes "good_log s l" "good_log s L" "k < length l" "entry_term (l ! k) = entry_term (L ! k)" "slice L k es"
    and "merge_point l (k + 1) es j"
  shows "same_upto (k + j) l L"
proof (rule logs_match [OF assms(1,2)])
  show "k + j < length l" "k + j < length L"
    using assms(5,6) by (auto simp: merge_point_def slice_def)
  show "entry_term (l ! (k + j)) = entry_term (L ! (k + j))"
  proof (cases j)
    case 0
    with assms(4) show ?thesis by simp
  next
    case (Suc i)
    then have "entry_term (l ! (k + 1 + i)) = entry_term (es ! i)" "i < length es"
      using assms(6) by (auto simp: merge_point_def)
    with slice_nth [OF assms(5)] Suc show ?thesis by simp
  qed
qed

lemma merged_adopt:
  assumes "good_log s l" "good_log s L" "k < length l" "entry_term (l ! k) = entry_term (L ! k)" "slice L k es"
    and "merge_point l (k + 1) es j"
  shows "merged l (k + 1) es j (length es) = adopt (k + length es) l L"
proof -
  have same: "same_upto (k + j) l L"
    by (rule merge_prefix [OF assms])
  show ?thesis
  proof (cases "j = length es")
    case True
    with same show ?thesis
      by (simp add: merged_def adopt_eq)
  next
    case False
    then have j: "j < length es" "k + 1 + j \<le> length l"
      using assms(6) by (auto simp: merge_point_def)
    have es: "es = take (length es) (drop (k + 1) L)"
      using assms(5) by (simp add: slice_def)
    have "drop j es = take (length es - j) (drop (k + 1 + j) L)"
      by (subst es) (simp add: drop_take add.commute)
    moreover have "take (k + 1 + j) l = take (k + 1 + j) L"
      using same by (simp add: same_upto_def)
    ultimately have "merged l (k + 1) es j (length es) = take (k + 1 + j) L @ take (length es - j) (drop (k + 1 + j) L)"
      using False by (simp add: merged_def)
    also have "\<dots> = take (k + 1 + j + (length es - j)) L"
      by (simp only: take_add)
    also have "k + 1 + j + (length es - j) = Suc (k + length es)"
      using j(1) by simp
    also have "take (Suc (k + length es)) L = adopt (k + length es) l L"
    proof -
      have "k + 1 + j = length l \<or> entry_term (l ! (k + 1 + j)) \<noteq> entry_term (L ! (k + 1 + j))"
        using assms(6) j slice_nth [OF assms(5) j(1)] by (auto simp: merge_point_def)
      with j(1) have "\<not> (k + length es < length l \<and> (\<forall>i \<le> k + length es. entry_term (l ! i) = entry_term (L ! i)))"
        by (auto intro: exI [of _ "k + 1 + j"])
      then show ?thesis
        unfolding adopt_def by (simp only: if_False)
    qed
    finally show ?thesis .
  qed
qed

lemma merged_part:
  assumes "good_log s l" "good_log s L" "k < length l" "entry_term (l ! k) = entry_term (L ! k)" "slice L k es"
    and "merge_point l (k + 1) es j" "j < length es" "0 < q"
  shows "merged l (k + 1) es j q = adopt (k + length (take (j + q) es)) l L"
proof -
  have "merge_point l (k + 1) (take (j + q) es) j"
    using assms(6-8) by (auto simp: merge_point_def)
  then have "merged l (k + 1) (take (j + q) es) j (length (take (j + q) es)) = adopt (k + length (take (j + q) es)) l L"
    by (rule merged_adopt [OF assms(1-4) slice_take [OF assms(5)]])
  moreover have "take (length (take (j + q) es)) (drop j (take (j + q) es)) = take q (drop j es)"
  proof -
    have "drop j (take (j + q) es) = take q (drop j es)"
      by (simp add: drop_take)
    moreover have "take (length x) (drop j x) = drop j x" for x :: "LogEntry list"
      by simp
    ultimately show ?thesis by metis
  qed
  then have "merged l (k + 1) (take (j + q) es) j (length (take (j + q) es)) = merged l (k + 1) es j q"
    using assms(7,8) unfolding merged_def by auto
  ultimately show ?thesis by simp
qed

lemma request_slice:
  assumes "request_ok s p args"
  shows "sound_batch args" "\<exists>j b Q. sp_elected s (ae_term args) = Some (j, b, Q) \<and> j \<noteq> p"
    "slice (sp_ledger s (ae_term args)) (unat (ae_prevLogIndex args)) (ae_entries args)"
    "ae_prevLogTerm args = entry_term (sp_ledger s (ae_term args) ! unat (ae_prevLogIndex args))"
  using assms by (auto simp: request_ok_def slice_def Let_def)

lemma request_logs:
  assumes "sim N c s" "p < N" "request_ok s p args"
  shows "good_log s (rlog (nodes c p))" "good_log s (sp_ledger s (ae_term args))"
proof -
  have inv: "inv_logs N s" "inv_elected N s"
    using simD(2) [OF assms(1)] by (simp_all add: spec_inv_def)
  show "good_log s (rlog (nodes c p))"
    using inv(1) assms(2) unfolding nodeD(3) [OF assms(1,2), symmetric] by (simp add: inv_logs_def)
  show "good_log s (sp_ledger s (ae_term args))"
    using request_slice(2) [OF assms(3)] by (intro good_ledger [OF inv(2)]) auto
qed

lemma request_term:
  assumes "sim N c s" "request_ok s p args"
  shows "ae_term args \<noteq> 0"
proof -
  have "inv_elected N s"
    using simD(2) [OF assms(1)] by (simp add: spec_inv_def)
  then have "0 < ae_term args"
    using request_slice(2) [OF assms(2)] elected_basic(1) by blast
  then show ?thesis by auto
qed

text \<open>The protocol step for a follower that takes the first \<open>m\<close> entries of a request.\<close>

definition taken :: "nat \<Rightarrow> AppendEntriesArgs \<Rightarrow> nat \<Rightarrow> spec \<Rightarrow> spec" where
  "taken p args m s = do_accept p (unat (ae_prevLogIndex args) + m) (do_raise p (ae_term args) s)"

lemma taken_sel [simp]:
  "sp_term (taken p args m s) = (sp_term s)(p := ae_term args)"
  "sp_log (taken p args m s) = (sp_log s)(p := adopt (unat (ae_prevLogIndex args) + m) (sp_log s p) (sp_ledger s (ae_term args)))"
  "sp_lead (taken p args m s) = (sp_lead s)(p := False)" "sp_ballots (taken p args m s) = sp_ballots s"
  "sp_acks (taken p args m s) = sp_acks s \<union> {(ae_term args, p, k) | k. k \<le> unat (ae_prevLogIndex args) + m}"
  by (simp_all add: taken_def spec_ops)

lemma acts_taken:
  assumes "sim N c s" "p < N" "request_ok s p args" "currentTerm (nodes c p) \<le> ae_term args"
    and "unat (ae_prevLogIndex args) < length (rlog (nodes c p))"
    and "entry_term (rlog (nodes c p) ! unat (ae_prevLogIndex args)) = ae_prevLogTerm args"
    and "m \<le> length (ae_entries args)"
  shows "acts N p s (taken p args m s)"
proof -
  let ?s1 = "do_raise p (ae_term args) s"
  note n = nodeD [OF assms(1,2)] and r = request_slice [OF assms(3)]
  have a1: "acts N p s ?s1"
    using simD(1) [OF assms(1)] assms(2,4) n(2) by (intro acts_raise) simp_all
  obtain j b Q where el: "sp_elected s (ae_term args) = Some (j, b, Q)" "j \<noteq> p"
    using r(2) by blast
  have "acts N p ?s1 (taken p args m s)"
    unfolding taken_def
    using el assms(5-7) n(3) r(3,4)
    by (intro acts_accept [OF acts_reach [OF a1 simD(1) [OF assms(1)]] assms(2), where prev = "unat (ae_prevLogIndex args)"])
      (simp_all add: do_raise_def slice_def)
  with a1 show ?thesis
    by (rule acts_trans)
qed

lemma net_ok_aeReply:
  assumes "net_ok N c s" "ext s s'" "(p, args) \<in> aeReqs c"
    and "aer_success reply \<Longrightarrow> \<forall>k \<le> unat (ae_prevLogIndex args) + length (ae_entries args). (ae_term args, p, k) \<in> sp_acks s'"
  shows "net_ok N ((put p n c)\<lparr>aeReps := insert (p, args, reply) (aeReps c)\<rparr>) s'"
  using net_ok_ext [OF assms(2,1)] assms(3,4) unfolding net_ok_def by simp

lemma step_append_request:
  assumes "sim N c s" "(p, args) \<in> aeReqs c" "onAppendEntries ck args (nodes c p) = (reply, n')"
  shows "\<exists>s'. acts N p s s' \<and> sim N ((put p n' c)\<lparr>aeReps := insert (p, args, reply) (aeReps c)\<rparr>) s'"
proof -
  let ?c = "(put p n' c)\<lparr>aeReps := insert (p, args, reply) (aeReps c)\<rparr>" and ?n = "nodes c p"
  let ?k = "unat (ae_prevLogIndex args)" and ?es = "ae_entries args" and ?L = "sp_ledger s (ae_term args)"
  have p: "p < N" and req: "request_ok s p args"
    using netD(5,6) [OF assms(1,2)] by auto
  note n = nodeD [OF assms(1) p] and r = request_slice [OF req] and net = simD(5) [OF assms(1)]
  show ?thesis
    using assms(3)
  proof (cases rule: onAppendEntries_cases)
    case old
    then have "sim N ?c s"
      using n(1) net_ok_aeReply [OF net ext_refl assms(2)] by (intro quiet_put [OF assms(1) p n(1)]) auto
    with acts.none show ?thesis by blast
  next
    case refused
    let ?s = "do_raise p (ae_term args) s"
    have tm: "currentTerm n' = ae_term args"
      using refused(1,2) by (simp add: max_def)
    have acts: "acts N p s ?s"
      using simD(1) [OF assms(1)] p refused(1) n(2) by (intro acts_raise) simp_all
    then have "net_ok N ?c ?s"
      using acts_local refused(3) by (intro net_ok_aeReply [OF net _ assms(2)]) (auto simp: local_to_def)
    with refused tm have "sim N ?c ?s"
      using heard_wf [OF n(1)] n(3)
      by (intro follower_step [OF assms(1) p acts, where n' = n']) (simp_all add: do_raise_def)
    with acts show ?thesis by blast
  next
    case (accepted m ys)
    have prev: "?k < length (rlog ?n)"
      using accepted(2) n(1) beyond_last [of ?n "ae_prevLogIndex args"] by (auto simp: wf_node_def)
    obtain k where k: "merge_point (rlog ?n) (?k + 1) ?es k"
        "\<And>j. rlog (fold push_entry (take j ys) m) = merged (rlog ?n) (?k + 1) ?es k j"
        "role m = Follower" "currentTerm m = max (currentTerm ?n) (ae_term args)"
        "votedFor m = (if currentTerm ?n < ae_term args then -1 else votedFor ?n)" "ys = drop k ?es"
      using accepted_frame [OF n(1) r(1) accepted(2,4)] by metis
    have acts: "acts N p s (taken p args (length ?es) s)"
      using accepted(3) by (intro acts_taken [OF assms(1) p req accepted(1) prev]) simp_all
    have "rlog (fold push_entry ys m) = merged (rlog ?n) (?k + 1) ?es k (length ?es)"
      using k(2) [of "length ?es"] k(6) by simp
    also have "\<dots> = adopt (?k + length ?es) (rlog ?n) ?L"
      using accepted(3) r(4) k(1)
      by (intro merged_adopt [OF request_logs [OF assms(1) p req] prev _ r(3)]) simp_all
    finally have log: "rlog n' = adopt (?k + length ?es) (rlog ?n) ?L"
      by (simp add: accepted(5))
    have "net_ok N ?c (taken p args (length ?es) s)"
      using acts_local [OF acts] by (intro net_ok_aeReply [OF net _ assms(2)]) (auto simp: local_to_def)
    then have "sim N ?c (taken p args (length ?es) s)"
      using accepted(1) k(3-5) log n(3) onAppendEntries_wf [OF assms(3) n(1) r(1) request_term [OF assms(1) req]]
      by (intro follower_step [OF assms(1) p acts, where n' = n']) (simp_all add: accepted(5) max_def)
    with acts show ?thesis by blast
  qed
qed

section \<open>Append replies and client commands\<close>

lemma leader_put:
  assumes "sim N c s" "i < N" "acts N i s s'" "wf_node N i n'" "role n' = Leader" "role (nodes c i) = Leader"
    and "currentTerm n' = currentTerm (nodes c i)" "votedFor n' = votedFor (nodes c i)"
    and "sp_term s' i = currentTerm n'" "sp_log s' i = rlog n'" "sp_lead s' i" "sp_ballots s' = sp_ballots s"
    and "matches_ok N n' s'"
  shows "sim N (put i n' c) s'"
proof -
  note n = nodeD [OF assms(1,2)]
  have "asked_ok N (put i n' c) i"
    by (rule asked_ok_mono [OF n(8)]) (use assms(5,7) in auto)
  moreover have "votes_ok i n' s'"
    using n(5) assms(7,8,12) by (simp add: votes_ok_def)
  ultimately have "node_ok N (put i n' c) s' i"
    using assms(4,5,9-11,13) by (simp add: node_ok_def)
  moreover have "net_ok N (put i n' c) s'"
    using acts_local [OF assms(3)] by (intro net_ok_sub [OF simD(5) [OF assms(1)]]) (auto simp: local_to_def)
  ultimately show ?thesis
    by (intro sim_step [OF assms(1,3)]) auto
qed

lemma step_append_reply:
  assumes "sim N c s" "(i, p, ae_term args) \<in> repls c" "(p, args, reply) \<in> aeReps c"
    and "replicator_reply ck (word_of_nat p) (ae_term args) args (Some reply) (nodes c i) = n'"
  shows "\<exists>s'. acts N i s s' \<and> sim N (put i n' c) s'"
proof -
  let ?n = "nodes c i" and ?last = "unat (ae_prevLogIndex args) + length (ae_entries args)"
  have ip: "i < N" "p < N" using netD(9) [OF assms(1,2)] by auto
  note n = nodeD [OF assms(1) ip(1)]
  have req: "request_ok s p args"
    using netD(6) [OF assms(1) netD(7) [OF assms(1,3)]] .
  have bound: "?last < length (rlog ?n)" if "role ?n = Leader" "currentTerm ?n = ae_term args"
    using leader_ledger(1) [OF assms(1) ip(1) that(1)] request_slice(3) [OF req] that(2) by (simp add: slice_def)
  have wf: "wf_node N i n'"
    by (rule replicator_reply_wf [OF assms(4) n(1) ip(2) bound])
  have put_same: "net_ok N (put i n' c) s"
    by (rule net_ok_sub [OF simD(5) [OF assms(1)]]) auto
  show ?thesis
    using assms(4)
  proof (cases rule: replicator_reply_cases)
    case ignored
    then have "put i n' c = c"
      by (simp add: put_def)
    then show ?thesis
      using assms(1) acts.none by auto
  next
    case (deposed u)
    then show ?thesis
      using raise_put [OF assms(1) ip(1) wf, of "put i n' c"] less_imp_le [OF deposed(2)] by auto
  next
    case (matched r m)
    have p: "unat (word_of_nat p :: u32) = p"
      by (rule id_unat [OF simD(3) [OF assms(1)] ip(2)])
    have "?last < 2 ^ 64"
      using bound [OF matched(1,2)] n(1) by (simp add: wf_node_def)
    then have "unat (ae_prevLogIndex args + word_of_nat (length (ae_entries args))) = ?last"
      using unat_of_nat_id [of "length (ae_entries args)", where 'a = 64] by (simp add: unat_word_ariths)
    then have m: "unat m \<le> max (unat (matchIndex ?n ! p)) ?last"
      by (simp add: matched(6) p max_def)
    have "(currentTerm ?n, q, k) \<in> sp_acks s" if "q < N" "0 < k" "k \<le> unat ((matchIndex ?n)[p := m] ! q)" for q k
    proof (cases "q = p \<and> k \<le> ?last")
      case True
      with matched(2,3,5) show ?thesis
        using netD(8) [OF assms(1,3)] by auto
    next
      case False
      have "length (matchIndex ?n) = N"
        using n(1) by (simp add: wf_node_def)
      with False that ip(2) m have "k \<le> unat (matchIndex ?n ! q)"
        by (cases "q = p") auto
      with that n(7) [OF matched(1)] show ?thesis
        by (simp add: matches_ok_def)
    qed
    then have "matches_ok N n' s"
      by (simp add: matches_ok_def matched(7) p)
    then have "sim N (put i n' c) s"
      using n(2-4) matched(1) by (intro leader_put [OF assms(1) ip(1) acts.none wf]) (simp_all add: matched(7))
    with acts.none show ?thesis by blast
  next
    case (backed_up r)
    then have "sim N (put i n' c) s"
      using put_same by (intro quiet_put [OF assms(1) ip(1) wf]) simp_all
    with acts.none show ?thesis by blast
  qed
qed

lemma step_submit:
  assumes "sim N c s" "i < N" "room (nodes c i)" "length cmd + 20 < 2 ^ 32" "submit cmd (nodes c i) = (r, n')"
  shows "\<exists>s'. acts N i s s' \<and> sim N (put i n' c) s'"
proof -
  let ?n = "nodes c i" and ?e = "\<lparr>entry_term = currentTerm (nodes c i), entry_command = cmd\<rparr>"
  note n = nodeD [OF assms(1,2)]
  have len: "length (rlog ?n) + 1 < 2 ^ 64"
    using assms(3) by (simp add: room_def)
  have wf: "wf_node N i n'"
    by (rule submit_wf [OF assms(5) n(1) len assms(4)])
  show ?thesis
    using assms(5)
  proof (cases rule: submit_cases)
    case rejected
    then have "put i n' c = c"
      by (simp add: put_def)
    then show ?thesis
      using assms(1) acts.none by auto
  next
    case (appended m)
    let ?s1 = "do_append i ?e s" let ?s2 = "do_ack i (length (rlog ?n)) ?s1"
    have a1: "acts N i s ?s1"
      using n(2,4) appended(2) by (intro acts_append [OF simD(1) [OF assms(1)] assms(2)]) simp_all
    have a2: "acts N i ?s1 ?s2"
      using n(3,4) appended(2)
      by (intro acts_self [OF acts_reach [OF a1 simD(1) [OF assms(1)]] assms(2)]) (simp_all add: spec_ops)
    have last: "unat (lastLogIndex m) = length (rlog ?n)"
      using snoc_last [of m "rlog ?n" ?e] len by (simp add: appended(4))
    have ids: "unat (node_id ?n) = i" "length (matchIndex ?n) = N"
      using wf_node_ids(1) [OF n(1)] n(1) by (auto simp: wf_node_def)
    have "(currentTerm ?n, q, k) \<in> sp_acks ?s2"
      if "q < N" "0 < k" "k \<le> unat ((matchIndex ?n)[i := lastLogIndex m] ! q)" for q k
      using that n(2) n(7) [OF appended(2)] ids(2) last
      by (cases "q = i") (auto simp: spec_ops matches_ok_def)
    then have "matches_ok N n' ?s2"
      by (simp add: matches_ok_def appended(4,5) ids(1))
    then have "sim N (put i n' c) ?s2"
      using n(2-4) appended(2)
      by (intro leader_put [OF assms(1,2) acts_trans [OF a1 a2] wf]) (simp_all add: appended(4,5) spec_ops)
    with acts_trans [OF a1 a2] show ?thesis by blast
  qed
qed

section \<open>Crashes\<close>

lemma recovers_view:
  assumes "persisted m" "recovers (storage m) st"
  shows "dependable st" "s_currentTerm st = currentTerm m" "s_votedFor st = votedFor m" "sentinel # s_entries st = rlog m"
proof -
  obtain d where d: "power_loss (sdisk (storage m)) d" "reopen d = Some st"
    using assms(2) by (auto simp: recovers_def)
  obtain t where "reopen d = Some t" "dependable t" "s_currentTerm t = currentTerm m" "s_votedFor t = votedFor m"
      "s_entries t = s_entries (storage m)"
    using power_loss_view [OF _ d(1)] assms(1) by (auto simp: persisted_def)
  with d(2) assms(1) show "dependable st" "s_currentTerm st = currentTerm m" "s_votedFor st = votedFor m"
      "sentinel # s_entries st = rlog m"
    by (auto simp: persisted_def)
qed

lemma reboot_sel:
  "nodes (reboot ck i st c) = (nodes c)(i := start ck (RaftNode_new (node_id (nodes c i)) (clusterSize (nodes c i)) st (config (nodes c i))))"
  "rvReqs (reboot ck i st c) = rvReqs c" "rvReps (reboot ck i st c) = rvReps c" "aeReqs (reboot ck i st c) = aeReqs c"
  "aeReps (reboot ck i st c) = aeReps c" "repls (reboot ck i st c) \<subseteq> repls c" "voters (reboot ck i st c) \<subseteq> voters c"
  "pending (reboot ck i st c) = (pending c)(i := None)" "applied (reboot ck i st c) = (applied c)(i := [])"
  "history (reboot ck i st c) = history c"
  by (auto simp: reboot_def Let_def)

text \<open>A restart from the storage of a node \<open>m\<close> that the interrupted step had reached.\<close>

lemma reboot_step:
  assumes "sim N c s" "i < N" "acts N i s s'" "wf_node N i m" "recovers (storage m) st"
    and "currentTerm (nodes c i) \<le> currentTerm m" "votes_ok i m s'" "sp_term s' i = currentTerm m"
    and "sp_log s' i = rlog m" "\<not> sp_lead s' i"
  shows "sim N (reboot ck i st c) s'"
proof -
  let ?n = "start ck (RaftNode_new (node_id (nodes c i)) (clusterSize (nodes c i)) st (config (nodes c i)))"
  note n = nodeD [OF assms(1,2)]
  have pm: "persisted m"
    using assms(4) by (simp add: wf_node_def)
  note st = recovers_view [OF pm assms(5)]
  have node: "role ?n = Follower" "currentTerm ?n = currentTerm m" "votedFor ?n = votedFor m" "rlog ?n = rlog m"
    by (simp_all add: start_def st)
  have "length (s_entries st) < length (rlog m)"
    unfolding st(4) [symmetric] by simp
  then have wf: "wf_node N i ?n"
    using restart_wf [OF st(1) assms(4)] assms(4) n(1) by (simp add: wf_node_def)
  have "asked_ok N (reboot ck i st c) i"
    by (rule asked_ok_mono [OF n(8)]) (use subsetD [OF reboot_sel(7)] node assms(6) in \<open>auto simp: reboot_sel(1,2)\<close>)
  moreover have "votes_ok i ?n s'"
    using assms(7) by (simp add: votes_ok_def node)
  ultimately have "node_ok N (reboot ck i st c) s' i"
    using wf node assms(8-10) by (intro node_ok_follower) (simp_all add: reboot_sel(1))
  moreover have "net_ok N (reboot ck i st c) s'"
    using acts_local [OF assms(3)]
    by (intro net_ok_sub [OF simD(5) [OF assms(1)] _ reboot_sel(2-7)]) (simp add: local_to_def)
  ultimately show ?thesis
    using subsetD [OF reboot_sel(7)] by (intro sim_step [OF assms(1,3) reboot_sel(1)]) (auto simp: reboot_sel(2))
qed

lemma step_crash_raise:
  assumes "sim N c s" "i < N" "wf_node N i m" "recovers (storage m) st" "currentTerm (nodes c i) \<le> currentTerm m"
    and "votedFor m = (if currentTerm (nodes c i) < currentTerm m then -1 else votedFor (nodes c i))"
    and "rlog m = rlog (nodes c i)"
  shows "\<exists>s'. acts N i s s' \<and> sim N (reboot ck i st c) s'"
proof -
  let ?s = "do_raise i (currentTerm m) s"
  have acts: "acts N i s ?s"
    using simD(1) [OF assms(1)] assms(2,5) nodeD(2) [OF assms(1,2)] by (intro acts_raise) simp_all
  have "votes_ok i m ?s"
    by (rule raise_votes [OF assms(1,2,5) _ assms(6)]) (simp add: do_raise_def)
  then have "sim N (reboot ck i st c) ?s"
    using assms(7) nodeD(3) [OF assms(1,2)]
    by (intro reboot_step [OF assms(1,2) acts assms(3-5)]) (simp_all add: do_raise_def)
  with acts show ?thesis by blast
qed

lemma step_crash_election:
  assumes "sim N c s" "i < N" "room (nodes c i)"
    and "recovers (saveMeta_done (currentTerm (nodes c i) + 1) (node_id (nodes c i)) (storage (nodes c i))) st"
  shows "\<exists>s'. acts N i s s' \<and> sim N (reboot ck i st c) s'"
proof -
  let ?n = "nodes c i" and ?s = "own_ballot i (nodes c i) s"
  let ?m = "?n\<lparr>role := Candidate, currentTerm := currentTerm ?n + 1, votedFor := node_id ?n,
    storage := saveMeta_done (currentTerm ?n + 1) (node_id ?n) (storage ?n), votesReceived := 1\<rparr>"
  note n = nodeD [OF assms(1,2)] and a = election_acts [OF assms(1-3)]
  have m: "candidate_of ?n ?m"
    by (simp add: candidate_of_def)
  note ids = candidate_ids [OF n(1) m]
  have "sim N (reboot ck i st c) ?s"
    using assms(4) election_votes [OF assms(1-3) ids(2,1)] n(3) room_next(1) [OF assms(3)]
    by (intro reboot_step [OF assms(1,2) a(1) candidate_wf [OF n(1) m assms(3)]]) simp_all
  with a(1) show ?thesis by blast
qed

lemma cut_reached:
  assumes "sim N c s" "p < N" "request_ok s p args" "currentTerm (nodes c p) \<le> ae_term args"
    and "unat (ae_prevLogIndex args) < length (rlog (nodes c p))"
    and "merge_point (rlog (nodes c p)) (unat (ae_prevLogIndex args) + 1) (ae_entries args) k" "k < length (ae_entries args)"
  shows "\<exists>s'. acts N p s s' \<and> sp_term s' p = ae_term args \<and> \<not> sp_lead s' p \<and> sp_ballots s' = sp_ballots s
    \<and> sp_log s' p = take (unat (ae_prevLogIndex args) + 1 + k) (rlog (nodes c p))"
proof -
  let ?l = "rlog (nodes c p)" and ?i = "unat (ae_prevLogIndex args) + 1 + k"
  let ?L = "sp_ledger s (ae_term args)" and ?s1 = "do_raise p (ae_term args) s"
  note n = nodeD [OF assms(1,2)] and r = request_slice [OF assms(3)]
  have a1: "acts N p s ?s1"
    using simD(1) [OF assms(1)] assms(2,4) n(2) by (intro acts_raise) simp_all
  show ?thesis
  proof (cases "?i < length ?l")
    case False
    with a1 n(3) show ?thesis
      by (intro exI [of _ ?s1]) (simp add: do_raise_def)
  next
    case True
    have "entry_term (?l ! ?i) \<noteq> entry_term (?L ! ?i)" "?i < length ?L"
      using assms(6,7) True slice_nth [OF r(3) assms(7)] r(3) by (auto simp: merge_point_def slice_def)
    moreover obtain j b Q where "sp_elected s (ae_term args) = Some (j, b, Q)" "j \<noteq> p"
      using r(2) by blast
    ultimately have "acts N p ?s1 (put_log p (take ?i ?l) ?s1)"
      using acts_cut [OF acts_reach [OF a1 simD(1) [OF assms(1)]] assms(2), of j b Q ?i] True n(3)
      by (simp add: do_raise_def)
    from acts_trans [OF a1 this] show ?thesis
      by (intro exI [of _ "put_log p (take ?i ?l) ?s1"]) (simp add: spec_ops)
  qed
qed

lemma merge_reached:
  assumes "sim N c s" "p < N" "request_ok s p args" "currentTerm (nodes c p) \<le> ae_term args"
    and "unat (ae_prevLogIndex args) < length (rlog (nodes c p))"
    and "entry_term (rlog (nodes c p) ! unat (ae_prevLogIndex args)) = ae_prevLogTerm args"
    and "merge_point (rlog (nodes c p)) (unat (ae_prevLogIndex args) + 1) (ae_entries args) k"
  shows "\<exists>s'. acts N p s s' \<and> sp_term s' p = ae_term args \<and> \<not> sp_lead s' p \<and> sp_ballots s' = sp_ballots s
    \<and> sp_log s' p = merged (rlog (nodes c p)) (unat (ae_prevLogIndex args) + 1) (ae_entries args) k j"
proof -
  let ?l = "rlog (nodes c p)" and ?p = "unat (ae_prevLogIndex args)" and ?es = "ae_entries args"
  note n = nodeD [OF assms(1,2)] and r = request_slice [OF assms(3)]
  have "k \<le> length ?es"
    using assms(7) by (simp add: merge_point_def)
  then consider (all) "k = length ?es" | (some) "k < length ?es" "0 < j" | (cut) "k < length ?es" "j = 0"
    by linarith
  then show ?thesis
  proof cases
    case all
    have "acts N p s (do_raise p (ae_term args) s)"
      using simD(1) [OF assms(1)] assms(2,4) n(2) by (intro acts_raise) simp_all
    with all n(3) show ?thesis
      by (intro exI [of _ "do_raise p (ae_term args) s"]) (simp add: do_raise_def merged_def)
  next
    case some
    let ?s = "taken p args (length (take (k + j) ?es)) s"
    have "acts N p s ?s"
      by (rule acts_taken [OF assms(1-6)]) simp
    moreover have "merged ?l (?p + 1) ?es k j
        = adopt (?p + length (take (k + j) ?es)) ?l (sp_ledger s (ae_term args))"
      using assms(6) r(4)
      by (intro merged_part [OF request_logs [OF assms(1-3)] assms(5) _ r(3) assms(7) some]) simp
    ultimately show ?thesis
      using n(3) by (intro exI [of _ ?s]) simp
  next
    case cut
    with cut_reached [OF assms(1-5,7)] show ?thesis
      by (simp add: merged_def)
  qed
qed

lemma step_crash_merge:
  assumes "sim N c s" "(p, args) \<in> aeReqs c" "\<not> ae_term args < currentTerm (nodes c p)"
    and "\<not> ae_prevLogIndex args > lastLogIndex (nodes c p)"
    and "entry_term (rlog (nodes c p) ! unat (ae_prevLogIndex args)) = ae_prevLogTerm args"
    and "merge_scan (heard ck args (nodes c p)) (ae_prevLogIndex args + 1) (ae_entries args) = (m, ys)"
    and "recovers (storage (fold push_entry (take j ys) m)) st"
  shows "\<exists>s'. acts N p s s' \<and> sim N (reboot ck' p st c) s'"
proof -
  let ?n = "nodes c p" and ?k = "unat (ae_prevLogIndex args)" and ?es = "ae_entries args"
  let ?m = "fold push_entry (take j ys) m"
  have p: "p < N" and req: "request_ok s p args" and tm: "currentTerm ?n \<le> ae_term args"
    using netD(5,6) [OF assms(1,2)] assms(3) by auto
  note n = nodeD [OF assms(1) p] and r = request_slice [OF req]
  have prev: "?k < length (rlog ?n)"
    using assms(4) n(1) beyond_last [of ?n "ae_prevLogIndex args"] by (auto simp: wf_node_def)
  obtain k where k: "merge_point (rlog ?n) (?k + 1) ?es k"
      "rlog ?m = merged (rlog ?n) (?k + 1) ?es k j" "wf_node N p ?m"
      "currentTerm m = max (currentTerm ?n) (ae_term args)"
      "votedFor m = (if currentTerm ?n < ae_term args then -1 else votedFor ?n)"
    using accepted_frame [OF n(1) r(1) assms(4,6)] request_term [OF assms(1) req] by metis
  have m: "currentTerm ?m = ae_term args" "votedFor ?m = (if currentTerm ?n < currentTerm ?m then -1 else votedFor ?n)"
    using k(4,5) tm by (simp_all add: max_def)
  obtain s' where s': "acts N p s s'" "sp_term s' p = ae_term args" "\<not> sp_lead s' p" "sp_ballots s' = sp_ballots s"
      "sp_log s' p = rlog ?m"
    using merge_reached [OF assms(1) p req tm prev assms(5) k(1), of j] k(2) by auto
  have "votes_ok p ?m s'"
    using m tm by (intro raise_votes [OF assms(1) p _ s'(4)]) simp_all
  then have "sim N (reboot ck' p st c) s'"
    using m(1) s'(2,3,5) tm by (intro reboot_step [OF assms(1) p s'(1) k(3) assms(7)]) simp_all
  with s'(1) show ?thesis by blast
qed

section \<open>The refinement\<close>

lemma applier_quiet:
  assumes "sim N c s" "i < N" "nodes c' = (nodes c)(i := (nodes c i)\<lparr>lastApplied := a\<rparr>)"
    and "rvReqs c' = rvReqs c" "rvReps c' = rvReps c" "aeReqs c' = aeReqs c" "aeReps c' = aeReps c"
    and "repls c' = repls c" "voters c' = voters c"
  shows "sim N c' s"
proof (rule quiet_put [OF assms(1,2) _ assms(3)])
  show "wf_node N i ((nodes c i)\<lparr>lastApplied := a\<rparr>)"
    using nodeD(1) [OF assms(1,2)] by simp
  show "net_ok N c' s"
    by (rule net_ok_sub [OF simD(5) [OF assms(1)]]) (simp_all add: assms(4-9))
qed (simp_all add: assms(4,9))

theorem cluster_refines:
  assumes "cluster_step N P c c'" "sim N c s"
  shows "\<exists>i s'. acts N i s s' \<and> sim N c' s'"
  using assms(1)
proof cases
  case (Tick i ck n' ths)
  with step_tick [OF assms(2)] show ?thesis by blast
next
  case (VoteRequest p args ck reply n')
  with step_vote_request [OF assms(2)] show ?thesis by blast
next
  case (VoteReply i args p reply ck n' ths)
  with step_vote_reply [OF assms(2)] show ?thesis by blast
next
  case (VoteLost x)
  with step_vote_lost [OF assms(2)] acts.none show ?thesis by blast
next
  case (Send i p t args)
  with step_send [OF assms(2)] acts.none show ?thesis by blast
next
  case (AppendRequest p args ck reply n')
  with step_append_request [OF assms(2)] show ?thesis by blast
next
  case (AppendReply i p args reply ck)
  with step_append_reply [OF assms(2)] show ?thesis by blast
next
  case (Submit i cmd r n')
  with step_submit [OF assms(2)] show ?thesis by blast
next
  case (Fetch i inner x)
  then have "sim N c' s"
    by (intro applier_quiet [OF assms(2), of i _ "lastApplied (nodes c i)"]) auto
  with acts.none show ?thesis by blast
next
  case (Apply i idx e)
  then have "sim N c' s"
    by (intro applier_quiet [OF assms(2), of i _ idx]) (auto simp: applier_done_def)
  with acts.none show ?thesis by blast
next
  case (Stop i)
  then have "net_ok N c' s"
    by (intro net_ok_sub [OF simD(5) [OF assms(2)]]) auto
  with Stop have "sim N c' s"
    using nodeD(1) [OF assms(2), of i] by (intro quiet_put [OF assms(2), of i "stop (nodes c i)"]) (auto simp: stop_def)
  with acts.none show ?thesis by blast
next
  case (Crash i st ck)
  show ?thesis
    using step_crash_raise [OF assms(2) Crash(2) nodeD(1) [OF assms(2) Crash(2)] Crash(3)] Crash(1) by auto blast
next
  case (CrashElection i st ck)
  with step_crash_election [OF assms(2)] show ?thesis by blast
next
  case (CrashVote p args ck st)
  have p: "p < N" using netD(1) [OF assms(2) CrashVote(2)] .
  have "\<exists>s'. acts N p s s' \<and> sim N c' s'"
    unfolding CrashVote(1)
    by (rule step_crash_raise [OF assms(2) p becomeFollower_wf [OF nodeD(1) [OF assms(2) p]] CrashVote(3)])
      (auto simp: max_def)
  then show ?thesis by blast
next
  case (CrashHeard p args ck st)
  have p: "p < N" using netD(5) [OF assms(2) CrashHeard(2)] .
  have "\<exists>s'. acts N p s s' \<and> sim N c' s'"
    unfolding CrashHeard(1)
    by (rule step_crash_raise [OF assms(2) p heard_wf [OF nodeD(1) [OF assms(2) p]] CrashHeard(3)])
      (auto simp: max_def)
  then show ?thesis by blast
next
  case (CrashMerge p args ck m ys j st)
  with step_crash_merge [OF assms(2)] show ?thesis by blast
qed

text \<open>The cluster starts in an initial state of the protocol.\<close>

definition spec0 :: spec where
  "spec0 = \<lparr>sp_term = (\<lambda>_. 0), sp_log = (\<lambda>_. [sentinel]), sp_lead = (\<lambda>_. False), sp_ballots = {},
     sp_elected = Map.empty, sp_ledger = (\<lambda>_. []), sp_acks = {}\<rparr>"

lemma sim_init:
  assumes "N < 2 ^ 31"
  shows "sim N (init N cfg ck) spec0"
proof -
  have "spec_reach N spec0"
    by (rule spec_reach.init) (simp add: spec_init_def spec0_def)
  moreover have "node_ok N (init N cfg ck) spec0 i" if "i < N" for i
    using RaftNode_new_wf [OF dependable_fresh_Storage _ that assms]
    by (simp add: node_ok_def init_def start_def spec0_def votes_ok_def asked_ok_def)
  moreover have "net_ok N (init N cfg ck) spec0"
    by (simp add: net_ok_def init_def)
  ultimately show ?thesis
    using assms by (simp add: sim_def)
qed

lemma acts_steps:
  assumes "acts N i s s'"
  shows "(spec_step N)\<^sup>*\<^sup>* s s'"
  using assms by induction auto

lemma reachable_sim:
  assumes "reachable N P c" "N < 2 ^ 31"
  shows "\<exists>s. sim N c s"
  using assms(1)
proof induction
  case (start ds cfg ck)
  then show ?case
    unfolding init_on_succeed [OF start] using sim_init [OF assms(2)] by blast
next
  case (step c c')
  then show ?case using cluster_refines by blast
qed

end
