(* ===== verification/Commit.thy ===== *)
theory Commit
  imports Simulation
begin

text \<open>
  What is committed stays committed: an invariant on the commit indices of the nodes, on the commit
  index an append request carries, and on the entries the appliers hand to \<^verbatim>\<open>applyFn_\<close>. It is proved
  for the executions in which every delivered append request is \<open>covered\<close>; the theory of the safety
  properties shows why the code needs this restriction.
\<close>

section \<open>How the critical sections move the commit index\<close>

text \<open>
  \<open>grows\<close>: the log is extended, and the commit index moves only at a leader, to an index of its own
  term that a majority of the match indices has reached.
\<close>

definition may_commit :: "RaftNode \<Rightarrow> u64 \<Rightarrow> bool" where
  "may_commit n k \<longleftrightarrow> role n = Leader \<and> k \<le> lastLogIndex n \<and> entry_term (rlog n ! unat k) = currentTerm n
     \<and> majority n \<le> replicas n k"

definition grows :: "RaftNode \<Rightarrow> RaftNode \<Rightarrow> bool" where
  "grows n n' \<longleftrightarrow> lastApplied n' = lastApplied n \<and> currentTerm n \<le> currentTerm n' \<and> (\<exists>x. rlog n' = rlog n @ x)
     \<and> (commitIndex n' = commitIndex n \<or> commitIndex n < commitIndex n' \<and> may_commit n' (commitIndex n'))"

lemma grows_quiet:
  "lastApplied n' = lastApplied n \<Longrightarrow> currentTerm n \<le> currentTerm n' \<Longrightarrow> rlog n' = rlog n
   \<Longrightarrow> commitIndex n' = commitIndex n \<Longrightarrow> grows n n'"
  by (simp add: grows_def)

lemma grows_advance:
  assumes "lastApplied m = lastApplied n" "currentTerm n \<le> currentTerm m" "rlog m = rlog n @ x"
    and "commitIndex m = commitIndex n"
  shows "grows n (advanceCommit m)"
proof (cases "role m = Leader")
  case True
  have "majority (advanceCommit m) = majority m" "replicas (advanceCommit m) k = replicas m k"
      "lastLogIndex (advanceCommit m) = lastLogIndex m" for k
    by (simp_all add: majority_def replicas_def lastLogIndex_def)
  with advanceCommit_commit [OF True] assms True show ?thesis
    by (auto simp: grows_def may_commit_def)
next
  case False
  with assms show ?thesis
    by (simp add: advanceCommit_def grows_def)
qed

lemma grows_becomeLeader:
  assumes "becomeLeader m = (n', ths)" "lastApplied m = lastApplied n" "currentTerm n \<le> currentTerm m"
    and "rlog m = rlog n" "commitIndex m = commitIndex n"
  shows "grows n n'"
proof -
  obtain b where "n' = advanceCommit b" "rlog b = rlog n @ [\<lparr>entry_term = currentTerm m, entry_command = []\<rparr>]"
      "lastApplied b = lastApplied m" "currentTerm b = currentTerm m" "commitIndex b = commitIndex m"
    using assms(1,4) by (auto simp: becomeLeader_def Let_def)
  with assms show ?thesis
    by (auto intro: grows_advance)
qed

lemma grows_tickerLoop:
  assumes "tickerLoop ck n = (n', ths)" "room n"
  shows "grows n n'"
proof (cases "n' = n")
  case False
  then have "startElection ck n = (n', ths)"
    using assms(1) by (auto simp: tickerLoop_def split: if_splits)
  moreover have "currentTerm n \<le> currentTerm n + 1"
    using room_next(1) [OF assms(2)] by simp
  ultimately show ?thesis
    by (elim startElection_cases) (auto simp: candidate_of_def intro: grows_becomeLeader grows_quiet)
qed (simp add: grows_def)

lemma grows_onRequestVote:
  assumes "onRequestVote ck args n = (reply, n')"
  shows "grows n n'"
  using onRequestVote_frame [OF assms] by (intro grows_quiet) simp_all

lemma grows_voteSender:
  assumes "voteSender ck args reply n = (n', ths)"
  shows "grows n n'"
  using assms
  by (elim voteSender_cases) (auto intro: grows_becomeLeader grows_quiet)

lemma grows_submit:
  assumes "submit cmd n = (r, n')"
  shows "grows n n'"
  using assms by (elim submit_cases) (auto intro: grows_advance grows_quiet)

lemma grows_replicator_reply:
  assumes "replicator_reply ck peer t args reply n = n'"
  shows "grows n n'"
  using assms by (elim replicator_reply_cases) (auto intro: grows_advance [where x = "[]"] grows_quiet)

section \<open>The invariant\<close>

text \<open>The log \<open>l\<close> agrees up to \<open>k\<close> with what has been committed in a term up to \<open>T\<close>.\<close>

definition agreed :: "nat \<Rightarrow> spec \<Rightarrow> u64 \<Rightarrow> LogEntry list \<Rightarrow> nat \<Rightarrow> bool" where
  "agreed N s T l k \<longleftrightarrow>
     k = 0 \<or> (\<exists>t n. t \<le> T \<and> committed N s t n \<and> k \<le> n \<and> same_upto k l (sp_ledger s t))"

definition applier_ok :: "Cluster \<Rightarrow> nat \<Rightarrow> bool" where
  "applier_ok c i \<longleftrightarrow> (let n = nodes c i in
     lastApplied n \<le> commitIndex n \<and> applied c i = take (unat (lastApplied n)) (tl (rlog n))
     \<and> (\<forall>idx e. pending c i = Some (idx, e) \<longrightarrow>
          unat idx = unat (lastApplied n) + 1 \<and> idx \<le> commitIndex n \<and> e = rlog n ! unat idx))"

definition commit_ok :: "nat \<Rightarrow> Cluster \<Rightarrow> spec \<Rightarrow> nat \<Rightarrow> bool" where
  "commit_ok N c s i \<longleftrightarrow>
     agreed N s (currentTerm (nodes c i)) (rlog (nodes c i)) (unat (commitIndex (nodes c i))) \<and> applier_ok c i"

definition decided :: "nat \<Rightarrow> spec \<Rightarrow> nat \<Rightarrow> LogEntry \<Rightarrow> bool" where
  "decided N s k e \<longleftrightarrow> 0 < k \<and> (\<exists>t n. committed N s t n \<and> k \<le> n \<and> sp_ledger s t ! k = e)"

definition commits :: "nat \<Rightarrow> Cluster \<Rightarrow> spec \<Rightarrow> bool" where
  "commits N c s \<longleftrightarrow> (\<forall>i<N. commit_ok N c s i)
     \<and> (\<forall>p args. (p, args) \<in> aeReqs c \<longrightarrow>
          agreed N s (ae_term args) (sp_ledger s (ae_term args)) (unat (ae_leaderCommit args)))
     \<and> (\<forall>i k e. (i, k, e) \<in> history c \<longrightarrow> decided N s (unat k) e)"

text \<open>
  The commit index of the request is not beyond its last entry, or the follower holds nothing behind
  that entry, or the request does not move the follower's commit index.
\<close>

definition covered :: "AppendEntriesArgs \<Rightarrow> RaftNode \<Rightarrow> bool" where
  "covered args n \<longleftrightarrow>
     (let k = unat (ae_prevLogIndex args) + length (ae_entries args) in
      unat (ae_leaderCommit args) \<le> k \<or> length (rlog n) \<le> k + 1 \<or> ae_leaderCommit args \<le> commitIndex n)"

lemma committed_ext:
  assumes "spec_inv N s" "ext s s'" "committed N s t n"
  shows "committed N s' t n"
proof -
  have el: "sp_elected s t \<noteq> None" "n < length (sp_ledger s t)"
    using committed_elected [OF _ assms(3)] assms(1) by (simp_all add: spec_inv_def)
  with assms(3) show ?thesis
    unfolding committed_def ext_same_upto(2) [OF assms(2) el] using ext_sets(2) [OF assms(2)] by blast
qed

lemma committed_led:
  assumes "spec_inv N s" "committed N s t n"
  shows "sp_elected s t \<noteq> None" "n < length (sp_ledger s t)"
  using committed_elected [OF _ assms(2)] assms(1) by (simp_all add: spec_inv_def)

lemma agreed_ext:
  assumes "spec_inv N s" "ext s s'" "T \<le> T'" "agreed N s T l k"
  shows "agreed N s' T' l k"
proof (cases "k = 0")
  case False
  then obtain t n where t: "t \<le> T" "committed N s t n" "k \<le> n" "same_upto k l (sp_ledger s t)"
    using assms(4) by (auto simp: agreed_def)
  have "k < length (sp_ledger s t)"
    using t(4) by (simp add: same_upto_def)
  then have "same_upto k l (sp_ledger s' t)"
    using ext_same_upto(1) [OF assms(2) committed_led(1) [OF assms(1) t(2)]] t(4) by simp
  moreover have "t \<le> T'" "committed N s' t n"
    using t(1) assms(3) committed_ext [OF assms(1,2) t(2)] by auto
  ultimately show ?thesis
    using t(3) by (auto simp: agreed_def)
qed (simp add: agreed_def)

lemma agreed_same:
  assumes "agreed N s T l k" "same_upto k l' l"
  shows "agreed N s T l' k"
  using assms same_upto_trans unfolding agreed_def by blast

lemma agreed_length:
  assumes "agreed N s T l k" "l \<noteq> []"
  shows "k < length l"
  using assms by (auto simp: agreed_def same_upto_def)

lemma agreed_le:
  assumes "agreed N s T l k" "k' \<le> k"
  shows "agreed N s T l k'"
  using assms same_upto_le unfolding agreed_def by (meson le_trans le_zero_eq)

lemma decided_ext:
  assumes "spec_inv N s" "ext s s'" "decided N s k e"
  shows "decided N s' k e"
proof -
  obtain t n where t: "0 < k" "committed N s t n" "k \<le> n" "sp_ledger s t ! k = e"
    using assms(3) by (auto simp: decided_def)
  have "sp_ledger s' t ! k = e"
    using ext_same_upto(2) [OF assms(2) committed_led(1) [OF assms(1) t(2)], of k]
      committed_led(2) [OF assms(1) t(2)] t(3,4) by simp
  with t committed_ext [OF assms(1,2) t(2)] show ?thesis
    by (auto simp: decided_def)
qed

text \<open>What is decided at an index is unique.\<close>

lemma decided_unique:
  assumes "spec_inv N s" "decided N s k e" "decided N s k e'"
  shows "e = e'"
proof -
  have *: "x = y" if "committed N s t n" "k \<le> n" "sp_ledger s t ! k = x"
    "committed N s t' n'" "k \<le> n'" "sp_ledger s t' ! k = y" "t \<le> t'" for t n t' n' x y
    using same_upto_nth [OF leader_complete_ledger [OF assms(1) that(1) committed_led(1) [OF assms(1) that(4)] that(7)] that(2)]
      that(3,6) by simp
  obtain t n where t: "committed N s t n" "k \<le> n" "sp_ledger s t ! k = e"
    using assms(2) by (auto simp: decided_def)
  obtain t' n' where t': "committed N s t' n'" "k \<le> n'" "sp_ledger s t' ! k = e'"
    using assms(3) by (auto simp: decided_def)
  show ?thesis
    using * [OF t t'] * [OF t' t] by (metis nle_le)
qed

section \<open>Steps\<close>

text \<open>A node whose log keeps its committed prefix and whose applier does not move.\<close>

lemma same_upto_tl:
  assumes "same_upto k l l'" "a \<le> k"
  shows "take a (tl l) = take a (tl l')"
proof -
  have "take (Suc a) l = take (Suc a) l'"
    using same_upto_le [OF assms] by (simp add: same_upto_def)
  moreover have "take a (tl x) = tl (take (Suc a) x)" for x :: "'a list"
    by (cases x) simp_all
  ultimately show ?thesis by simp
qed

lemma applier_put:
  assumes "applier_ok c i" "nodes c' i = n'" "pending c' i = pending c i" "applied c' i = applied c i"
    and "lastApplied n' = lastApplied (nodes c i)" "commitIndex (nodes c i) \<le> commitIndex n'"
    and "same_upto (unat (commitIndex (nodes c i))) (rlog n') (rlog (nodes c i))"
  shows "applier_ok c' i"
proof -
  let ?n = "nodes c i"
  have a: "lastApplied ?n \<le> commitIndex ?n" "applied c i = take (unat (lastApplied ?n)) (tl (rlog ?n))"
      "\<And>idx e. pending c i = Some (idx, e) \<Longrightarrow>
         unat idx = unat (lastApplied ?n) + 1 \<and> idx \<le> commitIndex ?n \<and> e = rlog ?n ! unat idx"
    using assms(1) unfolding applier_ok_def Let_def by blast+
  have "unat idx = unat (lastApplied n') + 1 \<and> idx \<le> commitIndex n' \<and> e = rlog n' ! unat idx"
    if "pending c i = Some (idx, e)" for idx e
    using a(3) [OF that] same_upto_nth [OF assms(7), of "unat idx"] assms(5,6)
    by (metis order_trans word_le_nat_alt)
  moreover have "take (unat (lastApplied n')) (tl (rlog n')) = take (unat (lastApplied n')) (tl (rlog (nodes c i)))"
    using assms(1,5) by (intro same_upto_tl [OF assms(7)]) (simp add: applier_ok_def Let_def word_le_nat_alt)
  ultimately show ?thesis
    using assms(2-6) a(1,2) unfolding applier_ok_def Let_def by auto
qed

lemma commits_ext:
  assumes "commits N c s" "sim N c s" "ext s s'"
  shows "commits N c s'"
proof -
  note inv = simD(2) [OF assms(2)]
  have "commit_ok N c s' p" if "p < N" for p
    using assms(1) that agreed_ext [OF inv assms(3) order_refl] by (simp add: commits_def commit_ok_def)
  moreover have "agreed N s' (ae_term args) (sp_ledger s' (ae_term args)) (unat (ae_leaderCommit args))"
    if "(p, args) \<in> aeReqs c" for p args
  proof -
    have a: "agreed N s (ae_term args) (sp_ledger s (ae_term args)) (unat (ae_leaderCommit args))"
      using assms(1) that by (auto simp: commits_def)
    have el: "sp_elected s (ae_term args) \<noteq> None"
      using request_slice(2) [OF netD(6) [OF assms(2), of p args]] that by auto
    have "sp_ledger s (ae_term args) \<noteq> []"
      using good_ledger [OF _ el] inv by (auto simp: spec_inv_def good_log_def)
    then have "unat (ae_leaderCommit args) < length (sp_ledger s (ae_term args))"
      by (rule agreed_length [OF a])
    then have "same_upto (unat (ae_leaderCommit args)) (sp_ledger s' (ae_term args)) (sp_ledger s (ae_term args))"
      using ext_same_upto(1) [OF assms(3) el] by (metis same_upto_refl same_upto_sym)
    with agreed_ext [OF inv assms(3) order_refl a] show ?thesis
      by (rule agreed_same)
  qed
  moreover have "decided N s' (unat k) e" if "(p, k, e) \<in> history c" for p k e
    using assms(1) that decided_ext [OF inv assms(3)] by (auto simp: commits_def)
  ultimately show ?thesis
    by (simp add: commits_def)
qed

lemma commits_put:
  assumes "commits N c s" "i < N"
    and "nodes c' = (nodes c)(i := n')" "lastApplied n' = lastApplied (nodes c i)"
    and "commitIndex (nodes c i) \<le> commitIndex n'"
    and "same_upto (unat (commitIndex (nodes c i))) (rlog n') (rlog (nodes c i))"
    and "agreed N s (currentTerm n') (rlog n') (unat (commitIndex n'))"
    and "aeReqs c' = aeReqs c" "pending c' = pending c" "applied c' = applied c" "history c' = history c"
  shows "commits N c' s"
proof -
  have "commit_ok N c' s p" if "p < N" for p
  proof (cases "p = i")
    case True
    have "applier_ok c i"
      using assms(1,2) by (simp add: commits_def commit_ok_def)
    then have "applier_ok c' i"
      using assms(3-6,9,10) by (intro applier_put [of c i c' n']) simp_all
    with True assms(3,7) show ?thesis
      by (simp add: commit_ok_def)
  next
    case False
    have "commit_ok N c s p" "nodes c' p = nodes c p"
      using assms(1,3) that False by (simp_all add: commits_def)
    with assms(9,10) show ?thesis
      by (simp add: commit_ok_def applier_ok_def)
  qed
  with assms(1,8,11) show ?thesis
    by (simp add: commits_def)
qed

lemma leader_commit:
  assumes "sim N c s" "i < N" "may_commit (nodes c i) k"
  shows "agreed N s (currentTerm (nodes c i)) (rlog (nodes c i)) (unat k)"
proof (cases "unat k = 0")
  case False
  let ?n = "nodes c i" and ?Q = "{p. p < N \<and> k \<le> matchIndex (nodes c i) ! p}"
  have n: "role ?n = Leader" "entry_term (rlog ?n ! unat k) = currentTerm ?n" "majority ?n \<le> replicas ?n k"
      "k \<le> lastLogIndex ?n"
    using assms(3) by (simp_all add: may_commit_def)
  note led = leader_ledger [OF assms(1,2) n(1)]
  have "quorum N ?Q"
    by (rule replicas_quorum [OF nodeD(1) [OF assms(1,2)] n(3)])
  moreover have "(currentTerm ?n, p, unat k) \<in> sp_acks s" if "p \<in> ?Q" for p
    using that nodeD(7) [OF assms(1,2) n(1)] False by (simp add: matches_ok_def word_le_nat_alt)
  ultimately have "committed N s (currentTerm ?n) (unat k)"
    using n(2) led(1) by (auto simp: committed_def)
  moreover have "unat k < length (rlog ?n)"
    using n(4) wf_node_log(1,3) [OF nodeD(1) [OF assms(1,2)]] by (simp add: word_le_nat_alt) (metis Suc_pred le_imp_less_Suc length_greater_0_conv)
  then have "same_upto (unat k) (rlog ?n) (sp_ledger s (currentTerm ?n))"
    unfolding led(1) by (rule same_upto_refl)
  ultimately show ?thesis
    unfolding agreed_def by blast
qed (simp add: agreed_def)

lemma commits_grows:
  assumes "commits N c s" "sim N c s" "sim N c' s'" "ext s s'" "i < N"
    and "nodes c' = (nodes c)(i := n')" "grows (nodes c i) n'"
    and "aeReqs c' = aeReqs c" "pending c' = pending c" "applied c' = applied c" "history c' = history c"
  shows "commits N c' s'"
proof -
  let ?n = "nodes c i"
  have g: "lastApplied n' = lastApplied ?n" "currentTerm ?n \<le> currentTerm n'"
      "commitIndex n' = commitIndex ?n \<or> commitIndex ?n < commitIndex n' \<and> may_commit n' (commitIndex n')"
    using assms(7) by (simp_all add: grows_def)
  obtain x where x: "rlog n' = rlog ?n @ x"
    using assms(7) by (auto simp: grows_def)
  note inv = simD(2) [OF assms(2)]
  have ag: "agreed N s (currentTerm ?n) (rlog ?n) (unat (commitIndex ?n))"
    using assms(1,5) by (simp add: commits_def commit_ok_def)
  have "unat (commitIndex ?n) < length (rlog ?n)"
    using wf_node_log(1) [OF nodeD(1) [OF assms(2,5)]] by (rule agreed_length [OF ag])
  then have same: "same_upto (unat (commitIndex ?n)) (rlog n') (rlog ?n)"
    unfolding x by (simp add: same_upto_def)
  have "agreed N s' (currentTerm n') (rlog n') (unat (commitIndex n'))"
    using g(3)
  proof
    assume "commitIndex n' = commitIndex ?n"
    then show ?thesis
      using agreed_same [OF agreed_ext [OF inv assms(4) g(2) ag] same] by simp
  next
    assume "commitIndex ?n < commitIndex n' \<and> may_commit n' (commitIndex n')"
    then show ?thesis
      using leader_commit [OF assms(3,5)] assms(6) by simp
  qed
  moreover have "commitIndex ?n \<le> commitIndex n'"
    using g(3) by auto
  ultimately show ?thesis
    using commits_put [OF commits_ext [OF assms(1,2,4)] assms(5,6) g(1) _ same] assms(8-11) by simp
qed

text \<open>
  An accepted request: the follower's log becomes the ledger of the request's term up to the last
  entry of the request, or stays, if it already holds that much; what was committed stays.
\<close>

lemma accepted_log:
  assumes "sim N c s" "p < N" "request_ok s p args" "\<not> ae_prevLogIndex args > lastLogIndex (nodes c p)"
    and "entry_term (rlog (nodes c p) ! unat (ae_prevLogIndex args)) = ae_prevLogTerm args"
    and "merge_scan (heard ck args (nodes c p)) (ae_prevLogIndex args + 1) (ae_entries args) = (m, ys)"
  shows "rlog (fold push_entry ys m)
      = adopt (unat (ae_prevLogIndex args) + length (ae_entries args)) (rlog (nodes c p)) (sp_ledger s (ae_term args))"
    "wf_node N p (fold push_entry ys m)" "currentTerm m = max (currentTerm (nodes c p)) (ae_term args)"
    "commitIndex m = commitIndex (nodes c p)" "lastApplied m = lastApplied (nodes c p)"
proof -
  let ?n = "nodes c p" and ?k = "unat (ae_prevLogIndex args)" and ?es = "ae_entries args"
  note n = nodeD [OF assms(1,2)] and r = request_slice [OF assms(3)]
  have prev: "?k < length (rlog ?n)"
    using assms(4) n(1) beyond_last [of ?n "ae_prevLogIndex args"] by (auto simp: wf_node_def)
  obtain k where k: "merge_point (rlog ?n) (?k + 1) ?es k" "ys = drop k ?es"
      "\<And>j. rlog (fold push_entry (take j ys) m) = merged (rlog ?n) (?k + 1) ?es k j"
      "\<And>j. wf_node N p (fold push_entry (take j ys) m)"
      "currentTerm m = max (currentTerm ?n) (ae_term args)" "commitIndex m = commitIndex ?n"
      "lastApplied m = lastApplied ?n"
    using accepted_frame [OF n(1) r(1) assms(4,6)] request_term [OF assms(1,3)] by metis
  have all: "take (length ?es) ys = ys"
    using k(2) by simp
  show "rlog (fold push_entry ys m) = adopt (?k + length ?es) (rlog ?n) (sp_ledger s (ae_term args))"
    using k(3) [of "length ?es"] merged_adopt [OF request_logs [OF assms(1-3)] prev _ r(3) k(1)] assms(5) r(4)
    unfolding all by simp
  show "wf_node N p (fold push_entry ys m)" "currentTerm m = max (currentTerm ?n) (ae_term args)"
      "commitIndex m = commitIndex ?n" "lastApplied m = lastApplied ?n"
    using k(4) [of "length ?es"] k(5-7) unfolding all by simp_all
qed

lemma agreed_ledger:
  assumes "spec_inv N s" "agreed N s T l k" "T \<le> u" "sp_elected s u \<noteq> None" "0 < k"
  shows "same_upto k l (sp_ledger s u)"
proof -
  obtain t n where t: "t \<le> T" "committed N s t n" "k \<le> n" "same_upto k l (sp_ledger s t)"
    using assms(2,5) by (auto simp: agreed_def)
  have "t \<le> u"
    using t(1) assms(3) by simp
  then have "same_upto k (sp_ledger s u) (sp_ledger s t)"
    by (rule same_upto_le [OF leader_complete_ledger [OF assms(1) t(2) assms(4)] t(3)])
  with t(4) show ?thesis
    by (rule same_upto_trans [OF _ same_upto_sym])
qed

lemma good_heads:
  assumes "good_log s l" "good_log s l'"
  shows "same_upto 0 l l'"
  using good_log_0 [OF assms(1)] good_log_0 [OF assms(2)] by (simp add: same_upto_def take_Suc_conv_app_nth)

lemma adopt_committed:
  assumes "spec_inv N s" "good_log s l" "good_log s (sp_ledger s u)" "agreed N s T l k" "T \<le> u"
    and "sp_elected s u \<noteq> None" "m < length (sp_ledger s u)"
  shows "same_upto k (adopt m l (sp_ledger s u)) l"
proof -
  have same: "same_upto k l (sp_ledger s u)"
    using agreed_ledger [OF assms(1,4-6)] good_heads [OF assms(2,3)] by (cases "k = 0") auto
  then show ?thesis
    using adopt_revises [OF assms(2,3,7) same] by (rule same_upto_trans [OF _ same_upto_sym, rotated])
qed

lemma adopt_short:
  assumes "length l \<le> Suc m" "m < length l'"
  shows "length (adopt m l l') = Suc m"
  using assms by (auto simp: adopt_def)

text \<open>The new commit index of a covered request.\<close>

lemma covered_commit:
  assumes "covered args n" "commitIndex n < ae_leaderCommit args"
    and "good_log s (rlog n)" "good_log s L" "m = unat (ae_prevLogIndex args) + length (ae_entries args)"
    and "m < length L" "agreed N s T L (unat (ae_leaderCommit args))"
    and "l = adopt m (rlog n) L" "k = min (unat (ae_leaderCommit args)) (length l - 1)"
  shows "agreed N s T l k"
proof -
  have reach: "same_upto m l L"
    unfolding assms(8) by (rule adopt_reaches [OF assms(3,4,6)])
  have "unat (ae_leaderCommit args) \<le> m \<or> length (rlog n) \<le> Suc m"
    using assms(1,2,5) by (auto simp: covered_def)
  then have "k \<le> m"
    using adopt_short [OF _ assms(6)] assms(8,9) by auto
  then have "same_upto k l L"
    by (rule same_upto_le [OF reach])
  moreover have "agreed N s T L k"
    using assms(9) by (intro agreed_le [OF assms(7)]) simp
  ultimately show ?thesis
    by (rule agreed_same [rotated])
qed

lemma commits_append_request:
  assumes "commits N c s" "sim N c s" "sim N c' s'" "ext s s'" "(p, args) \<in> aeReqs c"
    and "covered args (nodes c p)" "onAppendEntries ck args (nodes c p) = (reply, n')"
    and "c' = (put p n' c)\<lparr>aeReps := insert (p, args, reply) (aeReps c)\<rparr>"
  shows "commits N c' s'"
proof -
  let ?n = "nodes c p" and ?L = "sp_ledger s (ae_term args)"
  let ?m = "unat (ae_prevLogIndex args) + length (ae_entries args)"
  have p: "p < N" and req: "request_ok s p args"
    using netD(5,6) [OF assms(2,5)] by auto
  note r = request_slice [OF req] and logs = request_logs [OF assms(2) p req] and inv = simD(2) [OF assms(2)]
  have quiet: "commits N c' s'" if "grows ?n n'"
    using that assms(8) by (intro commits_grows [OF assms(1-4) p]) (simp_all add: put_def)
  from assms(7) show ?thesis
  proof (cases rule: onAppendEntries_cases)
    case old
    then show ?thesis by (intro quiet grows_quiet) simp_all
  next
    case refused
    then show ?thesis by (intro quiet grows_quiet) simp_all
  next
    case (accepted m ys)
    let ?f = "fold push_entry ys m"
    note a = accepted_log [OF assms(2) p req accepted(2-4)]
    have el: "sp_elected s (ae_term args) \<noteq> None" "?m < length ?L"
      using r(2,3) by (auto simp: slice_def)
    have ag: "agreed N s (currentTerm ?n) (rlog ?n) (unat (commitIndex ?n))"
      using assms(1) p by (simp add: commits_def commit_ok_def)
    have agL: "agreed N s (ae_term args) ?L (unat (ae_leaderCommit args))"
      using assms(1,5) by (auto simp: commits_def)
    have same: "same_upto (unat (commitIndex ?n)) (rlog ?f) (rlog ?n)"
      unfolding a(1) by (rule adopt_committed [OF inv logs ag accepted(1) el])
    have new: "rlog n' = rlog ?f" "currentTerm n' = ae_term args" "lastApplied n' = lastApplied ?n"
        "commitIndex n' = (if ae_leaderCommit args > commitIndex ?n
          then min (ae_leaderCommit args) (lastLogIndex ?f) else commitIndex ?n)"
      using accepted(1,5) a(3-5) by (simp_all add: max_def)
    have last: "unat (lastLogIndex ?f) = length (rlog ?f) - 1"
      by (rule wf_node_log(3) [OF a(2)])
    have "agreed N s (ae_term args) (rlog ?f) (unat (commitIndex n'))"
    proof (cases "ae_leaderCommit args > commitIndex ?n")
      case True
      then have "unat (commitIndex n') = min (unat (ae_leaderCommit args)) (length (rlog ?f) - 1)"
        using new(4) last by (simp add: min_def word_le_nat_alt)
      then show ?thesis
        by (rule covered_commit [OF assms(6) True logs refl el(2) agL a(1)])
    next
      case False
      then show ?thesis
        using new(4) agreed_same [OF agreed_ext [OF inv ext_refl accepted(1) ag] same] by simp
    qed
    then have "agreed N s' (currentTerm n') (rlog n') (unat (commitIndex n'))"
      unfolding new(1,2) by (rule agreed_ext [OF inv assms(4) order_refl])
    moreover have "commitIndex ?n \<le> commitIndex n'"
    proof -
      have "unat (commitIndex ?n) \<le> unat (lastLogIndex ?f)"
        using same unfolding last same_upto_def by linarith
      then show ?thesis
        using new(4) by (simp add: min_def word_le_nat_alt word_less_nat_alt)
    qed
    ultimately show ?thesis
      using same new(1,3) assms(8)
      by (intro commits_put [OF commits_ext [OF assms(1,2,4)] p, of c' n']) (simp_all add: put_def)
  qed
qed

lemma commits_send:
  assumes "commits N c s" "sim N c s" "ext s s'" "sim N c' s'" "(i, p, t) \<in> repls c"
    and "replicator_send (word_of_nat p) t (nodes c i) = Some args"
    and "c' = c\<lparr>aeReqs := insert (p, args) (aeReqs c)\<rparr>"
  shows "commits N c' s'"
proof -
  have i: "i < N" using netD(9) [OF assms(2,5)] by simp
  have args: "role (nodes c i) = Leader" "ae_term args = currentTerm (nodes c i)" "ae_leaderCommit args = commitIndex (nodes c i)"
    using assms(6) by (auto simp: replicator_send_def Let_def split: if_splits)
  have "commits N c s'"
    by (rule commits_ext [OF assms(1-3)])
  moreover from this have "agreed N s' (ae_term args) (sp_ledger s' (ae_term args)) (unat (ae_leaderCommit args))"
    using leader_ledger(1) [OF assms(4) i] args i assms(7) by (auto simp: commits_def commit_ok_def)
  ultimately show ?thesis
    unfolding assms(7) by (auto simp: commits_def commit_ok_def applier_ok_def)
qed

lemma commits_fetch:
  assumes "commits N c s" "sim N c s" "i < N" "applier_fetch inner (nodes c i) = Some x"
  shows "commits N (c\<lparr>pending := (pending c)(i := Some x)\<rparr>) s"
proof -
  let ?n = "nodes c i" and ?idx = "lastApplied (nodes c i) + 1"
  have x: "x = (?idx, rlog ?n ! unat ?idx)" "lastApplied ?n < commitIndex ?n"
    using assms(4) by (auto simp: applier_fetch_def Let_def split: if_splits)
  have "unat (lastApplied ?n) + 1 < 18446744073709551616"
    using x(2) unat_u64_less [of "commitIndex ?n"] unfolding word_less_nat_alt by linarith
  then have "unat ?idx = unat (lastApplied ?n) + 1"
    by (simp add: unat_word_ariths)
  moreover from this have "?idx \<le> commitIndex ?n"
    using x(2) by (simp add: word_le_nat_alt word_less_nat_alt)
  ultimately have "applier_ok (c\<lparr>pending := (pending c)(i := Some x)\<rparr>) i"
    using assms(1,3) x(1) by (simp add: commits_def commit_ok_def applier_ok_def Let_def)
  with assms(1) show ?thesis
    by (auto simp: commits_def commit_ok_def applier_ok_def)
qed

lemma commits_apply:
  assumes "commits N c s" "sim N c s" "i < N" "pending c i = Some (idx, e)"
    and "c' = (put i (applier_done idx (nodes c i)) c)
          \<lparr>pending := (pending c)(i := None), applied := (applied c)(i := applied c i @ [e]),
           history := insert (i, idx, e) (history c)\<rparr>"
  shows "commits N c' s"
proof -
  let ?n = "nodes c i"
  have ok: "agreed N s (currentTerm ?n) (rlog ?n) (unat (commitIndex ?n))" "applier_ok c i"
    using assms(1,3) by (simp_all add: commits_def commit_ok_def)
  have idx: "unat idx = unat (lastApplied ?n) + 1" "idx \<le> commitIndex ?n" "e = rlog ?n ! unat idx"
      "applied c i = take (unat (lastApplied ?n)) (tl (rlog ?n))"
    using ok(2) assms(4) by (simp_all add: applier_ok_def Let_def)
  have "unat (commitIndex ?n) < length (rlog ?n)"
    using wf_node_log(1) [OF nodeD(1) [OF assms(2,3)]] by (rule agreed_length [OF ok(1)])
  then have len: "unat (lastApplied ?n) < length (tl (rlog ?n))"
    using idx(1,2) by (simp add: word_le_nat_alt)
  then have "applied c i @ [e] = take (unat idx) (tl (rlog ?n))"
    using idx(1,3,4) by (simp add: take_Suc_conv_app_nth nth_tl)
  then have "applier_ok c' i"
    using idx(2) assms(5) by (simp add: applier_ok_def Let_def put_def applier_done_def)
  moreover have "applier_ok c' p" if "p < N" "p \<noteq> i" for p
    using assms(1,5) that by (simp add: commits_def commit_ok_def applier_ok_def put_def)
  ultimately have "applier_ok c' p" if "p < N" for p
    using that by blast
  moreover have "agreed N s (currentTerm (nodes c' p)) (rlog (nodes c' p)) (unat (commitIndex (nodes c' p)))" if "p < N" for p
    using assms(1,5) that by (simp add: commits_def commit_ok_def put_def applier_done_def)
  moreover have "decided N s (unat idx) e"
  proof -
    have le: "unat idx \<le> unat (commitIndex ?n)" "0 < unat idx"
      using idx(1,2) by (simp_all add: word_le_nat_alt)
    then obtain t n where t: "committed N s t n" "unat (commitIndex ?n) \<le> n"
        "same_upto (unat (commitIndex ?n)) (rlog ?n) (sp_ledger s t)"
      using ok(1) by (auto simp: agreed_def)
    from same_upto_nth [OF t(3) le(1)] idx(3) le t(1,2) show ?thesis
      unfolding decided_def by (metis order_trans)
  qed
  ultimately show ?thesis
    using assms(1,5) by (auto simp: commits_def commit_ok_def put_def)
qed

lemma commits_reboot:
  assumes "commits N c s" "i < N"
  shows "commits N (reboot ck i st c) s"
proof -
  have "commit_ok N (reboot ck i st c) s p" if "p < N" for p
  proof (cases "p = i")
    case True
    then show ?thesis
      by (simp add: commit_ok_def applier_ok_def reboot_def put_def Let_def agreed_def start_def)
  next
    case False
    moreover have "commit_ok N c s p"
      using assms(1) that by (simp add: commits_def)
    moreover have "nodes (reboot ck i st c) p = nodes c p" "pending (reboot ck i st c) p = pending c p"
        "applied (reboot ck i st c) p = applied c p"
      using False by (simp_all add: reboot_def put_def Let_def)
    ultimately show ?thesis
      unfolding commit_ok_def applier_ok_def by (simp only:)
  qed
  with assms(1) show ?thesis
    by (simp add: commits_def reboot_def put_def Let_def)
qed

theorem commits_step:
  assumes "cluster_step N covered c c'" "commits N c s" "sim N c s" "sim N c' s'" "ext s s'"
  shows "commits N c' s'"
proof -
  note grow = commits_grows [OF assms(2-5)] and later = commits_ext [OF assms(2,3,5)]
  from assms(1) show ?thesis
  proof cases
    case (Tick i ck n' ths)
    then show ?thesis
      by (intro grow [of i n']) (auto simp: spawn_def put_def intro: grows_tickerLoop)
  next
    case (VoteRequest p args ck reply n')
    then show ?thesis
      using netD(1) [OF assms(3) VoteRequest(2)]
      by (intro grow [of p n']) (auto simp: put_def intro: grows_onRequestVote)
  next
    case (VoteReply i args p reply ck n' ths)
    then show ?thesis
      using netD(10) [OF assms(3) VoteReply(2)]
      by (intro grow [of i n']) (auto simp: spawn_def put_def intro: grows_voteSender)
  next
    case (VoteLost x)
    with later show ?thesis
      by (simp add: commits_def commit_ok_def applier_ok_def)
  next
    case (Send i p t args)
    then show ?thesis
      using commits_send [OF assms(2,3,5,4)] by blast
  next
    case (AppendRequest p args ck reply n')
    then show ?thesis
      using commits_append_request [OF assms(2-5)] by blast
  next
    case (AppendReply i p args reply ck n')
    then show ?thesis
      using netD(9) [OF assms(3) AppendReply(2)]
      by (intro grow [of i n']) (auto simp: put_def intro: grows_replicator_reply)
  next
    case (Submit i cmd r n')
    then show ?thesis
      by (intro grow [of i n']) (auto simp: put_def intro: grows_submit)
  next
    case (Fetch i inner x)
    show ?thesis
      unfolding Fetch(1) by (rule commits_ext [OF commits_fetch [OF assms(2,3) Fetch(2,4)] _ assms(5)])
        (rule applier_quiet [OF assms(3) Fetch(2), of _ "lastApplied (nodes c i)"], simp_all)
  next
    case (Apply i idx e)
    show ?thesis
      by (rule commits_ext [OF commits_apply [OF assms(2,3) Apply(2,3,1)] _ assms(5)])
        (rule applier_quiet [OF assms(3) Apply(2), of _ idx], simp_all add: Apply(1) put_def applier_done_def)
  next
    case (Stop i)
    then show ?thesis
      by (intro grow [of i "stop (nodes c i)"]) (simp_all add: put_def stop_def grows_def)
  next
    case (Crash i st ck)
    with commits_reboot [OF later] show ?thesis by blast
  next
    case (CrashElection i st ck)
    with commits_reboot [OF later] show ?thesis by blast
  next
    case (CrashVote p args ck st)
    with commits_reboot [OF later] netD(1) [OF assms(3) CrashVote(2)] show ?thesis by blast
  next
    case (CrashHeard p args ck st)
    with commits_reboot [OF later] netD(5) [OF assms(3) CrashHeard(2)] show ?thesis by blast
  next
    case (CrashMerge p args ck m ys j st)
    with commits_reboot [OF later] netD(5) [OF assms(3) CrashMerge(2)] show ?thesis by blast
  qed
qed

lemma acts_ext: "acts N i s s' \<Longrightarrow> ext s s'"
  using acts_local by (auto simp: local_to_def)

lemma covered_reachable:
  assumes "reachable N covered c" "N < 2 ^ 31"
  shows "\<exists>s. sim N c s \<and> commits N c s"
  using assms(1)
proof induction
  case (start ds cfg ck)
  have "commits N (init N cfg ck) spec0"
    by (simp add: commits_def commit_ok_def applier_ok_def init_def agreed_def start_def)
  with sim_init [OF assms(2)] show ?case
    unfolding init_on_succeed [OF start] by blast
next
  case (step c c')
  then obtain s where s: "sim N c s" "commits N c s" by blast
  obtain i s' where "acts N i s s'" "sim N c' s'"
    using cluster_refines [OF step(2) s(1)] by blast
  with commits_step [OF step(2) s(2,1)] acts_ext show ?case by blast
qed

end
