(* ===== verification/Run.thy ===== *)
theory Run
  imports Commit
begin

text \<open>
  A run of three nodes through every phase of the protocol: node 0 is elected by node 1, accepts a
  command, replicates it to node 1, commits it, and both nodes apply it. The properties of the
  cluster are applied to this run.
\<close>

abbreviation runs :: "nat \<Rightarrow> (AppendEntriesArgs \<Rightarrow> RaftNode \<Rightarrow> bool) \<Rightarrow> Cluster \<Rightarrow> Cluster \<Rightarrow> bool" where
  "runs N P \<equiv> (cluster_step N P)\<^sup>*\<^sup>*"

lemma reachable_runs: "reachable N P c \<Longrightarrow> runs N P c c' \<Longrightarrow> reachable N P c'"
  by (rotate_tac, induction rule: rtranclp_induct) (auto intro: reachable.step)

section \<open>The states of the nodes\<close>

definition ck0 :: clock where
  "ck0 = \<lparr>now = 0, drawn = 0\<rparr>"

definition cfg0 :: RaftConfig where
  "cfg0 = \<lparr>heartbeatInterval = 50, electionTimeoutMin = 150, electionTimeoutMax = 300, tickInterval = 10\<rparr>"

definition fresh :: "u32 \<Rightarrow> RaftNode" where
  "fresh i = start ck0 (RaftNode_new i 3 fresh_Storage cfg0)"

definition rv0 :: RequestVoteArgs where
  "rv0 = \<lparr>rv_term = 1, rv_candidateId = 0, rv_lastLogIndex = 0, rv_lastLogTerm = 0\<rparr>"

definition candidate0 :: RaftNode where
  "candidate0 = (fresh 0)\<lparr>role := Candidate, currentTerm := 1, votedFor := 0, votesReceived := 1,
     storage := saveMeta_done 1 0 fresh_Storage\<rparr>"

definition voter1 :: RaftNode where
  "voter1 = (fresh 1)\<lparr>currentTerm := 1, votedFor := 0,
     storage := saveMeta_done 1 0 (saveMeta_done 1 (-1) fresh_Storage)\<rparr>"

abbreviation noop :: LogEntry where
  "noop \<equiv> \<lparr>entry_term = 1, entry_command = []\<rparr>"

definition leader0 :: RaftNode where
  "leader0 = candidate0\<lparr>role := Leader, leaderHint := 0, votesReceived := 2, nextIndex := [1, 1, 1],
     matchIndex := [1, 0, 0], rlog := [sentinel, noop], storage := append_done noop (storage candidate0)\<rparr>"

definition entry_of :: "string \<Rightarrow> LogEntry" where
  "entry_of cmd = \<lparr>entry_term = 1, entry_command = cmd\<rparr>"

definition busy0 :: "string \<Rightarrow> RaftNode" where
  "busy0 cmd = leader0\<lparr>matchIndex := [2, 0, 0], rlog := [sentinel, noop, entry_of cmd],
     storage := append_done (entry_of cmd) (storage leader0)\<rparr>"

definition ae1 :: "string \<Rightarrow> AppendEntriesArgs" where
  "ae1 cmd = \<lparr>ae_term = 1, ae_leaderId = 0, ae_prevLogIndex = 0, ae_prevLogTerm = 0, ae_leaderCommit = 0,
     ae_entries = [noop, entry_of cmd]\<rparr>"

definition ok_reply :: AppendEntriesReply where
  "ok_reply = \<lparr>aer_term = 1, aer_success = True, aer_conflictIndex = 0\<rparr>"

definition follower1 :: "string \<Rightarrow> RaftNode" where
  "follower1 cmd = voter1\<lparr>leaderHint := 0, rlog := [sentinel, noop, entry_of cmd],
     storage := append_done (entry_of cmd) (append_done noop (storage voter1))\<rparr>"

definition settled0 :: "string \<Rightarrow> RaftNode" where
  "settled0 cmd = (busy0 cmd)\<lparr>matchIndex := [2, 2, 0], nextIndex := [1, 3, 1], commitIndex := 2\<rparr>"

definition ae2 :: AppendEntriesArgs where
  "ae2 = \<lparr>ae_term = 1, ae_leaderId = 0, ae_prevLogIndex = 2, ae_prevLogTerm = 1, ae_leaderCommit = 2, ae_entries = []\<rparr>"

lemmas run_defs = ck0_def fresh_def rv0_def candidate0_def voter1_def leader0_def entry_of_def busy0_def ae1_def
  ok_reply_def follower1_def settled0_def ae2_def RaftNode_new_def

lemma upt_3: "[0..<3] = [0, 1, 2 :: nat]"
  by (simp add: upt_rec)

lemma replicate_3: "replicate 3 x = [x, x, x]"
  by (simp add: numeral_3_eq_3)

lemma two_one [simp]: "\<not> (2 :: u32) \<le> 1"
  by (simp add: word_le_nat_alt)

lemma peers_3: "clusterSize n = 3 \<Longrightarrow> node_id n = 0 \<Longrightarrow> peers n = [1, 2]"
  by (simp add: peers_def upt_3)

section \<open>The critical sections on these states\<close>

lemma run_tick: "tickerLoop ck0 (fresh 0) = (candidate0, [VoteSender 1 rv0, VoteSender 2 rv0])"
  by (simp add: run_defs raft_defs Let_def majority_def peers_3 lastLogIndex_def lastLogTerm_def)

lemma run_vote: "onRequestVote ck0 rv0 (fresh 1) = (\<lparr>rvr_term = 1, rvr_voteGranted = True\<rparr>, voter1)"
  by (simp add: run_defs raft_defs Let_def lastLogIndex_def lastLogTerm_def)

lemma run_win:
  "voteSender ck0 rv0 (Some \<lparr>rvr_term = 1, rvr_voteGranted = True\<rparr>) candidate0
   = (leader0, [Replicator 1 1, Replicator 2 1])"
  by (simp add: run_defs raft_defs Let_def majority_def peers_3 lastLogIndex_def commit_scan.simps replicas_def upt_3 replicate_3)

lemma run_submit:
  "submit cmd leader0 = (\<lparr>sr_isLeader = True, sr_leaderHint = 0, sr_index = 2, sr_term = 1\<rparr>, busy0 cmd)"
  by (simp add: run_defs raft_defs Let_def majority_def lastLogIndex_def commit_scan.simps replicas_def upt_3)

lemma run_send: "replicator_send 1 1 (busy0 cmd) = Some (ae1 cmd)"
  by (simp add: run_defs raft_defs replicator_send_def kMaxBatch_def)

lemma run_append: "onAppendEntries ck0 (ae1 cmd) voter1 = (ok_reply, follower1 cmd)"
  by (simp add: run_defs raft_defs Let_def lastLogIndex_def)

lemma run_reply: "replicator_reply ck0 1 1 (ae1 cmd) (Some ok_reply) (busy0 cmd) = settled0 cmd"
  by (simp add: run_defs raft_defs Let_def majority_def lastLogIndex_def commit_scan.simps replicas_def upt_3)

lemma run_heartbeat: "replicator_send 1 1 (settled0 cmd) = Some ae2"
  by (simp add: run_defs raft_defs replicator_send_def kMaxBatch_def)

lemma run_commit: "onAppendEntries ck0 ae2 (follower1 cmd) = (ok_reply, (follower1 cmd)\<lparr>commitIndex := 2\<rparr>)"
  by (simp add: run_defs raft_defs Let_def lastLogIndex_def)

section \<open>The run\<close>

lemma init_3 [simp]: "nodes (init 3 cfg0 ck0) i = fresh (word_of_nat i)"
  by (simp add: init_def fresh_def)

text \<open>The state after node 0 has won the votes of itself and node 1 and accepted \<open>cmd\<close>.\<close>

lemma fresh_simps [simp]:
  "currentTerm (fresh i) = 0" "rlog (fresh i) = [sentinel]"
  by (simp_all add: fresh_def start_def)

lemma room_small [intro]: "currentTerm n < 2 \<Longrightarrow> length (rlog n) < 4 \<Longrightarrow> room n"
proof -
  assume n: "currentTerm n < 2" "length (rlog n) < 4"
  then have "currentTerm n \<noteq> - 1" by auto
  with n(2) show ?thesis
    by (simp add: room_def word_order.not_eq_extremum)
qed

lemma spawn_threads:
  "VoteSender p args \<in> set ths \<Longrightarrow> (unat p, args) \<in> rvReqs (spawn i ths c)"
  "VoteSender p args \<in> set ths \<Longrightarrow> (i, rv_term args, unat p) \<in> voters (spawn i ths c)"
  "Replicator p t \<in> set ths \<Longrightarrow> (i, unat p, t) \<in> repls (spawn i ths c)"
  by (auto simp: spawn_def)

lemma candidate_simps:
  "rv_candidateId rv0 = 0" "rv_term rv0 = 1" "room candidate0"
  by (auto simp: rv0_def candidate0_def)

lemma run_first:
  "cluster_step 3 covered (init 3 cfg0 ck0)
     (spawn 0 [VoteSender 1 rv0, VoteSender 2 rv0] (put 0 candidate0 (init 3 cfg0 ck0)))"
  by (rule cluster_step.Tick [where ck = ck0]) (auto simp: run_tick)

lemma run_elected:
  "\<exists>c. reachable 3 covered c \<and> nodes c 0 = leader0 \<and> nodes c 1 = voter1 \<and> (0, 1, 1) \<in> repls c
     \<and> pending c = (\<lambda>_. None) \<and> history c = {} \<and> applied c = (\<lambda>_. [])
     \<and> (1, rv0, \<lparr>rvr_term = 1, rvr_voteGranted = True\<rparr>) \<in> rvReps c"
proof -
  let ?r = "\<lparr>rvr_term = 1, rvr_voteGranted = True\<rparr>"
  define c1 where "c1 = spawn 0 [VoteSender 1 rv0, VoteSender 2 rv0] (put 0 candidate0 (init 3 cfg0 ck0))"
  define c2 where "c2 = (put 1 voter1 c1)\<lparr>rvReps := insert (1, rv0, ?r) (rvReps c1)\<rparr>"
  define c3 where "c3 = spawn 0 [Replicator 1 1, Replicator 2 1]
    ((put 0 leader0 c2)\<lparr>voters := voters c2 - {(0, rv_term rv0, 1)}\<rparr>)"
  have c1: "(1, rv0) \<in> rvReqs c1" "(0, rv_term rv0, 1) \<in> voters c1"
    using spawn_threads(1,2) [of 1 rv0] unfolding c1_def by force+
  have c2: "(0, rv_term rv0, 1) \<in> voters c2"
    using c1(2) by (simp add: c2_def put_def)
  have c3: "(0, 1, 1) \<in> repls c3"
    using spawn_threads(3) [of 1 1] unfolding c3_def by force
  have "cluster_step 3 covered (init 3 cfg0 ck0) c1"
    unfolding c1_def by (rule run_first)
  moreover have "cluster_step 3 covered c1 c2"
    unfolding c2_def
    by (rule cluster_step.VoteRequest [OF c1(1), where ck = ck0]) (simp add: c1_def put_def run_vote)
  moreover have "cluster_step 3 covered c2 c3"
    unfolding c3_def
    by (rule cluster_step.VoteReply [OF c2, where ck = ck0 and reply = ?r])
      (simp_all add: c1_def c2_def put_def run_win candidate_simps)
  ultimately have "reachable 3 covered c3"
    using reachable_init reachable.step by metis
  moreover have "nodes c3 0 = leader0 \<and> nodes c3 1 = voter1 \<and> (0, 1, 1) \<in> repls c3
     \<and> pending c3 = (\<lambda>_. None) \<and> history c3 = {} \<and> applied c3 = (\<lambda>_. []) \<and> (1, rv0, ?r) \<in> rvReps c3"
    using c3 by (simp add: c1_def c2_def c3_def spawn_def put_def init_def)
  ultimately show ?thesis by blast
qed

text \<open>The command is replicated to node 1 and committed at node 0; both nodes apply both entries.\<close>

definition did :: "nat \<Rightarrow> Cluster \<Rightarrow> Cluster" where
  "did i c = (let k = lastApplied (nodes c i) + 1; e = rlog (nodes c i) ! unat k in
     (put i ((nodes c i)\<lparr>lastApplied := k\<rparr>) c)
       \<lparr>applied := (applied c)(i := applied c i @ [e]), history := insert (i, k, e) (history c)\<rparr>)"

lemma apply_next:
  assumes "runs N P c0 c" "i < N" "pending c = (\<lambda>_. None)"
    and "lastApplied (nodes c i) < commitIndex (nodes c i)" "\<not> stopping (nodes c i)"
  shows "runs N P c0 (did i c)"
proof -
  let ?k = "lastApplied (nodes c i) + 1"
  let ?e = "rlog (nodes c i) ! unat ?k"
  let ?c = "c\<lparr>pending := (pending c)(i := Some (?k, ?e))\<rparr>"
  have "cluster_step N P c ?c"
    using assms by (intro cluster_step.Fetch [where inner = False]) (simp_all add: applier_fetch_def Let_def)
  moreover have "cluster_step N P ?c ((put i (applier_done ?k (nodes ?c i)) ?c)
    \<lparr>pending := (pending ?c)(i := None), applied := (applied ?c)(i := applied ?c i @ [?e]),
     history := insert (i, ?k, ?e) (history ?c)\<rparr>)"
    using assms(2) by (intro cluster_step.Apply) simp_all
  moreover have "(put i (applier_done ?k (nodes ?c i)) ?c)
    \<lparr>pending := (pending ?c)(i := None), applied := (applied ?c)(i := applied ?c i @ [?e]),
     history := insert (i, ?k, ?e) (history ?c)\<rparr> = did i c"
    using assms(3) by (simp add: did_def Let_def put_def applier_done_def fun_upd_idem)
  ultimately show ?thesis
    using assms(1) by (metis rtranclp.rtrancl_into_rtrancl)
qed

lemma run_replicated:
  assumes "nodes c 0 = leader0" "nodes c 1 = voter1" "(0, 1, 1) \<in> repls c" "pending c = (\<lambda>_. None)"
    and "history c = {}" "applied c = (\<lambda>_. [])"
  shows "\<exists>c'. runs 3 covered (put 0 (busy0 cmd) c) c' \<and> nodes c' 0 = settled0 cmd
     \<and> nodes c' 1 = (follower1 cmd)\<lparr>commitIndex := 2\<rparr>
     \<and> pending c' = (\<lambda>_. None) \<and> history c' = {} \<and> applied c' = (\<lambda>_. [])"
proof -
  define c1 where "c1 = put 0 (busy0 cmd) c"
  define c2 where "c2 = c1\<lparr>aeReqs := insert (1, ae1 cmd) (aeReqs c1)\<rparr>"
  define c3 where "c3 = (put 1 (follower1 cmd) c2)\<lparr>aeReps := insert (1, ae1 cmd, ok_reply) (aeReps c2)\<rparr>"
  define c4 where "c4 = put 0 (settled0 cmd) c3"
  define c5 where "c5 = c4\<lparr>aeReqs := insert (1, ae2) (aeReqs c4)\<rparr>"
  define c6 where "c6 = (put 1 ((follower1 cmd)\<lparr>commitIndex := 2\<rparr>) c5)\<lparr>aeReps := insert (1, ae2, ok_reply) (aeReps c5)\<rparr>"
  note defs = c1_def c2_def c3_def c4_def c5_def c6_def put_def
  have rep: "ae_term (ae1 cmd) = 1" "ae_leaderId (ae1 cmd) = word_of_nat 0"
    by (simp_all add: ae1_def)
  have cov: "covered (ae1 cmd) n" "covered ae2 n" for n
    by (simp_all add: covered_def ae1_def ae2_def)
  have s1: "cluster_step 3 covered c1 c2"
    unfolding c2_def using assms(3) by (intro cluster_step.Send [where i = 0 and t = 1]) (simp_all add: defs run_send)
  have s2: "cluster_step 3 covered c2 c3"
    unfolding c3_def using assms(2) cov
    by (intro cluster_step.AppendRequest [where ck = ck0]) (simp_all add: defs run_append)
  have s3: "cluster_step 3 covered c3 c4"
    unfolding c4_def using assms(1,3) rep
    by (intro cluster_step.AppendReply [where args = "ae1 cmd" and p = 1 and ck = ck0 and reply = ok_reply])
      (simp_all add: defs run_reply)
  have s4: "cluster_step 3 covered c4 c5"
    unfolding c5_def using assms(3)
    by (intro cluster_step.Send [where i = 0 and t = 1]) (simp_all add: defs run_heartbeat)
  have s5: "cluster_step 3 covered c5 c6"
    unfolding c6_def using cov
    by (intro cluster_step.AppendRequest [where ck = ck0]) (simp_all add: defs run_commit)
  note step = rtranclp.rtrancl_into_rtrancl
  have "runs 3 covered c1 c6"
    by (rule step [OF step [OF step [OF step [OF r_into_rtranclp [where r = "cluster_step 3 covered", OF s1] s2] s3] s4] s5])
  then have "runs 3 covered (put 0 (busy0 cmd) c) c6"
    by (simp add: c1_def)
  then show ?thesis
    using assms(4-6) by (intro exI [of _ c6]) (simp add: defs)
qed

lemma run_applied_from:
  assumes "nodes c 0 = leader0" "nodes c 1 = voter1" "(0, 1, 1) \<in> repls c" "pending c = (\<lambda>_. None)"
    and "history c = {}" "applied c = (\<lambda>_. [])"
  shows "\<exists>c'. runs 3 covered (put 0 (busy0 cmd) c) c' \<and> nodes c' 0 = (settled0 cmd)\<lparr>lastApplied := 2\<rparr>
     \<and> nodes c' 1 = (follower1 cmd)\<lparr>commitIndex := 2, lastApplied := 2\<rparr>
     \<and> applied c' 0 = [noop, entry_of cmd] \<and> applied c' 1 = [noop, entry_of cmd]
     \<and> history c' = {(0, 1, noop), (0, 2, entry_of cmd), (1, 1, noop), (1, 2, entry_of cmd)}"
proof -
  let ?b = "put 0 (busy0 cmd) c"
  obtain d where c: "runs 3 covered ?b d" "nodes d 0 = settled0 cmd"
      "nodes d 1 = (follower1 cmd)\<lparr>commitIndex := 2\<rparr>"
      "pending d = (\<lambda>_. None)" "history d = {}" "applied d = (\<lambda>_. [])"
    using run_replicated [OF assms, of cmd] by blast
  have n: "lastApplied (settled0 cmd) = 0" "commitIndex (settled0 cmd) = 2" "\<not> stopping (settled0 cmd)"
      "rlog (settled0 cmd) = [sentinel, noop, entry_of cmd]" "lastApplied (follower1 cmd) = 0"
      "\<not> stopping (follower1 cmd)" "rlog (follower1 cmd) = [sentinel, noop, entry_of cmd]"
    by (simp_all add: run_defs start_def resetElectionDeadline_def)
  let ?c = "did 1 (did 1 (did 0 (did 0 d)))"
  have did: "pending (did i x) = pending x"
      "nodes (did i x) = (nodes x)(i := (nodes x i)\<lparr>lastApplied := lastApplied (nodes x i) + 1\<rparr>)"
      "applied (did i x) = (applied x)(i := applied x i @ [rlog (nodes x i) ! unat (lastApplied (nodes x i) + 1)])"
      "history (did i x) = insert (i, lastApplied (nodes x i) + 1, rlog (nodes x i) ! unat (lastApplied (nodes x i) + 1)) (history x)"
      for i x
    by (simp_all add: did_def Let_def put_def)
  note facts = did c(2-6) c(3) [unfolded One_nat_def] n
  have "runs 3 covered ?b (did 0 d)"
    by (rule apply_next [OF c(1)]) (simp_all add: facts)
  then have "runs 3 covered ?b (did 0 (did 0 d))"
    by (rule apply_next) (simp_all add: facts)
  then have "runs 3 covered ?b (did 1 (did 0 (did 0 d)))"
    by (rule apply_next) (simp_all add: facts)
  then have "runs 3 covered ?b ?c"
    by (rule apply_next) (simp_all add: facts)
  moreover have "history ?c = {(0, 1, noop), (0, 2, entry_of cmd), (1, 1, noop), (1, 2, entry_of cmd)}"
    by (simp add: facts insert_commute)
  ultimately show ?thesis
    by (intro exI [of _ ?c]) (simp add: facts)
qed

lemma room_leader0: "room leader0"
  by (rule room_small) (simp_all add: leader0_def candidate0_def)

lemma run_applied:
  assumes "length cmd + 20 < 2 ^ 32"
  shows "\<exists>c. reachable 3 covered c \<and> nodes c 0 = (settled0 cmd)\<lparr>lastApplied := 2\<rparr>
     \<and> nodes c 1 = (follower1 cmd)\<lparr>commitIndex := 2, lastApplied := 2\<rparr>
     \<and> applied c 0 = [noop, entry_of cmd] \<and> applied c 1 = [noop, entry_of cmd]
     \<and> history c = {(0, 1, noop), (0, 2, entry_of cmd), (1, 1, noop), (1, 2, entry_of cmd)}"
proof -
  obtain c where c: "reachable 3 covered c" "nodes c 0 = leader0" "nodes c 1 = voter1" "(0, 1, 1) \<in> repls c"
      "pending c = (\<lambda>_. None)" "history c = {}" "applied c = (\<lambda>_. [])"
    using run_elected by blast
  have sub: "submit cmd (nodes c 0) = (\<lparr>sr_isLeader = True, sr_leaderHint = 0, sr_index = 2, sr_term = 1\<rparr>, busy0 cmd)"
    unfolding c(2) by (rule run_submit)
  have "cluster_step 3 covered c (put 0 (busy0 cmd) c)"
    by (rule cluster_step.Submit [OF _ _ assms sub]) (simp_all add: c(2) room_leader0)
  then have "reachable 3 covered (put 0 (busy0 cmd) c)"
    by (rule reachable.step [OF c(1)])
  note done_by = reachable_runs [OF this]
  obtain d where d: "runs 3 covered (put 0 (busy0 cmd) c) d" "nodes d 0 = (settled0 cmd)\<lparr>lastApplied := 2\<rparr>"
      "nodes d 1 = (follower1 cmd)\<lparr>commitIndex := 2, lastApplied := 2\<rparr>"
      "applied d 0 = [noop, entry_of cmd]" "applied d 1 = [noop, entry_of cmd]"
      "history d = {(0, 1, noop), (0, 2, entry_of cmd), (1, 1, noop), (1, 2, entry_of cmd)}"
    using run_applied_from [OF c(2-7), of cmd] by (elim exE conjE)
  from done_by [OF d(1)] d(2-6) show ?thesis
    by (intro exI [of _ d] conjI)
qed

end
