(* ===== verification/Safety.thy ===== *)
theory Safety
  imports Run
begin

text \<open>
  The safety properties of Raft for the cluster of nodes that run \<^verbatim>\<open>src/raft.cpp\<close>, for any number of
  nodes below \<open>2 ^ 31\<close> and any interleaving, message loss, duplication and reordering, with crashes
  at any point. The last section shows an append request that moves the commit index of a follower
  over entries that nobody has compared with the leader's.
\<close>

section \<open>Along an execution\<close>

lemma runs_sim:
  assumes "runs N P c c'" "sim N c s"
  shows "\<exists>s'. ext s s' \<and> sim N c' s'"
  using assms
proof (induction rule: rtranclp_induct)
  case base
  then show ?case using ext_refl by blast
next
  case (step d e)
  then obtain s' where s': "ext s s'" "sim N d s'" by blast
  obtain i s'' where "acts N i s' s''" "sim N e s''"
    using cluster_refines [OF step(2) s'(2)] by blast
  with acts_ext ext_trans [OF s'(1)] show ?case by blast
qed

lemma runs_commits:
  assumes "runs N covered c c'" "sim N c s" "commits N c s"
  shows "\<exists>s'. ext s s' \<and> sim N c' s' \<and> commits N c' s'"
  using assms
proof (induction rule: rtranclp_induct)
  case base
  then show ?case using ext_refl by blast
next
  case (step d e)
  then obtain s' where s': "ext s s'" "sim N d s'" "commits N d s'" by blast
  obtain i s'' where s'': "acts N i s' s''" "sim N e s''"
    using cluster_refines [OF step(2) s'(2)] by blast
  have "commits N e s''"
    by (rule commits_step [OF step(2) s'(3,2) s''(2) acts_ext [OF s''(1)]])
  with s'' acts_ext ext_trans [OF s'(1)] show ?case by blast
qed

lemma node_log:
  assumes "sim N c s" "i < N"
  shows "good_log s (rlog (nodes c i))"
proof -
  have "good_log s (sp_log s i)"
    using simD(2) [OF assms(1)] assms(2) by (simp add: spec_inv_def inv_logs_def)
  then show ?thesis
    by (simp add: nodeD(3) [OF assms])
qed

lemma agreed_tl:
  assumes "spec_inv N s" "agreed N s T l k" "agreed N s T' l' k"
  shows "take k (tl l) = take k (tl l')"
proof (cases "k = 0")
  case False
  have *: "same_upto k x y" if "t \<le> t'" "committed N s t n" "k \<le> n" "same_upto k x (sp_ledger s t)"
    "committed N s t' n'" "same_upto k y (sp_ledger s t')" for t t' n n' x y
    using same_upto_le [OF leader_complete_ledger [OF assms(1) that(2) committed_led(1) [OF assms(1) that(5)] that(1)] that(3)]
      that(4,6) same_upto_sym same_upto_trans by blast
  obtain t n t' n' where "committed N s t n" "k \<le> n" "same_upto k l (sp_ledger s t)"
      "committed N s t' n'" "k \<le> n'" "same_upto k l' (sp_ledger s t')"
    using assms(2,3) False unfolding agreed_def by blast
  then have "same_upto k l l'"
    using * [of t t' n l n' l'] * [of t' t n' l' n l] same_upto_sym linear by blast
  then show ?thesis
    by (rule same_upto_tl) simp
qed simp

section \<open>Refinement and invariants\<close>

text \<open>
  C4: the cluster implements the abstract Raft protocol. The initial cluster corresponds to an
  initial state of the protocol, and every step of the code (a handler, a timer, a thread's critical
  section, a crash with recovery) is matched by a sequence of steps of the protocol.
\<close>

theorem cluster_implements_raft:
  assumes "N < 2 ^ 31"
  shows "sim N (init N cfg ck) spec0 \<and> spec_init spec0
    \<and> (\<forall>c c' s. sim N c s \<and> cluster_step N P c c' \<longrightarrow> (\<exists>s'. (spec_step N)\<^sup>*\<^sup>* s s' \<and> sim N c' s'))
    \<and> (\<forall>c s i. sim N c s \<and> i < N \<longrightarrow> sp_term s i = currentTerm (nodes c i)
         \<and> sp_log s i = rlog (nodes c i) \<and> sp_lead s i = (role (nodes c i) = Leader))"
proof (intro conjI allI impI)
  show "sim N (init N cfg ck) spec0"
    by (rule sim_init [OF assms])
  show "spec_init spec0"
    by (simp add: spec_init_def spec0_def)
next
  fix c c' s
  assume "sim N c s \<and> cluster_step N P c c'"
  then show "\<exists>s'. (spec_step N)\<^sup>*\<^sup>* s s' \<and> sim N c' s'"
    using cluster_refines acts_steps by blast
next
  fix c s i
  assume "sim N c s \<and> i < N"
  then show "sp_term s i = currentTerm (nodes c i)" "sp_log s i = rlog (nodes c i)"
      "sp_lead s i = (role (nodes c i) = Leader)"
    using nodeD(2-4) by blast+
qed

theorem cluster_implements_raft_witness:
  "\<exists>c s. cluster_step 3 covered (init 3 cfg0 ck0) c \<and> (spec_step 3)\<^sup>*\<^sup>* spec0 s \<and> sim 3 c s
     \<and> role (nodes c 0) = Candidate \<and> \<not> sp_lead s 0"
proof -
  let ?c = "spawn 0 [VoteSender 1 rv0, VoteSender 2 rv0] (put 0 candidate0 (init 3 cfg0 ck0))"
  have *: "(3 :: nat) < 2 ^ 31" by simp
  obtain s where s: "(spec_step 3)\<^sup>*\<^sup>* spec0 s" "sim 3 ?c s"
    using cluster_implements_raft [OF *, of cfg0 ck0 covered] run_first by blast
  have "sp_lead s 0 = (role (nodes ?c 0) = Leader)"
    using cluster_implements_raft [OF *, of cfg0 ck0 covered] s(2) zero_less_numeral by blast
  moreover have "role (nodes ?c 0) = Candidate"
    by (simp add: spawn_def put_def candidate0_def)
  ultimately show ?thesis
    using s run_first by (intro exI [of _ ?c] exI [of _ s]) simp
qed



section \<open>Elections\<close>

text \<open>
  C11: a node votes for at most one candidate in a term, in its whole life, also when it crashes and
  recovers in between: two granted replies of the same node for the same term answer the same
  candidate. As before, the directory syncs of \<^verbatim>\<open>saveMeta\<close> are taken to succeed; the next theorem shows
  what happens when they fail.
\<close>

theorem votes_once:
  assumes "reachable N P c" "N < 2 ^ 31"
    and "(p, args, r) \<in> rvReps c" "rvr_voteGranted r" "(p, args', r') \<in> rvReps c" "rvr_voteGranted r'"
    and "rv_term args = rv_term args'"
  shows "rv_candidateId args = rv_candidateId args'"
proof -
  obtain s where s: "sim N c s"
    using reachable_sim [OF assms(1,2)] by blast
  obtain l l' where "(rv_term args, p, unat (rv_candidateId args), l) \<in> sp_ballots s"
      "(rv_term args', p, unat (rv_candidateId args'), l') \<in> sp_ballots s"
    using netD(4) [OF s assms(3,4)] netD(4) [OF s assms(5,6)] by blast
  moreover have "inv_ballots N s"
    using simD(2) [OF s] by (simp add: spec_inv_def)
  ultimately have "unat (rv_candidateId args) = unat (rv_candidateId args')"
    using ballot_basic(6) assms(7) by metis
  then show ?thesis
    by (simp add: word_unat_eq_iff)
qed

theorem votes_once_witness:
  "\<exists>c r. reachable 3 covered c \<and> (1, rv0, r) \<in> rvReps c \<and> rvr_voteGranted r
     \<and> rv_candidateId rv0 = rv_candidateId rv0"
proof -
  obtain c where c: "reachable 3 covered c" "(1, rv0, \<lparr>rvr_term = 1, rvr_voteGranted = True\<rparr>) \<in> rvReps c"
    using run_elected by blast
  then show ?thesis
    using votes_once [OF c(1) _ c(2) _ c(2)]
    by (intro exI [of _ c] exI [of _ "\<lparr>rvr_term = 1, rvr_voteGranted = True\<rparr>"] conjI) simp_all
qed




text \<open>
  C5: election safety. A term has at most one leader in the whole execution: if node \<open>i\<close> leads a
  term in some reachable state and node \<open>j\<close> leads the same term in that or a later state, they are
  the same node.
\<close>

theorem election_safety:
  assumes "reachable N P c" "N < 2 ^ 31" "runs N P c c'" "i < N" "j < N"
    and "role (nodes c i) = Leader" "role (nodes c' j) = Leader"
    and "currentTerm (nodes c i) = currentTerm (nodes c' j)"
  shows "i = j"
proof -
  obtain s where s: "sim N c s"
    using reachable_sim [OF assms(1,2)] by blast
  obtain s' where s': "ext s s'" "sim N c' s'"
    using runs_sim [OF assms(3) s] by blast
  obtain b Q where "sp_elected s (currentTerm (nodes c i)) = Some (i, b, Q)"
    using leader_ledger(2) [OF s assms(4,6)] by blast
  then have "sp_elected s' (currentTerm (nodes c i)) = Some (i, b, Q)"
    using s'(1) by (simp add: ext_def)
  with leader_ledger(2) [OF s'(2) assms(5,7)] assms(8) show ?thesis
    by auto
qed

theorem election_safety_witness:
  "\<exists>c i. reachable 3 covered c \<and> i < 3 \<and> role (nodes c i) = Leader \<and> currentTerm (nodes c i) = 1 \<and> i = (0 :: nat)"
proof -
  obtain c where c: "reachable 3 covered c" "nodes c 0 = leader0"
    using run_elected by blast
  then have "role (nodes c 0) = Leader" "currentTerm (nodes c 0) = 1"
    by (simp_all add: leader0_def candidate0_def)
  then show ?thesis
    using c(1) election_safety [OF c(1) _ rtranclp.rtrancl_refl, of 0 0]
    by (intro exI [of _ c] exI [of _ 0]) simp
qed

section \<open>Logs\<close>

text \<open>
  C7: log matching. If the logs of two nodes, in the same state or one in a later state, have entries
  of the same term at the same index, they are identical up to that index.
\<close>

theorem log_matching:
  assumes "reachable N P c" "N < 2 ^ 31" "runs N P c c'" "i < N" "j < N"
    and "k < length (rlog (nodes c i))" "k < length (rlog (nodes c' j))"
    and "entry_term (rlog (nodes c i) ! k) = entry_term (rlog (nodes c' j) ! k)"
  shows "take (k + 1) (rlog (nodes c i)) = take (k + 1) (rlog (nodes c' j))"
proof -
  obtain s where s: "sim N c s"
    using reachable_sim [OF assms(1,2)] by blast
  obtain s' where s': "ext s s'" "sim N c' s'"
    using runs_sim [OF assms(3) s] by blast
  have "same_upto k (rlog (nodes c i)) (rlog (nodes c' j))"
    by (rule logs_match [OF good_log_ext [OF s'(1) node_log [OF s assms(4)]] node_log [OF s'(2) assms(5)] assms(6-8)])
  then show ?thesis
    by (simp add: same_upto_def)
qed

theorem log_matching_witness:
  "\<exists>c. reachable 3 covered c \<and> length (rlog (nodes c 0)) = 3
     \<and> take 3 (rlog (nodes c 0)) = take 3 (rlog (nodes c 1))"
proof -
  have "length ''SET'' + 20 < 2 ^ 32" by simp
  then obtain c where c: "reachable 3 covered c" "nodes c 0 = (settled0 ''SET'')\<lparr>lastApplied := 2\<rparr>"
      "nodes c 1 = (follower1 ''SET'')\<lparr>commitIndex := 2, lastApplied := 2\<rparr>"
    using run_applied by blast
  then have "rlog (nodes c 0) = [sentinel, noop, entry_of ''SET'']" "rlog (nodes c 1) = [sentinel, noop, entry_of ''SET'']"
    by (simp_all add: settled0_def busy0_def follower1_def)
  then show ?thesis
    using c(1) log_matching [OF c(1) _ rtranclp.rtrancl_refl, of 0 1 2] by (intro exI [of _ c]) simp
qed

text \<open>
  C6: leader completeness. In executions whose delivered append requests are \<^term>\<open>covered\<close> (the
  leader's commit index is not beyond the last entry of the request, or the follower holds nothing
  behind that entry, or its commit index does not move), what a node has committed is contained in the
  log of every leader of its term or a later term, now and in all later states.
\<close>

theorem leader_completeness:
  assumes "reachable N covered c" "N < 2 ^ 31" "runs N covered c c'" "i < N" "j < N"
    and "role (nodes c' j) = Leader" "currentTerm (nodes c i) \<le> currentTerm (nodes c' j)"
  shows "unat (commitIndex (nodes c i)) < length (rlog (nodes c' j))
    \<and> take (unat (commitIndex (nodes c i)) + 1) (rlog (nodes c' j))
      = take (unat (commitIndex (nodes c i)) + 1) (rlog (nodes c i))"
proof -
  let ?n = "nodes c i" and ?k = "unat (commitIndex (nodes c i))"
  obtain s where s: "sim N c s" "commits N c s"
    using covered_reachable [OF assms(1,2)] by blast
  obtain s' where s': "ext s s'" "sim N c' s'"
    using runs_sim [OF assms(3) s(1)] by blast
  have ag: "agreed N s' (currentTerm ?n) (rlog ?n) ?k"
    using s(2) assms(4) agreed_ext [OF simD(2) [OF s(1)] s'(1) order_refl] by (simp add: commits_def commit_ok_def)
  have "same_upto ?k (rlog ?n) (rlog (nodes c' j))" if "0 < ?k"
    using agreed_ledger [OF simD(2) [OF s'(2)] ag assms(7) _ that] leader_ledger [OF s'(2) assms(5,6)] by auto
  then have "same_upto ?k (rlog ?n) (rlog (nodes c' j))"
    using good_heads [OF good_log_ext [OF s'(1) node_log [OF s(1) assms(4)]] node_log [OF s'(2) assms(5)]]
    by (cases "?k = 0") simp_all
  then show ?thesis
    by (simp add: same_upto_def)
qed

theorem leader_completeness_witness:
  "\<exists>c. reachable 3 covered c \<and> role (nodes c 0) = Leader \<and> commitIndex (nodes c 1) = 2
     \<and> take 3 (rlog (nodes c 0)) = take 3 (rlog (nodes c 1))"
proof -
  have "length ''SET'' + 20 < 2 ^ 32" by simp
  then obtain c where c: "reachable 3 covered c" "nodes c 0 = (settled0 ''SET'')\<lparr>lastApplied := 2\<rparr>"
      "nodes c 1 = (follower1 ''SET'')\<lparr>commitIndex := 2, lastApplied := 2\<rparr>"
    using run_applied by blast
  then have "role (nodes c 0) = Leader" "currentTerm (nodes c 0) = 1" "currentTerm (nodes c 1) = 1"
      "commitIndex (nodes c 1) = 2"
    by (simp_all add: settled0_def busy0_def leader0_def candidate0_def follower1_def voter1_def)
  then show ?thesis
    using c(1) leader_completeness [OF c(1) _ rtranclp.rtrancl_refl, of 1 0] by (intro exI [of _ c]) simp
qed

section \<open>Application\<close>

lemma history_unique:
  assumes "reachable N covered c" "N < 2 ^ 31" "(i, k, e) \<in> history c" "(j, k, e') \<in> history c"
  shows "e = e'"
proof -
  obtain s where s: "sim N c s" "commits N c s"
    using covered_reachable [OF assms(1,2)] by blast
  then have "decided N s (unat k) e" "decided N s (unat k) e'"
    using assms(3,4) by (auto simp: commits_def)
  then show ?thesis
    by (rule decided_unique [OF simD(2) [OF s(1)]])
qed

text \<open>
  C3: state machine safety. In executions whose delivered append requests are \<^term>\<open>covered\<close>, no two calls of \<^verbatim>\<open>applyFn_\<close>, by any nodes at any times in the execution,
  before or after crashes, deliver different entries for the same index.
\<close>

theorem state_machine_safety:
  assumes "reachable N covered c" "N < 2 ^ 31" "(i, k, e) \<in> history c" "(j, k, e') \<in> history c"
  shows "e = e'"
  by (rule history_unique [OF assms])

theorem state_machine_safety_witness:
  "\<exists>c e. reachable 3 covered c \<and> (0, 2, entry_of ''SET'') \<in> history c \<and> (1, 2, e) \<in> history c \<and> entry_of ''SET'' = e"
proof -
  have "length ''SET'' + 20 < 2 ^ 32" by simp
  then obtain c where c: "reachable 3 covered c"
      "history c = {(0, 1, noop), (0, 2, entry_of ''SET''), (1, 1, noop), (1, 2, entry_of ''SET'')}"
    using run_applied by blast
  then show ?thesis
    using state_machine_safety [OF c(1), of 0 2 "entry_of ''SET''" 1 "entry_of ''SET''"]
    by (intro exI [of _ c] exI [of _ "entry_of ''SET''"]) simp
qed

text \<open>
  C9: in executions whose delivered append requests are \<^term>\<open>covered\<close>, every node applies the entries
  of its log in order, from index 1, without gaps or repetitions, and never beyond its commit index;
  and of two nodes one has applied a prefix of what the other has.
\<close>

theorem applied_in_order:
  assumes "reachable N covered c" "N < 2 ^ 31" "i < N" "j < N"
    and "lastApplied (nodes c i) \<le> lastApplied (nodes c j)"
  shows "lastApplied (nodes c i) \<le> commitIndex (nodes c i)
    \<and> applied c i = take (unat (lastApplied (nodes c i))) (tl (rlog (nodes c i)))
    \<and> length (applied c i) = unat (lastApplied (nodes c i))
    \<and> applied c i = take (unat (lastApplied (nodes c i))) (applied c j)"
proof -
  obtain s where s: "sim N c s" "commits N c s"
    using covered_reachable [OF assms(1,2)] by blast
  have ok: "agreed N s (currentTerm (nodes c p)) (rlog (nodes c p)) (unat (commitIndex (nodes c p)))"
      "lastApplied (nodes c p) \<le> commitIndex (nodes c p)"
      "applied c p = take (unat (lastApplied (nodes c p))) (tl (rlog (nodes c p)))"
      "unat (commitIndex (nodes c p)) < length (rlog (nodes c p))" if "p < N" for p
  proof -
    show "agreed N s (currentTerm (nodes c p)) (rlog (nodes c p)) (unat (commitIndex (nodes c p)))"
        "lastApplied (nodes c p) \<le> commitIndex (nodes c p)"
        "applied c p = take (unat (lastApplied (nodes c p))) (tl (rlog (nodes c p)))"
      using s(2) that unfolding commits_def commit_ok_def applier_ok_def Let_def by blast+
    then show "unat (commitIndex (nodes c p)) < length (rlog (nodes c p))"
      using agreed_length wf_node_log(1) [OF nodeD(1) [OF s(1) that]] by blast
  qed
  let ?a = "unat (lastApplied (nodes c i))"
  have le: "?a \<le> unat (commitIndex (nodes c i))" "?a \<le> unat (commitIndex (nodes c j))" "?a \<le> unat (lastApplied (nodes c j))"
    using ok(2) [OF assms(3)] ok(2) [OF assms(4)] assms(5) by (simp_all add: word_le_nat_alt)
  have "take ?a (tl (rlog (nodes c i))) = take ?a (tl (rlog (nodes c j)))"
    by (rule agreed_tl [OF simD(2) [OF s(1)] agreed_le [OF ok(1) [OF assms(3)] le(1)]
        agreed_le [OF ok(1) [OF assms(4)] le(2)]])
  then have "applied c i = take ?a (applied c j)"
    using ok(3) [OF assms(3)] ok(3) [OF assms(4)] le(3) by (simp add: min_absorb1)
  moreover have "length (applied c i) = ?a"
    using ok(3,4) [OF assms(3)] le(1) by simp
  ultimately show ?thesis
    using ok(2,3) [OF assms(3)] by simp
qed

theorem applied_in_order_witness:
  "\<exists>c. reachable 3 covered c \<and> length (applied c 0) = 2 \<and> applied c 0 = take 2 (applied c 1)"
proof -
  have "length ''SET'' + 20 < 2 ^ 32" by simp
  then obtain c where c: "reachable 3 covered c" "nodes c 0 = (settled0 ''SET'')\<lparr>lastApplied := 2\<rparr>"
      "nodes c 1 = (follower1 ''SET'')\<lparr>commitIndex := 2, lastApplied := 2\<rparr>"
    using run_applied by blast
  then have a: "lastApplied (nodes c 0) \<le> lastApplied (nodes c 1)" "unat (lastApplied (nodes c 0)) = 2"
    by simp_all
  have "length (applied c 0) = 2 \<and> applied c 0 = take 2 (applied c 1)"
    using applied_in_order [OF c(1) _ _ _ a(1), THEN conjunct2, THEN conjunct2] unfolding a(2) by force
  with c(1) show ?thesis
    by blast
qed

section \<open>The commit index of a follower\<close>

text \<open>
  C8: \<^verbatim>\<open>onAppendEntries\<close> bounds the new commit index by the end of the follower's log, not by the last
  entry of the request. When the log of the follower matches the request and continues behind it,
  the follower commits entries behind the request that it has not compared with the leader's. (A
  request carries at most \<^verbatim>\<open>kMaxBatch\<close> entries, so the leader's commit index can lie behind it.)
\<close>

theorem append_commits_unverified:
  assumes "wf_node N p n" "sound_batch args" "currentTerm n \<le> ae_term args"
    and "unat (ae_prevLogIndex args) + length (ae_entries args) < length (rlog n)"
    and "entry_term (rlog n ! unat (ae_prevLogIndex args)) = ae_prevLogTerm args"
    and "\<forall>k < length (ae_entries args).
      entry_term (rlog n ! (unat (ae_prevLogIndex args) + 1 + k)) = entry_term (ae_entries args ! k)"
    and "commitIndex n < ae_leaderCommit args"
  shows "\<exists>reply n'. onAppendEntries ck args n = (reply, n') \<and> aer_success reply \<and> rlog n' = rlog n
    \<and> unat (commitIndex n') = min (unat (ae_leaderCommit args)) (length (rlog n) - 1)"
proof -
  let ?prev = "unat (ae_prevLogIndex args)" and ?es = "ae_entries args"
  obtain m ys where m: "merge_scan (heard ck args n) (ae_prevLogIndex args + 1) ?es = (m, ys)"
    by fastforce
  have beyond: "\<not> ae_prevLogIndex args > lastLogIndex n"
    using beyond_last [of n "ae_prevLogIndex args"] assms(1,4) by (simp add: wf_node_def)
  obtain k where k: "merge_point (rlog n) (?prev + 1) ?es k" "ys = drop k ?es"
      "rlog m = (if k = length ?es then rlog n else take (?prev + 1 + k) (rlog n))"
      "m = (heard ck args n)\<lparr>storage := storage m, rlog := rlog m\<rparr>"
    using merge_scan_heard [OF assms(1,2) beyond m] by blast
  have "k = length ?es"
    using k(1) assms(4,6) by (auto simp: merge_point_def)
  then have m': "ys = []" "rlog m = rlog n" "commitIndex m = commitIndex n"
    using k(2,3) merge_frame(8) [OF k(4)] by simp_all
  have "unat (lastLogIndex m) = length (rlog n) - 1"
    using wf_node_log(3) [OF assms(1)] m'(2) by (simp add: lastLogIndex_def)
  then show ?thesis
    unfolding onAppendEntries_eq using assms(5,7) leD [OF assms(3)] beyond m m' by (simp add: min_def word_le_nat_alt)
qed

definition stale_follower :: RaftNode where
  "stale_follower = fold push_entry (replicate 300 \<lparr>entry_term = 1, entry_command = ''a''\<rparr>)
     (becomeFollower ck0 1 (fresh 1))"

definition long_leader :: RaftNode where
  "long_leader = (fold push_entry (replicate 150 \<lparr>entry_term = 1, entry_command = ''a''\<rparr>
       @ replicate 51 \<lparr>entry_term = 2, entry_command = ''b''\<rparr>) (fresh 0))
     \<lparr>role := Leader, currentTerm := 2, nextIndex := [202, 1, 202], commitIndex := 201\<rparr>"

lemma fresh_wf: "i < 3 \<Longrightarrow> wf_node 3 i (fresh (word_of_nat i))"
  using RaftNode_new_wf [of fresh_Storage i 3 cfg0] by (simp add: fresh_def start_def)

lemma stale_follower_wf: "wf_node 3 1 stale_follower"
proof -
  have wf: "wf_node 3 1 (becomeFollower ck0 1 (fresh 1))"
    using fresh_wf [of 1] by (intro becomeFollower_wf) simp
  then have "persisted stale_follower"
    unfolding stale_follower_def
    by (intro persisted_pushes) (simp_all add: wf_node_def fits_record_def fresh_def start_def)
  with wf show ?thesis
    by (simp add: wf_node_def stale_follower_def fresh_def start_def del: fold_replicate)
qed

theorem append_commits_unverified_witness:
  "\<exists>args reply n'. replicator_send 1 2 long_leader = Some args \<and> onAppendEntries ck0 args stale_follower = (reply, n')
     \<and> commitIndex n' = commitIndex long_leader
     \<and> entry_term (rlog n' ! 201) = 1 \<and> entry_term (rlog long_leader ! 201) = 2"
proof -
  let ?a = "\<lparr>entry_term = 1, entry_command = ''a''\<rparr>"
  let ?args = "\<lparr>ae_term = 2, ae_leaderId = 0, ae_prevLogIndex = 0, ae_prevLogTerm = 0, ae_leaderCommit = 201,
    ae_entries = replicate 100 ?a\<rparr>"
  have send: "replicator_send 1 2 long_leader = Some ?args"
    by (simp add: replicator_send_def long_leader_def kMaxBatch_def fresh_def start_def RaftNode_new_def
        resetElectionDeadline_def del: fold_replicate fold_append)
  have n: "rlog stale_follower = sentinel # replicate 300 ?a" "currentTerm stale_follower = 1" "commitIndex stale_follower = 0"
    by (simp_all add: stale_follower_def fresh_def start_def del: fold_replicate)
  have "sound_batch ?args"
    by (simp add: sound_batch_def fits_record_def)
  then obtain reply n' where "onAppendEntries ck0 ?args stale_follower = (reply, n')" "rlog n' = sentinel # replicate 300 ?a"
      "unat (commitIndex n') = 201"
    using append_commits_unverified [OF stale_follower_wf, of ?args ck0] n by auto
  moreover from this(3) have "commitIndex n' = 201"
    by (simp add: word_unat_eq_iff)
  ultimately show ?thesis
    using send by (intro exI [of _ ?args] exI [of _ reply] exI [of _ n']) (simp add: long_leader_def nth_append del: fold_replicate fold_append)
qed

end
