(* ===== verification/RaftProps.thy ===== *)
theory RaftProps
  imports Safety
begin

text \<open>
  Properties of single operations of \<^verbatim>\<open>RaftNode\<close> in the states the cluster can reach: how the commit
  index is found, how a diverging log is repaired, what a request may contain, and what the index
  returned by \<^verbatim>\<open>submit\<close> stands for.
\<close>

section \<open>The commit index\<close>

lemma commit_scan_Max:
  assumes "\<And>k k'. k \<le> k' \<Longrightarrow> k' \<le> m \<Longrightarrow> entry_term (rlog n ! unat k) \<le> entry_term (rlog n ! unat k')"
    and "\<And>k. k \<le> m \<Longrightarrow> entry_term (rlog n ! unat k) \<le> currentTerm n"
  shows "commit_scan n m = Max (insert (commitIndex n) {k. commitIndex n < k \<and> k \<le> m
    \<and> entry_term (rlog n ! unat k) = currentTerm n \<and> majority n \<le> replicas n k})"
    (is "_ = Max (insert _ (?S m))")
  using assms
proof (induction n m rule: commit_scan.induct)
  case (1 n m)
  let ?S = "\<lambda>m. {k. commitIndex n < k \<and> k \<le> m \<and> entry_term (rlog n ! unat k) = currentTerm n
    \<and> majority n \<le> replicas n k}"
  note scan = commit_scan.simps [of n m]
  consider (reached) "\<not> commitIndex n < m"
    | (older) "commitIndex n < m" "entry_term (rlog n ! unat m) \<noteq> currentTerm n"
    | (found) "commitIndex n < m" "entry_term (rlog n ! unat m) = currentTerm n" "majority n \<le> replicas n m"
    | (down) "commitIndex n < m" "entry_term (rlog n ! unat m) = currentTerm n" "\<not> majority n \<le> replicas n m"
    by blast
  then show ?case
  proof cases
    case reached
    then have empty: "?S m = {}" by auto
    show ?thesis
      unfolding empty using reached scan by simp
  next
    case older
    then have "entry_term (rlog n ! unat m) < currentTerm n"
      using 1(3) [of m] by simp
    then have "entry_term (rlog n ! unat k) \<noteq> currentTerm n" if "k \<le> m" for k
      using 1(2) [OF that order_refl] by (metis leD)
    then have empty: "?S m = {}" by auto
    show ?thesis
      unfolding empty using older scan by simp
  next
    case found
    then have "Max (insert (commitIndex n) (?S m)) = m"
      by (intro Max_eqI) auto
    with found scan show ?thesis by simp
  next
    case down
    have pred: "k \<le> m - 1 \<longleftrightarrow> k \<le> m \<and> k \<noteq> m" for k
      using down(1) unat_pred [OF down(1)] by (auto simp: word_le_nat_alt word_less_nat_alt word_unat_eq_iff)
    then have "?S (m - 1) = ?S m"
      using down(3) by auto
    moreover have "commit_scan n (m - 1) = Max (insert (commitIndex n) (?S (m - 1)))"
      by (rule 1(1) [OF down(1)]) (use down pred 1(2,3) in auto)
    ultimately show ?thesis
      using down scan by simp
  qed
qed

text \<open>
  C14: \<^verbatim>\<open>advanceCommit\<close> stops its downward search at the first entry of an older term and still finds the
  greatest index above the commit index that holds an entry of the current term and has been
  replicated to a majority.
\<close>

theorem advanceCommit_finds_greatest:
  assumes "reachable N P c" "N < 2 ^ 31" "i < N" "role (nodes c i) = Leader"
  shows "commitIndex (advanceCommit (nodes c i)) = Max (insert (commitIndex (nodes c i))
    {k. commitIndex (nodes c i) < k \<and> k \<le> lastLogIndex (nodes c i)
      \<and> entry_term (rlog (nodes c i) ! unat k) = currentTerm (nodes c i)
      \<and> majority (nodes c i) \<le> replicas (nodes c i) k})"
proof -
  let ?n = "nodes c i"
  obtain s where s: "sim N c s"
    using reachable_sim [OF assms(1,2)] by blast
  have inv: "inv_elected N s" "\<forall>e \<in> set (rlog ?n). entry_term e \<le> currentTerm ?n"
    using simD(2) [OF s] assms(3) nodeD(2,3) [OF s assms(3)] unfolding spec_inv_def inv_logs_def by metis+
  note wf = wf_node_log(1,3) [OF nodeD(1) [OF s assms(3)]]
  have in_log: "unat k < length (rlog ?n)" if "k \<le> lastLogIndex ?n" for k
    using that wf by (simp add: word_le_nat_alt) (metis Suc_pred le_imp_less_Suc length_greater_0_conv)
  have "commit_scan ?n (lastLogIndex ?n) = Max (insert (commitIndex ?n) {k. commitIndex ?n < k \<and> k \<le> lastLogIndex ?n
      \<and> entry_term (rlog ?n ! unat k) = currentTerm ?n \<and> majority ?n \<le> replicas ?n k})"
  proof (rule commit_scan_Max)
    fix k k'
    assume "k \<le> k'" "k' \<le> lastLogIndex ?n"
    then show "entry_term (rlog ?n ! unat k) \<le> entry_term (rlog ?n ! unat k')"
      using in_log [of k'] by (intro log_terms_sorted [OF inv(1) node_log [OF s assms(3)]]) (simp_all add: word_le_nat_alt)
  next
    fix k
    assume "k \<le> lastLogIndex ?n"
    then show "entry_term (rlog ?n ! unat k) \<le> currentTerm ?n"
      using inv(2) in_log by simp
  qed
  then show ?thesis
    using assms(4) by (simp add: advanceCommit_def)
qed

theorem advanceCommit_finds_greatest_witness:
  "\<exists>c. reachable 3 covered c \<and> role (nodes c 0) = Leader
     \<and> commitIndex (advanceCommit (nodes c 0)) = Max (insert (commitIndex (nodes c 0))
    {k. commitIndex (nodes c 0) < k \<and> k \<le> lastLogIndex (nodes c 0)
      \<and> entry_term (rlog (nodes c 0) ! unat k) = currentTerm (nodes c 0)
      \<and> majority (nodes c 0) \<le> replicas (nodes c 0) k})"
proof -
  obtain c where c: "reachable 3 covered c" "nodes c 0 = leader0"
    using run_elected by blast
  then have "role (nodes c 0) = Leader" by (simp add: leader0_def)
  then show ?thesis
    using c(1) advanceCommit_finds_greatest [OF c(1), of 0] by (intro exI [of _ c]) simp
qed

section \<open>Repair of a follower's log\<close>

lemma conflict_walk_le: "conflict_walk l t ci \<le> ci"
proof (induction l t ci rule: conflict_walk.induct)
  case (1 l t ci)
  have "ci - 1 \<le> ci" if "1 < ci"
    using that unat_pred [of 1 ci] by (simp add: word_le_nat_alt)
  with 1 show ?case
    by (auto simp: conflict_walk.simps [of l t ci] intro: order_trans)
qed

text \<open>
  The conflict index of a refused request is the first index of the run of entries of the
  conflicting term that ends at the probed index (index 0 excluded).
\<close>

theorem conflict_walk_finds_first:
  "unat ci < length l \<Longrightarrow> 1 \<le> ci \<Longrightarrow>
   1 \<le> conflict_walk l t ci \<and> conflict_walk l t ci \<le> ci
   \<and> (\<forall>k. conflict_walk l t ci \<le> k \<and> k < ci \<longrightarrow> entry_term (l ! unat k) = t)
   \<and> (conflict_walk l t ci = 1 \<or> entry_term (l ! unat (conflict_walk l t ci - 1)) \<noteq> t)"
proof (induction l t ci rule: conflict_walk.induct)
  case (1 l t ci)
  show ?case
  proof (cases "1 < ci \<and> entry_term (l ! unat (ci - 1)) = t")
    case True
    have pred: "k < ci \<longleftrightarrow> k < ci - 1 \<or> k = ci - 1" "ci - 1 \<le> ci" "1 \<le> ci - 1" "unat (ci - 1) < length l" for k
      using True unat_pred [of 1 ci] 1(2) by (auto simp: word_le_nat_alt word_less_nat_alt word_unat_eq_iff)
    note ih = 1(1) [OF True pred(4,3)]
    have "conflict_walk l t ci = conflict_walk l t (ci - 1)"
      using True by (simp add: conflict_walk.simps [of l t ci])
    moreover have "\<forall>k. conflict_walk l t (ci - 1) \<le> k \<and> k < ci \<longrightarrow> entry_term (l ! unat k) = t"
      using ih True pred(1) by blast
    ultimately show ?thesis
      using ih order_trans [OF _ pred(2)] by simp
  next
    case False
    then have "conflict_walk l t ci = ci"
      by (auto simp: conflict_walk.simps [of l t ci])
    moreover have "ci = 1 \<or> entry_term (l ! unat (ci - 1)) \<noteq> t"
      using False 1(3) by (auto simp: order.strict_iff_order)
    ultimately show ?thesis
      using 1(3) by (auto dest: leD)
  qed
qed

theorem conflict_walk_finds_first_witness:
  "conflict_walk [sentinel, \<lparr>entry_term = 1, entry_command = []\<rparr>, \<lparr>entry_term = 2, entry_command = []\<rparr>,
     \<lparr>entry_term = 2, entry_command = []\<rparr>] 2 3 = 2
   \<and> 1 \<le> conflict_walk [sentinel, \<lparr>entry_term = 1, entry_command = []\<rparr>, \<lparr>entry_term = 2, entry_command = []\<rparr>,
     \<lparr>entry_term = 2, entry_command = []\<rparr>] 2 3"
  using conflict_walk_finds_first [of 3 "[sentinel, \<lparr>entry_term = 1, entry_command = []\<rparr>,
    \<lparr>entry_term = 2, entry_command = []\<rparr>, \<lparr>entry_term = 2, entry_command = []\<rparr>]" 2]
  by (simp add: conflict_walk.simps)

lemma refused_conflict:
  assumes "onAppendEntries ck args n = (reply, n')" "wf_node N p n" "\<not> aer_success reply" "currentTerm n \<le> ae_term args"
    and "ae_prevLogIndex args = 0 \<Longrightarrow> ae_prevLogTerm args = 0"
  shows "0 < ae_prevLogIndex args" "aer_conflictIndex reply \<le> ae_prevLogIndex args"
proof -
  have head: "entry_term (rlog n ! 0) = 0" "rlog n \<noteq> []"
    using assms(2) by (simp_all add: wf_node_def persisted_def)
  have last: "lastLogIndex n < x \<longleftrightarrow> length (rlog n) \<le> unat x" for x
    using assms(2) by (intro beyond_last) (simp_all add: wf_node_def)
  consider (beyond) "ae_prevLogIndex args > lastLogIndex n" "aer_conflictIndex reply = lastLogIndex n + 1"
    | (differs) "\<not> ae_prevLogIndex args > lastLogIndex n"
      "entry_term (rlog n ! unat (ae_prevLogIndex args)) \<noteq> ae_prevLogTerm args"
      "aer_conflictIndex reply = conflict_walk (rlog n) (entry_term (rlog n ! unat (ae_prevLogIndex args))) (ae_prevLogIndex args)"
    using assms(1,3) leD [OF assms(4)] unfolding onAppendEntries_eq
    by (auto simp: Let_def split: if_splits prod.splits)
  then have "0 < ae_prevLogIndex args \<and> aer_conflictIndex reply \<le> ae_prevLogIndex args"
  proof cases
    case beyond
    then show ?thesis
      using last [of "ae_prevLogIndex args"] wf_node_log(4) [OF assms(2)] order.strict_trans1 [OF word_zero_le]
      by (simp add: word_le_nat_alt)
  next
    case differs
    then have pos: "ae_prevLogIndex args \<noteq> 0"
      using head(1) assms(5) by auto
    then have "1 \<le> ae_prevLogIndex args" "unat (ae_prevLogIndex args) < length (rlog n)"
      using differs(1) last by (simp_all add: word_le_nat_alt unat_gt_0 Suc_le_eq)
    then show ?thesis
      using differs(3) pos conflict_walk_le by (simp add: word_neq_0_conv)
  qed
  then show "0 < ae_prevLogIndex args" "aer_conflictIndex reply \<le> ae_prevLogIndex args"
    by simp_all
qed

text \<open>
  C15: every refused round of log repair makes progress. When a leader's replicator sends a request, the
  peer refuses it in the same term and the leader handles the refusal, the peer's next index becomes
  strictly smaller and stays at least 1; so repair ends after at most as many rounds as the next
  index was high.
\<close>

theorem repair_makes_progress:
  assumes "wf_node N i n" "p < N" "replicator_send (word_of_nat p) t n = Some args" "wf_node N p f"
    and "onAppendEntries ck args f = (reply, f')" "\<not> aer_success reply" "aer_term reply = t"
  shows "0 < nextIndex (replicator_reply ck' (word_of_nat p) t args (Some reply) n) ! p
    \<and> nextIndex (replicator_reply ck' (word_of_nat p) t args (Some reply) n) ! p < nextIndex n ! p"
proof -
  have ids: "unat (word_of_nat p :: u32) = p" "p < length (nextIndex n)"
    using assms(1,2) by (auto simp: wf_node_def intro!: unat_of_nat_id)
  have send: "\<not> stopping n" "role n = Leader" "currentTerm n = t" "ae_term args = t"
      "ae_prevLogIndex args = nextIndex n ! p - 1"
      "ae_prevLogTerm args = entry_term (rlog n ! unat (nextIndex n ! p - 1))"
    using assms(3) ids(1) by (auto simp: replicator_send_def Let_def split: if_splits)
  have pos: "0 < unat (nextIndex n ! p)"
    using assms(1,2) send(2) by (simp add: wf_node_def leader_view_def)
  have "entry_term (rlog n ! 0) = 0"
    using assms(1) by (simp add: wf_node_def persisted_def)
  then have head: "ae_prevLogIndex args = 0 \<Longrightarrow> ae_prevLogTerm args = 0"
    using send(5,6) by simp
  have "currentTerm f \<le> ae_term args"
    using assms(5,7) send(4) unfolding onAppendEntries_eq by (auto simp: not_less [symmetric])
  note c = refused_conflict [OF assms(5,4,6) this head]
  have "max (aer_conflictIndex reply) 1 \<le> ae_prevLogIndex args"
    using c by (simp add: word_le_nat_alt word_less_nat_alt max_def)
  moreover have "ae_prevLogIndex args < nextIndex n ! p"
    using send(5) pos unat_pred [of 0 "nextIndex n ! p"] by (simp add: word_less_nat_alt)
  ultimately have "min (max (aer_conflictIndex reply) 1) (lastLogIndex n + 1) < nextIndex n ! p"
    by (auto simp: min_less_iff_disj)
  moreover have "0 < lastLogIndex n + 1"
    using wf_node_log(1,4) [OF assms(1)] by (simp add: word_less_nat_alt)
  then have "0 < min (max (aer_conflictIndex reply) 1) (lastLogIndex n + 1)"
    by (simp add: less_max_iff_disj)
  moreover have "nextIndex (replicator_reply ck' (word_of_nat p) t args (Some reply) n) ! p
      = min (max (aer_conflictIndex reply) 1) (lastLogIndex n + 1)"
    using send(1-3) assms(6,7) ids by (simp add: replicator_reply_def Let_def)
  ultimately show ?thesis by simp
qed

definition probing :: RaftNode where
  "probing = leader0\<lparr>nextIndex := [2, 2, 2]\<rparr>"

theorem repair_makes_progress_witness:
  "\<exists>args reply f'. replicator_send 1 1 probing = Some args \<and> onAppendEntries ck0 args voter1 = (reply, f')
     \<and> \<not> aer_success reply
     \<and> nextIndex (replicator_reply ck0 1 1 args (Some reply) probing) ! 1 < nextIndex probing ! 1"
proof -
  let ?args = "\<lparr>ae_term = 1, ae_leaderId = 0, ae_prevLogIndex = 1, ae_prevLogTerm = 1, ae_leaderCommit = 0,
    ae_entries = []\<rparr>"
  let ?reply = "\<lparr>aer_term = 1, aer_success = False, aer_conflictIndex = 1\<rparr>"
  have send: "replicator_send (word_of_nat 1) 1 probing = Some ?args"
    by (simp add: probing_def replicator_send_def run_defs raft_defs)
  have refuse: "onAppendEntries ck0 ?args voter1 = (?reply, voter1\<lparr>leaderHint := 0\<rparr>)"
    by (simp add: run_defs raft_defs Let_def lastLogIndex_def)
  obtain c where c: "reachable 3 covered c" "nodes c 0 = leader0" "nodes c 1 = voter1"
    using run_elected by blast
  then have wf: "wf_node 3 0 leader0" "wf_node 3 1 voter1"
    using reachable_sim [OF c(1)] nodeD(1) [of 3 c _ 0] nodeD(1) [of 3 c _ 1] by auto
  have "s_entries (append_done noop (storage candidate0)) = [noop]"
    using wf(1) by (simp add: wf_node_def persisted_def leader0_def)
  with wf(1) have "wf_node 3 0 probing"
    by (auto simp: wf_node_def persisted_def leader_view_def probing_def leader0_def less_Suc_eq numeral_3_eq_3)
  from repair_makes_progress [OF this _ send wf(2) refuse, of ck0] send refuse show ?thesis
    by (intro exI [of _ ?args] exI [of _ ?reply] exI [of _ "voter1\<lparr>leaderHint := 0\<rparr>"]) simp
qed

section \<open>Requests\<close>

text \<open>
  C16: in every reachable state, the request a replicator builds carries at most \<^verbatim>\<open>kMaxBatch\<close> entries, the
  previous index and all entries lie within the leader's log (the accesses to \<^verbatim>\<open>log_\<close> and
  \<^verbatim>\<open>nextIndex_\<close> are in range and the subtraction does not wrap), and the entries are the consecutive
  ones that follow the previous index.
\<close>

theorem request_bounds:
  assumes "reachable N P c" "N < 2 ^ 31" "(i, p, t) \<in> repls c"
    and "replicator_send (word_of_nat p) t (nodes c i) = Some args"
  shows "p < length (nextIndex (nodes c i)) \<and> length (ae_entries args) \<le> 100
    \<and> 0 < nextIndex (nodes c i) ! p
    \<and> unat (ae_prevLogIndex args) + length (ae_entries args) < length (rlog (nodes c i))
    \<and> (\<forall>k < length (ae_entries args). ae_entries args ! k = rlog (nodes c i) ! (unat (ae_prevLogIndex args) + 1 + k))"
proof -
  let ?n = "nodes c i"
  obtain s where s: "sim N c s"
    using reachable_sim [OF assms(1,2)] by blast
  have i: "i < N" "p < N"
    using netD(9) [OF s assms(3)] by simp_all
  note wf = nodeD(1) [OF s i(1)]
  have p: "unat (word_of_nat p :: u32) = p"
    using i(2) assms(2) by (intro unat_of_nat_id) simp
  have args: "role ?n = Leader" "ae_prevLogIndex args = nextIndex ?n ! p - 1"
      "ae_entries args = take 100 (drop (unat (nextIndex ?n ! p)) (rlog ?n))"
    using assms(4) p by (auto simp: replicator_send_def kMaxBatch_def Let_def split: if_splits)
  have ni: "0 < unat (nextIndex ?n ! p)" "unat (nextIndex ?n ! p) \<le> length (rlog ?n)" "p < length (nextIndex ?n)"
    using wf args(1) i(2) by (simp_all add: wf_node_def leader_view_def)
  then have prev: "unat (ae_prevLogIndex args) + 1 = unat (nextIndex ?n ! p)"
    using args(2) unat_pred [of 0 "nextIndex ?n ! p"] by (simp add: word_less_nat_alt)
  show ?thesis
    using ni args(3) prev by (auto simp: word_less_nat_alt)
qed

theorem request_bounds_witness:
  "\<exists>c. reachable 3 covered c \<and> (0, 1, 1) \<in> repls c \<and> (\<exists>args. replicator_send 1 1 (nodes c 0) = Some args
     \<and> length (ae_entries args) \<le> 100)"
proof -
  obtain c where c: "reachable 3 covered c" "nodes c 0 = leader0" "(0, 1, 1) \<in> repls c"
    using run_elected by blast
  moreover obtain args where args: "replicator_send 1 1 leader0 = Some args"
    by (simp add: replicator_send_def leader0_def candidate0_def fresh_def start_def RaftNode_new_def
        resetElectionDeadline_def)
  ultimately show ?thesis
    using request_bounds [OF c(1) _ c(3), of args] by (intro exI [of _ c]) simp
qed

section \<open>Submission\<close>

lemma submitted_entry:
  assumes "reachable N covered c" "N < 2 ^ 31" "i < N" "room (nodes c i)" "length cmd + 20 < 2 ^ 32"
    and "submit cmd (nodes c i) = (r, n')" "sr_isLeader r"
    and "runs N covered (put i n' c) c'" "(j, sr_index r, e) \<in> history c'" "entry_term e = sr_term r"
  shows "entry_command e = cmd"
proof -
  let ?c = "put i n' c"
  have "reachable N covered ?c"
    using cluster_step.Submit [OF assms(3-6)] by (rule reachable.step [OF assms(1)])
  then obtain s where s: "sim N ?c s" "commits N ?c s"
    using covered_reachable [OF _ assms(2)] by blast
  obtain s' where s': "ext s s'" "sim N c' s'" "commits N c' s'"
    using runs_commits [OF assms(8) s] by blast
  have node: "nodes ?c i = n'"
    by (simp add: put_def)
  have n': "role n' = Leader" "currentTerm n' = sr_term r" "sr_index r = lastLogIndex n'"
      "rlog n' = rlog (nodes c i) @ [\<lparr>entry_term = sr_term r, entry_command = cmd\<rparr>]"
    using assms(6,7) by (auto elim!: submit_cases)
  let ?k = "unat (sr_index r)"
  have k: "?k = length (rlog n') - 1" "?k < length (rlog n')"
    using wf_node_log(1,3) [OF nodeD(1) [OF s(1) assms(3)]] n'(3) node by simp_all
  then have own: "rlog n' ! ?k = \<lparr>entry_term = sr_term r, entry_command = cmd\<rparr>"
    using n'(4) by (simp add: nth_append)
  have led: "sp_ledger s (sr_term r) = rlog n'" "sp_elected s (sr_term r) \<noteq> None"
    using leader_ledger [OF s(1) assms(3)] n'(1,2) node by auto
  then have l': "sp_ledger s' (sr_term r) ! ?k = rlog n' ! ?k" "?k < length (sp_ledger s' (sr_term r))"
      "sp_elected s' (sr_term r) \<noteq> None"
    using ext_same_upto(2,3) [OF s'(1) led(2)] k(2) ext_elected [OF s'(1) led(2)] by simp_all
  obtain t n where t: "committed N s' t n" "?k \<le> n" "sp_ledger s' t ! ?k = e"
    using s'(3) assms(9) unfolding commits_def decided_def by blast
  note inv = simD(2) [OF s'(2)]
  have good: "good_log s' (sp_ledger s' t)" "good_log s' (sp_ledger s' (sr_term r))"
    using good_ledger committed_led(1) [OF inv t(1)] l'(3) inv by (auto simp: spec_inv_def)
  have "?k < length (sp_ledger s' t)"
    using committed_led(2) [OF inv t(1)] t(2) by simp
  then have "same_upto ?k (sp_ledger s' t) (sp_ledger s' (sr_term r))"
    using logs_match [OF good _ l'(2)] l'(1) own t(3) assms(10) by simp
  from same_upto_nth [OF this order_refl] show ?thesis
    using l'(1) own t(3) by simp
qed

text \<open>
  C10: the index and term that \<^verbatim>\<open>submit\<close> returns identify the command. In executions whose delivered
  append requests are \<^term>\<open>covered\<close>: if any node ever applies an entry of that term at that index, in
  this or any later state, it is the submitted command.
\<close>

theorem submitted_command_applied:
  assumes "reachable N covered c" "N < 2 ^ 31" "i < N" "room (nodes c i)" "length cmd + 20 < 2 ^ 32"
    and "submit cmd (nodes c i) = (r, n')" "sr_isLeader r"
    and "runs N covered (put i n' c) c'" "(j, sr_index r, e) \<in> history c'" "entry_term e = sr_term r"
  shows "entry_command e = cmd"
  by (rule submitted_entry [OF assms])

theorem submitted_command_applied_witness:
  "\<exists>c c' r n' e. reachable 3 covered c \<and> submit ''SET'' (nodes c 0) = (r, n') \<and> sr_isLeader r
     \<and> runs 3 covered (put 0 n' c) c' \<and> (1, sr_index r, e) \<in> history c' \<and> entry_command e = ''SET''"
proof -
  obtain c where c: "reachable 3 covered c" "nodes c 0 = leader0" "nodes c 1 = voter1" "(0, 1, 1) \<in> repls c"
      "pending c = (\<lambda>_. None)" "history c = {}" "applied c = (\<lambda>_. [])"
    using run_elected by blast
  obtain c' where c': "runs 3 covered (put 0 (busy0 ''SET'') c) c'" "(1, 2, entry_of ''SET'') \<in> history c'"
    using run_applied_from [OF c(2-7), of "''SET''"] by blast
  let ?r = "\<lparr>sr_isLeader = True, sr_leaderHint = 0, sr_index = 2, sr_term = 1\<rparr>"
  have sub: "submit ''SET'' (nodes c 0) = (?r, busy0 ''SET'')"
    using c(2) run_submit by simp
  have "entry_command (entry_of ''SET'') = ''SET''"
    using submitted_command_applied [OF c(1) _ _ _ _ sub _ c'(1), of 1 "entry_of ''SET''"] c(2) c'(2) room_leader0
    by (simp add: entry_of_def)
  with c(1) sub c' show ?thesis
    by (intro exI [of _ c] exI [of _ c'] exI [of _ ?r] exI [of _ "busy0 ''SET''"] exI [of _ "entry_of ''SET''"]) simp
qed

end
