(* ===== verification/System.thy ===== *)
theory System
  imports Server RaftProps
begin

text \<open>
  The whole system: a cluster of Raft nodes, the server of each node, and the clients' commands in
  progress. The steps are those of the cluster, with \<^verbatim>\<open>applyFn_\<close> bound to \<^verbatim>\<open>Server::onApply\<close> and commands
  submitted by \<^verbatim>\<open>Server::executeCommand\<close>. The theorems say that the answers the clients get are those of
  one sequential key-value store.
\<close>

section \<open>State and steps\<close>

record System =
  cl :: Cluster
  srv :: "nat \<Rightarrow> Server"
  calls :: "(nat \<times> Command \<times> SubmitResult) set"
  answers :: "(nat \<times> Command \<times> SubmitResult \<times> string) set"

text \<open>\<open>calls\<close> are the handlers that wait for their command, \<open>answers\<close> the replies they have returned.\<close>

definition system_init :: "nat \<Rightarrow> (nat \<Rightarrow> NodeConfig) \<Rightarrow> RaftConfig \<Rightarrow> clock \<Rightarrow> System" where
  "system_init N cfgs cfg ck =
     \<lparr>cl = init N cfg ck, srv = (\<lambda>i. Server_new (cfgs i)), calls = {}, answers = {}\<rparr>"

definition entry_applied :: "nat \<Rightarrow> u64 \<Rightarrow> LogEntry \<Rightarrow> Cluster \<Rightarrow> Cluster" where
  "entry_applied i idx e c = (put i (applier_done idx (nodes c i)) c)
     \<lparr>pending := (pending c)(i := None), applied := (applied c)(i := applied c i @ [e]),
      history := insert (i, idx, e) (history c)\<rparr>"

inductive system_step :: "nat \<Rightarrow> System \<Rightarrow> System \<Rightarrow> bool" for N :: nat where
  Raft: "cluster_step N covered (cl s) c \<Longrightarrow> boots c = boots (cl s) \<Longrightarrow> applied c = applied (cl s)
    \<Longrightarrow> history c = history (cl s) \<Longrightarrow> system_step N s (s\<lparr>cl := c\<rparr>)"
| Call: "i < N \<Longrightarrow> room (nodes (cl s) i) \<Longrightarrow> length (Command_encode cmd) + 20 < 2 ^ 32
    \<Longrightarrow> executeCommand_submit cmd (nodes (cl s) i) (srv s i) = (Inr r, n, sv)
    \<Longrightarrow> system_step N s (s\<lparr>cl := put i n (cl s), srv := (srv s)(i := sv), calls := insert (i, cmd, r) (calls s)\<rparr>)"
| Return: "(i, cmd, r) \<in> calls s \<Longrightarrow> executeCommand_finish cmd r (srv s i) = (reply, sv)
    \<Longrightarrow> system_step N s (s\<lparr>srv := (srv s)(i := sv), calls := calls s - {(i, cmd, r)},
          answers := insert (i, cmd, r, reply) (answers s)\<rparr>)"
| Apply: "i < N \<Longrightarrow> pending (cl s) i = Some (idx, e)
    \<Longrightarrow> system_step N s (s\<lparr>cl := entry_applied i idx e (cl s),
          srv := (srv s)(i := onApply idx (entry_term e) (entry_command e) (srv s i))\<rparr>)"
| Stop: "i < N \<Longrightarrow> Server_stop (Some (nodes (cl s) i)) (srv s i) = (Some n, sv)
    \<Longrightarrow> system_step N s (s\<lparr>cl := put i n (cl s), srv := (srv s)(i := sv)\<rparr>)"
| Crash: "i < N \<Longrightarrow> cluster_step N covered (cl s) (reboot ck i st (cl s))
    \<Longrightarrow> system_step N s (s\<lparr>cl := reboot ck i st (cl s), srv := (srv s)(i := Server_new (sv_config (srv s i))),
          calls := {x \<in> calls s. fst x \<noteq> i}\<rparr>)"

inductive system_reach :: "nat \<Rightarrow> System \<Rightarrow> bool" for N :: nat where
  start: "system_reach N (system_init N cfgs cfg ck)"
| step: "system_reach N s \<Longrightarrow> system_step N s s' \<Longrightarrow> system_reach N s'"

section \<open>The sequential store\<close>

text \<open>The store after the commands of a log, and the answer to a command on a store.\<close>

definition replay :: "LogEntry list \<Rightarrow> KVStore" where
  "replay es = foldl (\<lambda>s e. snd (snd (apply_command (entry_command e) s))) KVStore_new es"

definition respond :: "Command \<Rightarrow> KVStore \<Rightarrow> string" where
  "respond cmd s = (case cmd_op cmd of
     Set_Op \<Rightarrow> ''OK''
   | Get_Op \<Rightarrow> (case KVStore_get s (cmd_key cmd) of Some v \<Rightarrow> ''VALUE '' @ v | None \<Rightarrow> ''NOT_FOUND'')
   | Del_Op \<Rightarrow> if KVStore_contains s (cmd_key cmd) then ''DELETED'' else ''NOT_FOUND'')"

definition is_error :: "string \<Rightarrow> bool" where
  "is_error reply \<longleftrightarrow> take 5 reply = ''ERROR''"

lemma replay_snoc: "replay (es @ [e]) = snd (snd (apply_command (entry_command e) (replay es)))"
  by (simp add: replay_def)

lemma apply_command_ok: "KVStore_ok s \<Longrightarrow> KVStore_ok (snd (snd (apply_command raw s)))"
  using kv.put_valid kv.drop_valid
  by (auto simp: apply_command_def split: option.splits Op.splits prod.splits dest!: kv.drop_valid)

lemma replay_ok: "KVStore_ok (replay es)"
proof (induction es rule: rev_induct)
  case Nil
  then show ?case using kv.new_valid by (simp add: replay_def)
next
  case (snoc e es)
  then show ?case by (simp add: replay_snoc apply_command_ok)
qed

text \<open>What \<^verbatim>\<open>onApply\<close> records for a command is what the answer is made of.\<close>

lemma Command_encode_nonempty: "Command_encode cmd \<noteq> []"
  by (simp add: Command_encode_eq)

lemma Command_ok_size:
  assumes "length (Command_encode cmd) < 2 ^ 32"
  shows "Command_ok cmd"
  using assms by (simp add: Command_encode_eq Command_ok_def sized_def)

lemma respond_applied:
  assumes "Command_ok cmd" "KVStore_ok s" "apply_command (Command_encode cmd) s = (val, existed, s')"
  shows "respond cmd s = (case cmd_op cmd of Set_Op \<Rightarrow> ''OK''
     | Get_Op \<Rightarrow> (case val of Some v \<Rightarrow> ''VALUE '' @ v | None \<Rightarrow> ''NOT_FOUND'')
     | Del_Op \<Rightarrow> if existed then ''DELETED'' else ''NOT_FOUND'')"
proof -
  have "Command_decode (Command_encode cmd) = Some cmd"
    using assms(1) by (simp add: Command_decode_encode)
  then show ?thesis
    using assms(3) kv.has_view [OF assms(2)] kv.drop_found [OF assms(2), of "cmd_key cmd"] Command_encode_nonempty [of cmd]
    by (cases "cmd_op cmd") (auto simp: apply_command_def respond_def split: prod.splits)
qed

lemma respond_no_error: "\<not> is_error (respond cmd s)"
  by (auto simp: is_error_def respond_def split: Op.splits option.splits)

section \<open>The invariant\<close>

definition waiter_ok :: "LogEntry list \<Rightarrow> u64 \<Rightarrow> PendingResult \<Rightarrow> bool" where
  "waiter_ok es k pr \<longleftrightarrow>
     (if pr_applied pr then
        0 < unat k \<and> unat k \<le> length es
        \<and> (let e = es ! (unat k - 1); (val, existed, _) = apply_command (entry_command e) (replay (take (unat k - 1) es))
           in pr_appliedTerm pr = entry_term e \<and> pr_value pr = val \<and> pr_existed pr = existed)
      else pr = PendingResult_new \<and> length es < unat k)"

definition server_ok :: "Server \<Rightarrow> LogEntry list \<Rightarrow> bool" where
  "server_ok sv es \<longleftrightarrow> store sv = replay es \<and> (\<forall>k pr. waiters sv k = Some pr \<longrightarrow> waiter_ok es k pr)"

definition logged :: "nat \<Rightarrow> LogEntry list \<Rightarrow> Cluster \<Rightarrow> bool" where
  "logged i es c \<longleftrightarrow> (\<forall>k < length es. (i, word_of_nat (k + 1), es ! k) \<in> history c)"

text \<open>A call in progress stems from a submission in an earlier state.\<close>

definition call_ok :: "nat \<Rightarrow> Cluster \<Rightarrow> nat \<Rightarrow> Command \<Rightarrow> SubmitResult \<Rightarrow> bool" where
  "call_ok N c i cmd r \<longleftrightarrow> i < N \<and> length (Command_encode cmd) + 20 < 2 ^ 32
     \<and> (\<exists>c0 n. reachable N covered c0 \<and> room (nodes c0 i) \<and> submit (Command_encode cmd) (nodes c0 i) = (r, n)
          \<and> sr_isLeader r \<and> runs N covered (put i n c0) c)"

text \<open>
  The answer to a command is that of the sequential store after the entries that precede the command
  in the log.
\<close>

definition served :: "Cluster \<Rightarrow> nat \<Rightarrow> Command \<Rightarrow> SubmitResult \<Rightarrow> string \<Rightarrow> LogEntry list \<Rightarrow> bool" where
  "served c i cmd r reply es \<longleftrightarrow> es \<noteq> [] \<and> length es = unat (sr_index r) \<and> logged i es c
     \<and> last es = \<lparr>entry_term = sr_term r, entry_command = Command_encode cmd\<rparr>
     \<and> reply = respond cmd (replay (butlast es))"

definition system_ok :: "nat \<Rightarrow> System \<Rightarrow> bool" where
  "system_ok N s \<longleftrightarrow> reachable N covered (cl s)
     \<and> (\<forall>i<N. server_ok (srv s i) (applied (cl s) i) \<and> logged i (applied (cl s) i) (cl s))
     \<and> (\<forall>i cmd r. (i, cmd, r) \<in> calls s \<longrightarrow> call_ok N (cl s) i cmd r)
     \<and> (\<forall>i cmd r reply. (i, cmd, r, reply) \<in> answers s \<longrightarrow> is_error reply \<or> (\<exists>es. served (cl s) i cmd r reply es))"

lemma applier_facts:
  assumes "reachable N covered c" "N < 2 ^ 31" "i < N"
  shows "length (applied c i) = unat (lastApplied (nodes c i))"
    "unat (lastApplied (nodes c i)) < length (rlog (nodes c i))"
    "pending c i = Some (idx, e) \<Longrightarrow> unat idx = length (applied c i) + 1"
proof -
  let ?n = "nodes c i"
  obtain s where s: "sim N c s" "commits N c s"
    using covered_reachable [OF assms(1,2)] by blast
  have ok: "agreed N s (currentTerm ?n) (rlog ?n) (unat (commitIndex ?n))" "lastApplied ?n \<le> commitIndex ?n"
      "applied c i = take (unat (lastApplied ?n)) (tl (rlog ?n))"
      "\<And>idx e. pending c i = Some (idx, e) \<Longrightarrow> unat idx = unat (lastApplied ?n) + 1"
    using s(2) assms(3) unfolding commits_def commit_ok_def applier_ok_def Let_def by blast+
  have "unat (commitIndex ?n) < length (rlog ?n)"
    using wf_node_log(1) [OF nodeD(1) [OF s(1) assms(3)]] by (rule agreed_length [OF ok(1)])
  then show *: "unat (lastApplied ?n) < length (rlog ?n)"
    using ok(2) by (simp add: word_le_nat_alt)
  then show "length (applied c i) = unat (lastApplied ?n)"
    using ok(3) by simp
  then show "unat idx = length (applied c i) + 1" if "pending c i = Some (idx, e)"
    using ok(4) [OF that] by simp
qed

lemma logged_mono: "logged i es c \<Longrightarrow> history c \<subseteq> history c' \<Longrightarrow> logged i es c'"
  by (auto simp: logged_def)

lemma logged_take: "logged i es c \<Longrightarrow> logged i (take k es) c"
  by (auto simp: logged_def)

lemma served_mono: "served c i cmd r reply es \<Longrightarrow> history c \<subseteq> history c' \<Longrightarrow> served c' i cmd r reply es"
  using logged_mono by (auto simp: served_def)

lemma call_ok_step:
  assumes "call_ok N c i cmd r" "cluster_step N covered c c'"
  shows "call_ok N c' i cmd r"
  using assms rtranclp.rtrancl_into_rtrancl [of "cluster_step N covered"] unfolding call_ok_def by blast

text \<open>A step of the cluster that keeps or extends the history, with what happens to the servers.\<close>

lemma system_ok_step:
  assumes "system_ok N s" "cluster_step N covered (cl s) (cl s')" "history (cl s) \<subseteq> history (cl s')"
    and "\<And>i. i < N \<Longrightarrow> server_ok (srv s' i) (applied (cl s') i) \<and> logged i (applied (cl s') i) (cl s')"
    and "\<And>i cmd r. (i, cmd, r) \<in> calls s' \<Longrightarrow> (i, cmd, r) \<in> calls s \<or> call_ok N (cl s') i cmd r"
    and "answers s' = answers s"
  shows "system_ok N s'"
proof -
  note ok = assms(1) [unfolded system_ok_def]
  have "reachable N covered (cl s')"
    by (rule reachable.step [OF conjunct1 [OF ok] assms(2)])
  moreover have "call_ok N (cl s') i cmd r" if "(i, cmd, r) \<in> calls s'" for i cmd r
  proof (rule disjE [OF assms(5) [OF that]])
    assume "(i, cmd, r) \<in> calls s"
    with ok have "call_ok N (cl s) i cmd r" by blast
    then show ?thesis by (rule call_ok_step [OF _ assms(2)])
  qed
  moreover have "is_error reply \<or> (\<exists>es. served (cl s') i cmd r reply es)"
    if "(i, cmd, r, reply) \<in> answers s'" for i cmd r reply
  proof -
    have "is_error reply \<or> (\<exists>es. served (cl s) i cmd r reply es)"
      using ok that assms(6) by simp
    then show ?thesis using served_mono [OF _ assms(3)] by blast
  qed
  ultimately show ?thesis
    using assms(4) by (simp add: system_ok_def)
qed

lemma ok_server:
  assumes "system_ok N s" "i < N"
  shows "server_ok (srv s i) (applied (cl s) i)" "logged i (applied (cl s) i) (cl s)" "reachable N covered (cl s)"
  using assms by (simp_all add: system_ok_def)

section \<open>Steps\<close>

lemma onApply_ok:
  assumes "server_ok sv es" "unat idx = length es + 1"
  shows "server_ok (onApply idx (entry_term e) (entry_command e) sv) (es @ [e])"
proof -
  obtain val existed st where ap: "apply_command (entry_command e) (replay es) = (val, existed, st)"
    using prod_cases3 by blast
  have sv: "store sv = replay es" "\<And>k pr. waiters sv k = Some pr \<Longrightarrow> waiter_ok es k pr"
    using assms(1) by (simp_all add: server_ok_def)
  have st: "store (onApply idx (entry_term e) (entry_command e) sv) = replay (es @ [e])"
    using sv(1) ap by (simp add: onApply_def replay_snoc Let_def split: option.splits)
  have "waiter_ok (es @ [e]) k pr"
    if "waiters (onApply idx (entry_term e) (entry_command e) sv) k = Some pr" for k pr
  proof (cases "k = idx")
    case True
    then have "pr_applied pr" "pr_appliedTerm pr = entry_term e" "pr_value pr = val" "pr_existed pr = existed"
      using that sv(1) ap by (auto simp: onApply_def Let_def split: option.splits)
    with True ap assms(2) show ?thesis
      by (simp add: waiter_ok_def)
  next
    case False
    then have k: "waiters sv k = Some pr" "unat k \<noteq> length es + 1"
      using that assms(2) by (auto simp: onApply_def Let_def word_unat_eq_iff split: option.splits prod.splits)
    with sv(2) [OF k(1)] show ?thesis
      by (cases "pr_applied pr") (auto simp: waiter_ok_def nth_append)
  qed
  with st show ?thesis
    by (simp add: server_ok_def)
qed

lemma step_apply:
  assumes "system_ok N s" "N < 2 ^ 31" "i < N" "pending (cl s) i = Some (idx, e)"
  shows "system_ok N (s\<lparr>cl := entry_applied i idx e (cl s),
          srv := (srv s)(i := onApply idx (entry_term e) (entry_command e) (srv s i))\<rparr>)"
    (is "system_ok N ?s'")
proof (rule system_ok_step [OF assms(1)])
  note ok = ok_server [OF assms(1)]
  have idx: "unat idx = length (applied (cl s) i) + 1"
    using applier_facts(3) [OF ok(3) assms(2,3,4)] assms(3) by blast
  have w: "word_of_nat (length (applied (cl s) i) + 1) = idx"
    by (simp only: idx [symmetric] of_nat_unat ucast_id)
  fix j
  assume j: "j < N"
  have "logged i (applied (cl s) i @ [e]) (entry_applied i idx e (cl s))"
    using ok(2) [OF assms(3)] w by (auto simp: logged_def nth_append entry_applied_def less_Suc_eq put_def)
  moreover have "logged j (applied (cl s) j) (entry_applied i idx e (cl s))"
    using ok(2) [OF j] by (auto simp: logged_def entry_applied_def put_def)
  ultimately show "server_ok (srv ?s' j)
      (applied (cl ?s') j)
    \<and> logged j (applied (cl ?s') j)
      (cl ?s')"
    using onApply_ok [OF ok(1) [OF assms(3)] idx, of e] ok(1) [OF j]
    by (cases "j = i") (simp_all add: entry_applied_def put_def)
next
  show "cluster_step N covered (cl s) (cl ?s')"
    using cluster_step.Apply [OF assms(3,4), where P = covered] by (simp add: entry_applied_def)
qed (auto simp: entry_applied_def)

lemma submit_index:
  assumes "reachable N covered c" "N < 2 ^ 31" "i < N" "room (nodes c i)" "length cmd + 20 < 2 ^ 32"
    and "submit cmd (nodes c i) = (r, n)" "sr_isLeader r"
  shows "unat (sr_index r) = length (rlog (nodes c i))"
proof -
  have "reachable N covered (put i n c)"
    using cluster_step.Submit [OF assms(3-6)] by (rule reachable.step [OF assms(1)])
  then obtain s where "sim N (put i n c) s"
    using covered_reachable [OF _ assms(2)] by blast
  from nodeD(1) [OF this assms(3)] have "unat (lastLogIndex n) = length (rlog n) - 1"
    using wf_node_log(3) by (simp add: put_def)
  then show ?thesis
    using assms(6,7) by (auto elim!: submit_cases)
qed

lemma executeCommand_submitD:
  assumes "executeCommand_submit cmd n sv = (Inr r, n', sv')"
  shows "submit (Command_encode cmd) n = (r, n')" "sr_isLeader r" "store sv' = store sv"
    "waiters sv' k = Some pr \<Longrightarrow> waiters sv k = Some pr \<or> k = sr_index r \<and> pr = PendingResult_new"
  using assms by (auto simp: executeCommand_submit_def Let_def split: prod.splits if_splits)

lemma step_call:
  assumes "system_ok N s" "N < 2 ^ 31" "i < N" "room (nodes (cl s) i)" "length (Command_encode cmd) + 20 < 2 ^ 32"
    and "executeCommand_submit cmd (nodes (cl s) i) (srv s i) = (Inr r, n, sv)"
  shows "system_ok N (s\<lparr>cl := put i n (cl s), srv := (srv s)(i := sv), calls := insert (i, cmd, r) (calls s)\<rparr>)"
    (is "system_ok N ?s'")
proof (rule system_ok_step [OF assms(1)])
  note ok = ok_server [OF assms(1)] and ex = executeCommand_submitD [OF assms(6)]
  have step: "cluster_step N covered (cl s) (put i n (cl s))"
    using cluster_step.Submit [OF assms(3-5) ex(1)] .
  then show "cluster_step N covered (cl s) (cl ?s')"
    by simp
  have new: "length (applied (cl s) i) < unat (sr_index r)"
    using applier_facts(1,2) [OF ok(3) assms(2,3)] submit_index [OF ok(3) assms(2-5) ex(1,2)] assms(3) by simp
  have "waiter_ok (applied (cl s) i) k pr" if "waiters sv k = Some pr" for k pr
    using ex(4) [OF that]
  proof
    assume "waiters (srv s i) k = Some pr"
    then show ?thesis using ok(1) [OF assms(3)] by (simp add: server_ok_def)
  next
    assume "k = sr_index r \<and> pr = PendingResult_new"
    then show ?thesis using new by (simp add: waiter_ok_def PendingResult_new_def)
  qed
  then have "server_ok sv (applied (cl s) i)"
    using ok(1) [OF assms(3)] ex(3) by (simp add: server_ok_def)
  then show "server_ok (srv ?s' j)
      (applied (cl ?s') j)
    \<and> logged j (applied (cl ?s') j)
      (cl ?s')"
    if "j < N" for j
    using ok(1,2) [OF that] by (simp add: put_def logged_def)
  have "call_ok N (put i n (cl s)) i cmd r"
    using ok(3) [OF assms(3)] assms(3-5) ex(1,2) unfolding call_ok_def by blast
  then show "(j, cmd', r') \<in> calls s \<or>
      call_ok N (cl ?s') j cmd' r'"
    if "(j, cmd', r') \<in> calls ?s'"
    for j cmd' r'
    using that by auto
qed (simp_all add: put_def)

lemma finish_served:
  assumes "system_ok N s" "N < 2 ^ 31" "(i, cmd, r) \<in> calls s"
    and "executeCommand_finish cmd r (srv s i) = (reply, sv)"
  shows "is_error reply \<or> (\<exists>es. served (cl s) i cmd r reply es)"
proof (cases "\<exists>pr. waiters (srv s i) (sr_index r) = Some pr \<and> pr_applied pr \<and> pr_appliedTerm pr = sr_term r")
  case False
  with assms(4) show ?thesis
    by (auto simp: executeCommand_finish_def executeCommand_ready_def PendingResult_new_def is_error_def Let_def
        split: option.splits if_splits)
next
  case True
  then obtain pr where pr: "waiters (srv s i) (sr_index r) = Some pr" "pr_applied pr" "pr_appliedTerm pr = sr_term r"
    by blast
  have call: "call_ok N (cl s) i cmd r"
    using assms(1,3) unfolding system_ok_def by blast
  then have i: "i < N" "length (Command_encode cmd) + 20 < 2 ^ 32"
    by (simp_all add: call_ok_def)
  note ok = ok_server [OF assms(1) i(1)]
  let ?k = "unat (sr_index r)" and ?ap = "applied (cl s) i"
  let ?es = "take ?k ?ap" and ?e = "?ap ! (?k - 1)"
  obtain st where k: "0 < ?k" "?k \<le> length ?ap" "entry_term ?e = sr_term r"
      "apply_command (entry_command ?e) (replay (take (?k - 1) ?ap)) = (pr_value pr, pr_existed pr, st)"
    using ok(1) pr unfolding server_ok_def waiter_ok_def Let_def
    by (fastforce split: prod.splits)
  have "word_of_nat (?k - 1 + 1) = sr_index r"
    using k(1) by (simp add: of_nat_unat)
  then have "(i, sr_index r, ?e) \<in> history (cl s)"
    using ok(2) k(1,2) unfolding logged_def by (metis One_nat_def Suc_pred less_le_trans diff_less zero_less_one)
  then have cmd: "entry_command ?e = Command_encode cmd"
    using call k(3) unfolding call_ok_def by (elim conjE exE) (rule submitted_entry [OF _ assms(2)])
  have reply: "reply = respond cmd (replay (take (?k - 1) ?ap))"
    using respond_applied [OF Command_ok_size replay_ok k(4) [unfolded cmd]] i(2) assms(4) pr
    by (simp add: executeCommand_finish_def executeCommand_ready_def Let_def)
  have es: "?es = take (?k - 1) ?ap @ [?e]"
    using k(1,2) take_Suc_conv_app_nth [of "?k - 1" ?ap] by simp
  have "last ?es = \<lparr>entry_term = sr_term r, entry_command = Command_encode cmd\<rparr>"
    using es k(3) cmd by (cases ?e) simp
  moreover have "logged i ?es (cl s)"
    by (rule logged_take [OF ok(2)])
  moreover have "butlast ?es = take (?k - 1) ?ap" "?es \<noteq> []" "length ?es = ?k"
    using k(1,2) by (auto simp: butlast_take)
  ultimately have "served (cl s) i cmd r reply ?es"
    using reply unfolding served_def by simp
  then show ?thesis by blast
qed

lemma step_return:
  assumes "system_ok N s" "N < 2 ^ 31" "(i, cmd, r) \<in> calls s"
    and "executeCommand_finish cmd r (srv s i) = (reply, sv)"
  shows "system_ok N (s\<lparr>srv := (srv s)(i := sv), calls := calls s - {(i, cmd, r)},
          answers := insert (i, cmd, r, reply) (answers s)\<rparr>)"
proof -
  have sv: "store sv = store (srv s i)" "\<And>k pr. waiters sv k = Some pr \<Longrightarrow> waiters (srv s i) k = Some pr"
    using assms(4) by (auto simp: executeCommand_finish_def Let_def split: if_splits)
  have "server_ok sv (applied (cl s) i)" if "i < N"
    using ok_server(1) [OF assms(1) that] sv by (simp add: server_ok_def)
  then show ?thesis
    using assms(1) finish_served [OF assms] unfolding system_ok_def by auto
qed

text \<open>Steps that leave the servers, or at least their stores and waiters, as they are.\<close>

lemma step_raft:
  assumes "system_ok N s" "cluster_step N covered (cl s) c" "applied c = applied (cl s)" "history c = history (cl s)"
    and "\<And>j. store (f j) = store (srv s j) \<and> waiters (f j) = waiters (srv s j)"
  shows "system_ok N (s\<lparr>cl := c, srv := f\<rparr>)"
proof (rule system_ok_step [OF assms(1)])
  show "server_ok (srv (s\<lparr>cl := c, srv := f\<rparr>) j) (applied (cl (s\<lparr>cl := c, srv := f\<rparr>)) j)
      \<and> logged j (applied (cl (s\<lparr>cl := c, srv := f\<rparr>)) j) (cl (s\<lparr>cl := c, srv := f\<rparr>))" if "j < N" for j
    using ok_server [OF assms(1) that] assms(3-5) by (simp add: server_ok_def logged_def)
qed (use assms in auto)

lemma step_crash:
  assumes "system_ok N s" "cluster_step N covered (cl s) (reboot ck i st (cl s))"
  shows "system_ok N (s\<lparr>cl := reboot ck i st (cl s), srv := (srv s)(i := Server_new (sv_config (srv s i))),
          calls := {x \<in> calls s. fst x \<noteq> i}\<rparr>)" (is "system_ok N ?s'")
proof (rule system_ok_step [OF assms(1)])
  have "server_ok (Server_new cfg) []" for cfg
    by (simp add: server_ok_def Server_new_def replay_def)
  then show "server_ok (srv ?s' j) (applied (cl ?s') j) \<and> logged j (applied (cl ?s') j) (cl ?s')" if "j < N" for j
    using ok_server(1,2) [OF assms(1) that] by (auto simp: reboot_def put_def Let_def logged_def)
qed (use assms(2) in \<open>auto simp: reboot_def put_def Let_def\<close>)

lemma step_system:
  assumes "system_step N s s'" "system_ok N s" "N < 2 ^ 31"
  shows "system_ok N s'"
  using assms(1)
proof cases
  case (Raft c)
  then show ?thesis using step_raft [OF assms(2) Raft(2,4,5), of "srv s"] by simp
next
  case (Call i cmd r n sv)
  then show ?thesis using step_call [OF assms(2,3) Call(2-5)] by simp
next
  case (Return i cmd r reply sv)
  then show ?thesis using step_return [OF assms(2,3) Return(2,3)] by simp
next
  case (Apply i idx e)
  then show ?thesis using step_apply [OF assms(2,3) Apply(2,3)] by simp
next
  case (Stop i n sv)
  have sv: "store sv = store (srv s i)" "waiters sv = waiters (srv s i)" "n = nodes (cl s) i \<or> n = stop (nodes (cl s) i)"
    using Stop(3) by (auto simp: Server_stop_def split: if_splits)
  show ?thesis
  proof (cases "n = stop (nodes (cl s) i)")
    case True
    then have "cluster_step N covered (cl s) (put i n (cl s))"
      using cluster_step.Stop [OF Stop(2), where c = "cl s" and P = covered] by simp
    from step_raft [OF assms(2) this, of "(srv s)(i := sv)"] show ?thesis
      using Stop(1) sv by (simp add: put_def)
  next
    case False
    then have "put i n (cl s) = cl s"
      using sv(3) by (simp add: put_def)
    then show ?thesis
      using Stop(1) assms(2) sv(1,2) by (simp add: system_ok_def server_ok_def)
  qed
next
  case (Crash i ck st)
  then show ?thesis using step_crash [OF assms(2) Crash(3)] by simp
qed

theorem reach_ok:
  assumes "system_reach N s" "N < 2 ^ 31"
  shows "system_ok N s"
  using assms(1)
proof induction
  case (start cfgs cfg ck)
  show ?case
    using reachable_init [of N covered cfg ck]
    by (simp add: system_ok_def system_init_def server_ok_def logged_def Server_new_def replay_def init_def)
next
  case (step s s')
  then show ?case using step_system assms(2) by blast
qed

lemma step_runs:
  assumes "system_step N s s'"
  shows "runs N covered (cl s) (cl s')"
  using assms
proof cases
  case (Call i cmd r n sv)
  then show ?thesis using cluster_step.Submit [OF Call(2-4) executeCommand_submitD(1) [OF Call(5)], of covered] by auto
next
  case (Apply i idx e)
  then show ?thesis using cluster_step.Apply [OF Apply(2,3), of covered] by (auto simp: entry_applied_def)
next
  case (Stop i n sv)
  then have "n = nodes (cl s) i \<or> n = stop (nodes (cl s) i)"
    by (auto simp: Server_stop_def split: if_splits)
  then show ?thesis using Stop(1) cluster_step.Stop [OF Stop(2), of covered "cl s"] by (auto simp: put_def)
qed auto

lemma steps_runs: "(system_step N)\<^sup>*\<^sup>* s s' \<Longrightarrow> runs N covered (cl s) (cl s')"
  by (induction rule: rtranclp_induct) (auto dest: step_runs intro: rtranclp_trans)

lemma steps_reach: "(system_step N)\<^sup>*\<^sup>* s s' \<Longrightarrow> system_reach N s \<Longrightarrow> system_reach N s'"
  by (induction rule: rtranclp_induct) (auto intro: system_reach.step)

section \<open>Linearizability\<close>

text \<open>The one log: the entry that was ever applied at an index.\<close>

definition the_log :: "Cluster \<Rightarrow> nat \<Rightarrow> LogEntry" where
  "the_log c k = (SOME e. \<exists>i. (i, word_of_nat k, e) \<in> history c)"

lemma the_log_history:
  assumes "reachable N covered c" "N < 2 ^ 31" "(i, k, e) \<in> history c"
  shows "the_log c (unat k) = e"
proof -
  have k: "word_of_nat (unat k) = k"
    by (simp add: of_nat_unat)
  have "\<exists>j. (j, k, the_log c (unat k)) \<in> history c"
    unfolding the_log_def k using someI [of "\<lambda>e. \<exists>i. (i, k, e) \<in> history c" e] assms(3) by blast
  then show ?thesis
    using history_unique [OF assms(1,2) _ assms(3)] by blast
qed

lemma the_log_logged:
  assumes "reachable N covered c" "N < 2 ^ 31" "logged i es c" "length es < 2 ^ 64"
  shows "map (the_log c) [1..<Suc (length es)] = es"
proof (rule nth_equalityI)
  fix k
  assume "k < length (map (the_log c) [1..<Suc (length es)])"
  then have k: "k < length es" by (simp del: upt_Suc)
  then have "(i, word_of_nat (k + 1), es ! k) \<in> history c"
    using assms(3) by (simp add: logged_def)
  moreover have "unat (word_of_nat (k + 1) :: u64) = k + 1"
    using k assms(4) by (intro unat_of_nat_id) simp
  ultimately show "map (the_log c) [1..<Suc (length es)] ! k = es ! k"
    using the_log_history [OF assms(1,2)] k by (fastforce simp del: upt_Suc)
qed (simp del: upt_Suc)

lemma reach_cluster:
  assumes "system_reach N s" "N < 2 ^ 31"
  shows "reachable N covered (cl s)"
  using reach_ok [OF assms] by (simp add: system_ok_def)

lemma reach_answer:
  assumes "system_reach N s" "N < 2 ^ 31" "(i, cmd, r, reply) \<in> answers s" "\<not> is_error reply"
  obtains es where "served (cl s) i cmd r reply es"
  using reach_ok [OF assms(1,2)] assms(3,4) unfolding system_ok_def by blast

lemma reach_answered:
  assumes "system_reach N s" "N < 2 ^ 31" "(i, cmd, r, reply) \<in> answers s" "\<not> is_error reply"
  shows "(i, sr_index r, \<lparr>entry_term = sr_term r, entry_command = Command_encode cmd\<rparr>) \<in> history (cl s)"
proof -
  obtain es where es: "es \<noteq> []" "length es = unat (sr_index r)" "logged i es (cl s)"
      "last es = \<lparr>entry_term = sr_term r, entry_command = Command_encode cmd\<rparr>"
    using reach_answer [OF assms] by (auto simp: served_def)
  then have "(i, word_of_nat (length es - 1 + 1), es ! (length es - 1)) \<in> history (cl s)"
    unfolding logged_def by (metis diff_less length_greater_0_conv zero_less_one)
  moreover have "length es - 1 + 1 = unat (sr_index r)"
    using es(1,2) by (simp flip: length_greater_0_conv)
  ultimately show ?thesis
    using es(4) by (simp only: last_conv_nth [OF es(1)] of_nat_unat ucast_id)
qed

lemma store_follows:
  assumes "system_reach N s" "N < 2 ^ 31" "i < N"
  shows "store (srv s i) = replay (map (the_log (cl s)) [1..<Suc (unat (lastApplied (nodes (cl s) i)))])"
proof -
  note ok = ok_server [OF reach_ok [OF assms(1,2)] assms(3)]
  have "length (applied (cl s) i) = unat (lastApplied (nodes (cl s) i))"
    by (rule applier_facts(1) [OF ok(3) assms(2,3)])
  then have "map (the_log (cl s)) [1..<Suc (unat (lastApplied (nodes (cl s) i)))] = applied (cl s) i"
    using the_log_logged [OF ok(3) assms(2) ok(2)] unat_u64_less [of "lastApplied (nodes (cl s) i)"]
    by (simp del: upt_Suc)
  then show ?thesis
    using ok(1) by (simp add: server_ok_def)
qed

lemma answer_follows:
  assumes "system_reach N s" "N < 2 ^ 31" "(i, cmd, r, reply) \<in> answers s" "\<not> is_error reply"
  shows "the_log (cl s) (unat (sr_index r)) = \<lparr>entry_term = sr_term r, entry_command = Command_encode cmd\<rparr>"
    "reply = respond cmd (replay (map (the_log (cl s)) [1..<unat (sr_index r)]))"
proof -
  obtain es where es: "served (cl s) i cmd r reply es"
    by (rule reach_answer [OF assms])
  let ?L = "the_log (cl s)" and ?e = "\<lparr>entry_term = sr_term r, entry_command = Command_encode cmd\<rparr>"
  have "map ?L [1..<Suc (unat (sr_index r))] = es"
    using the_log_logged [OF reach_cluster [OF assms(1,2)] assms(2), of i es] es unat_u64_less [of "sr_index r"]
    by (simp add: served_def del: upt_Suc)
  moreover have "es = butlast es @ [?e]" "0 < unat (sr_index r)"
    using es append_butlast_last_id [of es] by (auto simp: served_def simp flip: length_greater_0_conv)
  ultimately have "map ?L [1..<unat (sr_index r)] @ [?L (unat (sr_index r))] = butlast es @ [?e]"
    by simp
  then show "?L (unat (sr_index r)) = ?e" "reply = respond cmd (replay (map ?L [1..<unat (sr_index r)]))"
    using es by (auto simp: served_def)
qed

text \<open>
  C1: the clients see one sequential key-value store. There is one sequence of commands that every
  node applies, each server's store is the result of its first \<^verbatim>\<open>lastApplied_\<close> commands, and every answer
  that is not an error is the answer of the sequential store to that command at the index where it
  stands in the sequence, through all elections, crashes, lost and repeated messages.
\<close>

theorem answers_linearizable:
  assumes "system_reach N s" "N < 2 ^ 31"
  shows "\<exists>L. (\<forall>i<N. store (srv s i) = replay (map L [1..<Suc (unat (lastApplied (nodes (cl s) i)))]))
    \<and> (\<forall>i idx e. (i, idx, e) \<in> history (cl s) \<longrightarrow> L (unat idx) = e)
    \<and> (\<forall>i cmd r reply. (i, cmd, r, reply) \<in> answers s \<longrightarrow> \<not> is_error reply \<longrightarrow>
         L (unat (sr_index r)) = \<lparr>entry_term = sr_term r, entry_command = Command_encode cmd\<rparr>
         \<and> reply = respond cmd (replay (map L [1..<unat (sr_index r)])))"
  using store_follows [OF assms] the_log_history [OF reach_cluster [OF assms] assms(2)] answer_follows [OF assms]
  by (intro exI [of _ "the_log (cl s)"] conjI allI impI) blast+

text \<open>
  A submission that is applied later stands behind every entry that was applied before it was made.
\<close>

lemma submitted_later:
  assumes "reachable N covered c" "N < 2 ^ 31" "i < N" "room (nodes c i)" "length cmd + 20 < 2 ^ 32"
    and "submit cmd (nodes c i) = (r, n)" "sr_isLeader r" "runs N covered (put i n c) c'"
    and "(j, sr_index r, e) \<in> history c'" "entry_term e = sr_term r" "(j', k, e') \<in> history c"
  shows "k < sr_index r"
proof (rule ccontr)
  assume "\<not> k < sr_index r"
  then have le: "unat (sr_index r) \<le> unat k"
    by (simp add: word_less_nat_alt)
  obtain s where s: "sim N c s" "commits N c s"
    using covered_reachable [OF assms(1,2)] by blast
  have "runs N covered c c'"
    using converse_rtranclp_into_rtranclp [of "cluster_step N covered", OF cluster_step.Submit [OF assms(3-6)] assms(8)] .
  then obtain s' where s': "ext s s'" "sim N c' s'" "commits N c' s'"
    using runs_commits [OF _ s] by blast
  note inv = simD(2) [OF s(1)]
  have lead: "role (nodes c i) = Leader" "sr_term r = currentTerm (nodes c i)"
    using assms(6,7) by (auto elim!: submit_cases)
  let ?k = "unat (sr_index r)"
  have k: "?k = length (sp_ledger s (sr_term r))"
    using submit_index [OF assms(1-7)] leader_ledger(1) [OF s(1) assms(3) lead(1)] lead(2) by simp
  obtain t m where t: "committed N s t m" "unat k \<le> m"
    using s(2) assms(11) unfolding commits_def decided_def by blast
  have pos: "decided N s' ?k e"
    using s'(3) assms(9) by (auto simp: commits_def)
  then have "decided N s ?k (sp_ledger s t ! ?k)"
    using t le order_trans [OF le t(2)] unfolding decided_def by blast
  from decided_unique [OF simD(2) [OF s'(2)] decided_ext [OF inv s'(1) this] pos]
  have trm: "entry_term (sp_ledger s t ! ?k) = sr_term r"
    using assms(10) by simp
  have "0 < ?k" "?k < length (sp_ledger s t)" "inv_elected N s"
    using pos le t(2) committed_led(2) [OF inv t(1)] inv by (simp_all add: decided_def spec_inv_def)
  moreover from this(3) have "good_log s (sp_ledger s t)"
    by (rule good_ledger [OF _ committed_led(1) [OF inv t(1)]])
  ultimately have "same_upto ?k (sp_ledger s t) (sp_ledger s (entry_term (sp_ledger s t ! ?k)))"
    by (simp add: good_log_def)
  then have "?k < length (sp_ledger s (sr_term r))"
    unfolding trm by (simp add: same_upto_def)
  with k show False by simp
qed

text \<open>
  C2: real-time order. A command that is called after another command was answered stands behind it in the
  sequence: its index is greater (unless one of the two is answered with an error).
\<close>

theorem answers_in_real_time_order:
  assumes "system_reach N s" "N < 2 ^ 31" "(i, cmd, r, reply) \<in> answers s" "\<not> is_error reply"
    and "j < N" "room (nodes (cl s) j)" "length (Command_encode cmd') + 20 < 2 ^ 32"
    and "executeCommand_submit cmd' (nodes (cl s) j) (srv s j) = (Inr r', n, sv)"
    and "(system_step N)\<^sup>*\<^sup>* (s\<lparr>cl := put j n (cl s), srv := (srv s)(j := sv), calls := insert (j, cmd', r') (calls s)\<rparr>) s'"
    and "(j, cmd', r', reply') \<in> answers s'" "\<not> is_error reply'"
  shows "sr_index r < sr_index r'"
proof -
  note ex = executeCommand_submitD [OF assms(8)]
  have reach: "system_reach N s'"
    by (rule steps_reach [OF assms(9) system_reach.step [OF assms(1) system_step.Call [OF assms(5-8)]]])
  have run: "runs N covered (put j n (cl s)) (cl s')"
    using steps_runs [OF assms(9)] by simp
  show ?thesis
    by (rule submitted_later [OF reach_cluster [OF assms(1,2)] assms(2,5-7) ex(1,2) run
        reach_answered [OF reach assms(2,10,11)] _ reach_answered [OF assms(1-4)]]) simp
qed

section \<open>A run\<close>

text \<open>
  A node that is alone elects itself, commits and applies its entries without any message. Two clients
  call it one after the other.
\<close>

definition solo :: "LogEntry list \<Rightarrow> u64 \<Rightarrow> Storage \<Rightarrow> RaftNode" where
  "solo es k st = (start ck0 (RaftNode_new 0 1 fresh_Storage cfg0))\<lparr>role := Leader, currentTerm := 1, votedFor := 0,
     votesReceived := 1, leaderHint := 0, nextIndex := [1], matchIndex := [word_of_nat (length es)],
     rlog := sentinel # es, commitIndex := word_of_nat (length es), lastApplied := k, storage := st\<rparr>"

definition solo_at :: "LogEntry list \<Rightarrow> KVStore \<Rightarrow> System \<Rightarrow> bool" where
  "solo_at es kvs s \<longleftrightarrow> (\<exists>st. nodes (cl s) 0 = solo es (word_of_nat (length es)) st) \<and> pending (cl s) = (\<lambda>_. None)
     \<and> waiters (srv s 0) = Map.empty \<and> store (srv s 0) = kvs"

lemma majority_1: "clusterSize n = 1 \<Longrightarrow> majority n = 1"
  by (simp add: majority_def word_eq_iff_unsigned unat_word_ariths unat_div)

lemma commit_scan_hit:
  "commitIndex nd < n \<Longrightarrow> entry_term (rlog nd ! unat n) = currentTerm nd \<Longrightarrow> majority nd \<le> replicas nd n
   \<Longrightarrow> commit_scan nd n = n"
  by (simp add: commit_scan.simps)

lemma solo_elected: "tickerLoop ck0 (start ck0 (RaftNode_new 0 1 fresh_Storage cfg0))
    = (solo [noop] 0 (append_done noop (saveMeta_done 1 0 fresh_Storage)), [])"
  by (simp add: solo_def ck0_def RaftNode_new_def tickerLoop_def startElection_def becomeLeader_def push_entry_def
      advanceCommit_def start_def resetElectionDeadline_def majority_1 peers_def lastLogIndex_def commit_scan_hit replicas_def)
    (simp_all add: Let_def)

lemma solo_submit:
  "submit cmd (solo [a] k st) = (\<lparr>sr_isLeader = True, sr_leaderHint = 0, sr_index = 2, sr_term = 1\<rparr>,
     solo [a, entry_of cmd] k (append_done (entry_of cmd) st))"
  "submit cmd (solo [a, b] k st) = (\<lparr>sr_isLeader = True, sr_leaderHint = 0, sr_index = 3, sr_term = 1\<rparr>,
     solo [a, b, entry_of cmd] k (append_done (entry_of cmd) st))"
  by (simp_all add: solo_def RaftNode_new_def entry_of_def submit_def push_entry_def advanceCommit_def start_def
      resetElectionDeadline_def majority_1 lastLogIndex_def commit_scan_hit replicas_def)
    (simp_all add: Let_def)

lemma solo_simps [simp]:
  "stopping (solo es k st) = False" "rlog (solo es k st) = sentinel # es" "currentTerm (solo es k st) = 1"
  "commitIndex (solo es k st) = word_of_nat (length es)" "lastApplied (solo es k st) = k"
  "applier_done idx (solo es k st) = solo es idx st"
  by (simp_all add: solo_def RaftNode_new_def start_def resetElectionDeadline_def applier_done_def)

lemma fetch_apply:
  assumes "i < N" "pending (cl s) i = None" "applier_fetch False (nodes (cl s) i) = Some (idx, e)"
  shows "(system_step N)\<^sup>*\<^sup>* s (s\<lparr>cl := entry_applied i idx e (cl s),
    srv := (srv s)(i := onApply idx (entry_term e) (entry_command e) (srv s i))\<rparr>)"
proof -
  let ?t = "s\<lparr>cl := (cl s)\<lparr>pending := (pending (cl s))(i := Some (idx, e))\<rparr>\<rparr>"
  have "system_step N s ?t"
    by (rule system_step.Raft [OF cluster_step.Fetch [OF assms]]) simp_all
  moreover have "system_step N ?t (?t\<lparr>cl := entry_applied i idx e (cl ?t),
      srv := (srv ?t)(i := onApply idx (entry_term e) (entry_command e) (srv ?t i))\<rparr>)"
    using assms(1) by (intro system_step.Apply) simp_all
  moreover have "entry_applied i idx e (cl ?t) = entry_applied i idx e (cl s)"
    by (simp add: entry_applied_def put_def)
  ultimately show ?thesis
    by (simp add: converse_rtranclp_into_rtranclp)
qed

text \<open>The state right after a call, and a call that runs to its answer.\<close>

definition called :: "nat \<Rightarrow> Command \<Rightarrow> SubmitResult \<Rightarrow> RaftNode \<Rightarrow> Server \<Rightarrow> System \<Rightarrow> System" where
  "called i cmd r n sv s = s\<lparr>cl := put i n (cl s), srv := (srv s)(i := sv), calls := insert (i, cmd, r) (calls s)\<rparr>"

lemma solo_finish:
  assumes "waiters sv (sr_index r) = Some PendingResult_new" "KVStore_ok (store sv)" "length (Command_encode cmd) < 2 ^ 32"
  shows "executeCommand_finish cmd r (onApply (sr_index r) (sr_term r) (Command_encode cmd) sv)
    = (respond cmd (store sv), sv\<lparr>waiters := (waiters sv)(sr_index r := None),
         store := snd (snd (apply_command (Command_encode cmd) (store sv)))\<rparr>)"
proof -
  obtain val existed st where ap: "apply_command (Command_encode cmd) (store sv) = (val, existed, st)"
    using prod_cases3 by blast
  show ?thesis
    using respond_applied [OF Command_ok_size assms(2) ap] assms(1,3) ap
    by (simp add: executeCommand_finish_def executeCommand_ready_def onApply_def Let_def split: Op.split)
qed

lemma solo_round:
  assumes "solo_at es kvs s" "length (Command_encode cmd) + 20 < 2 ^ 32"
    and "\<And>st. submit (Command_encode cmd) (solo es (word_of_nat (length es)) st)
      = (r, solo (es @ [entry_of (Command_encode cmd)]) (word_of_nat (length es)) (f st))"
    and "r = \<lparr>sr_isLeader = True, sr_leaderHint = 0, sr_index = word_of_nat (length es) + 1, sr_term = 1\<rparr>"
    and "length es < 3" "KVStore_ok kvs"
  shows "\<exists>n sv s'. executeCommand_submit cmd (nodes (cl s) 0) (srv s 0) = (Inr r, n, sv) \<and> room (nodes (cl s) 0)
     \<and> (system_step 1)\<^sup>*\<^sup>* (called 0 cmd r n sv s) s'
     \<and> solo_at (es @ [entry_of (Command_encode cmd)]) (snd (snd (apply_command (Command_encode cmd) kvs))) s'
     \<and> (0, cmd, r, respond cmd kvs) \<in> answers s'"
proof -
  let ?e = "entry_of (Command_encode cmd)"
  obtain st where st: "nodes (cl s) 0 = solo es (word_of_nat (length es)) st" and at: "pending (cl s) = (\<lambda>_. None)"
      "waiters (srv s 0) = Map.empty" "store (srv s 0) = kvs"
    using assms(1) by (auto simp: solo_at_def)
  let ?n = "solo (es @ [?e]) (word_of_nat (length es)) (f st)"
  let ?sv = "(srv s 0)\<lparr>waiters := [sr_index r \<mapsto> PendingResult_new]\<rparr>"
  have ex: "executeCommand_submit cmd (nodes (cl s) 0) (srv s 0) = (Inr r, ?n, ?sv)"
    using assms(3,4) st at(2) by (simp add: executeCommand_submit_def)
  have room: "room (nodes (cl s) 0)"
    using st assms(5) by (intro room_small) simp_all
  let ?s1 = "called 0 cmd r ?n ?sv s"
  have k: "unat (word_of_nat (length es) :: u64) = length es" "unat (word_of_nat (Suc (length es)) :: u64) = Suc (length es)"
    by (rule unat_of_nat_id, use assms(5) in simp)+
  have idx: "sr_index r = word_of_nat (Suc (length es))"
    using assms(4) by (simp add: add.commute)
  have suc: "1 + word_of_nat (length es) = (word_of_nat (Suc (length es)) :: u64)"
    by simp
  have "applier_fetch False (nodes (cl ?s1) 0) = Some (sr_index r, ?e)"
    unfolding idx using k
    by (simp add: called_def put_def applier_fetch_def word_less_nat_alt nth_append add.commute suc Let_def del: of_nat_Suc)
  note step = fetch_apply [OF zero_less_one _ this]
  let ?sv2 = "onApply (sr_index r) (entry_term ?e) (entry_command ?e) ?sv"
  let ?s2 = "?s1\<lparr>cl := entry_applied 0 (sr_index r) ?e (cl ?s1), srv := (srv ?s1)(0 := ?sv2)\<rparr>"
  let ?kvs = "snd (snd (apply_command (Command_encode cmd) kvs))"
  let ?sv3 = "?sv\<lparr>waiters := (waiters ?sv)(sr_index r := None), store := ?kvs\<rparr>"
  have fin: "executeCommand_finish cmd r ?sv2 = (respond cmd kvs, ?sv3)"
    using solo_finish [of ?sv r cmd] assms(2,4,6) at(3) by (simp add: entry_of_def)
  let ?s3 = "?s2\<lparr>srv := (srv ?s2)(0 := ?sv3), calls := calls ?s2 - {(0, cmd, r)},
    answers := insert (0, cmd, r, respond cmd kvs) (answers ?s2)\<rparr>"
  have "system_step 1 ?s2 ?s3"
    by (rule system_step.Return) (simp_all add: called_def fin)
  moreover have "(system_step 1)\<^sup>*\<^sup>* ?s1 ?s2"
    using step at(1) by (simp add: called_def put_def)
  ultimately have "(system_step 1)\<^sup>*\<^sup>* ?s1 ?s3"
    by (rule rtranclp.rtrancl_into_rtrancl [rotated])
  moreover have "solo_at (es @ [?e]) ?kvs ?s3"
    using at(1) idx by (auto simp: solo_at_def called_def entry_applied_def put_def)
  ultimately show ?thesis
    using ex room by (intro exI [of _ ?n] exI [of _ ?sv] exI [of _ ?s3]) simp
qed

lemma solo_started: "\<exists>s. system_reach 1 s \<and> solo_at [noop] KVStore_new s"
proof -
  let ?cfg = "\<lparr>cfg_id = 0, raftAddrs = [], clientAddrs = [], dataDir = [], cfg_raft = cfg0\<rparr>"
  let ?i = "system_init 1 (\<lambda>_. ?cfg) cfg0 ck0" and ?st = "append_done noop (saveMeta_done 1 0 fresh_Storage)"
  define s where "s = ?i\<lparr>cl := spawn 0 [] (put 0 (solo [noop] 0 ?st) (cl ?i))\<rparr>"
  have n: "nodes (cl ?i) 0 = start ck0 (RaftNode_new 0 1 fresh_Storage cfg0)"
    by (simp add: system_init_def init_def)
  have "room (nodes (cl ?i) 0)"
    unfolding n by (intro room_small) (simp_all add: RaftNode_new_def start_def resetElectionDeadline_def)
  then have "cluster_step 1 covered (cl ?i) (spawn 0 [] (put 0 (solo [noop] 0 ?st) (cl ?i)))"
    using solo_elected n by (intro cluster_step.Tick [where ck = ck0]) simp_all
  then have "system_step 1 ?i s"
    unfolding s_def by (rule system_step.Raft) (simp_all add: spawn_def put_def)
  then have reach: "system_reach 1 s"
    by (rule system_reach.step [OF system_reach.start])
  have s: "nodes (cl s) 0 = solo [noop] 0 ?st" "pending (cl s) = (\<lambda>_. None)" "srv s 0 = Server_new ?cfg"
    by (simp_all add: s_def spawn_def put_def system_init_def init_def)
  then have "applier_fetch False (nodes (cl s) 0) = Some (1, noop)"
    by (simp add: applier_fetch_def)
  from fetch_apply [OF zero_less_one _ this] s(2) obtain t where t: "(system_step 1)\<^sup>*\<^sup>* s t"
      "t = s\<lparr>cl := entry_applied 0 1 noop (cl s), srv := (srv s)(0 := onApply 1 1 [] (srv s 0))\<rparr>"
    by simp
  have "solo_at [noop] KVStore_new t"
    using s unfolding t(2)
    by (auto simp: solo_at_def entry_applied_def put_def onApply_def apply_command_def Server_new_def)
  with steps_reach [OF t(1) reach] show ?thesis by blast
qed

text \<open>A client sets the key \<^verbatim>\<open>a\<close> to \<^verbatim>\<open>1\<close> and is answered; then another reads it.\<close>

definition set_a :: Command where
  "set_a = \<lparr>cmd_op = Set_Op, cmd_key = ''a'', cmd_value = ''1''\<rparr>"

definition get_a :: Command where
  "get_a = \<lparr>cmd_op = Get_Op, cmd_key = ''a'', cmd_value = []\<rparr>"

definition result :: "u64 \<Rightarrow> SubmitResult" where
  "result k = \<lparr>sr_isLeader = True, sr_leaderHint = 0, sr_index = k, sr_term = 1\<rparr>"

lemma run_two_calls:
  "\<exists>s n sv s'. system_reach 1 s \<and> (0, set_a, result 2, ''OK'') \<in> answers s \<and> room (nodes (cl s) 0)
     \<and> executeCommand_submit get_a (nodes (cl s) 0) (srv s 0) = (Inr (result 3), n, sv)
     \<and> (system_step 1)\<^sup>*\<^sup>* (called 0 get_a (result 3) n sv s) s' \<and> (0, get_a, result 3, ''VALUE 1'') \<in> answers s'"
proof -
  let ?e = "entry_of (Command_encode set_a)"
  have small: "length (Command_encode set_a) + 20 < 2 ^ 32" "length (Command_encode get_a) + 20 < 2 ^ 32"
    by (simp_all add: Command_encode_eq set_a_def get_a_def)
  have "Command_decode (Command_encode set_a) = Some set_a"
    using small(1) by (intro Command_decode_encode Command_ok_size) simp
  then have ap: "apply_command (Command_encode set_a) KVStore_new = (None, False, KVStore_set ''a'' ''1'' KVStore_new)"
    using Command_encode_nonempty [of set_a] by (simp add: apply_command_def set_a_def)
  have ok: "KVStore_ok KVStore_new" "KVStore_ok (KVStore_set ''a'' ''1'' KVStore_new)"
    using kv.new_valid kv.put_valid by blast+
  have rsp: "respond set_a KVStore_new = ''OK''" "respond get_a (KVStore_set ''a'' ''1'' KVStore_new) = ''VALUE 1''"
    by (simp_all add: respond_def set_a_def get_a_def KVStore_set_def KVStore_get_def KVStore_new_def)
  obtain s0 where s0: "system_reach 1 s0" "solo_at [noop] KVStore_new s0"
    using solo_started by blast
  obtain n sv s where s: "executeCommand_submit set_a (nodes (cl s0) 0) (srv s0 0) = (Inr (result 2), n, sv)"
      "room (nodes (cl s0) 0)" "(system_step 1)\<^sup>*\<^sup>* (called 0 set_a (result 2) n sv s0) s"
      "solo_at [noop, ?e] (KVStore_set ''a'' ''1'' KVStore_new) s" "(0, set_a, result 2, ''OK'') \<in> answers s"
    using solo_round [OF s0(2) small(1) _ _ _ ok(1), of "result 2" "append_done ?e"]
    by (auto simp: solo_submit result_def rsp ap)
  have "system_reach 1 (called 0 set_a (result 2) n sv s0)"
    unfolding called_def by (rule system_reach.step [OF s0(1) system_step.Call [OF zero_less_one s(2) small(1) s(1)]])
  then have "system_reach 1 s"
    by (rule steps_reach [OF s(3)])
  moreover have "\<exists>n sv s'. executeCommand_submit get_a (nodes (cl s) 0) (srv s 0) = (Inr (result 3), n, sv)
      \<and> room (nodes (cl s) 0) \<and> (system_step 1)\<^sup>*\<^sup>* (called 0 get_a (result 3) n sv s) s'
      \<and> (0, get_a, result 3, ''VALUE 1'') \<in> answers s'"
    using solo_round [OF s(4) small(2) _ _ _ ok(2), of "result 3" "append_done (entry_of (Command_encode get_a))"]
    by (auto simp: solo_submit result_def rsp)
  ultimately show ?thesis
    using s(5) by blast
qed

theorem answers_linearizable_witness:
  "\<exists>(s :: System) L. system_reach 1 s \<and> (0, get_a, result 3, ''VALUE 1'') \<in> answers s
     \<and> L 3 = entry_of (Command_encode get_a) \<and> ''VALUE 1'' = respond get_a (replay (map L [1..<3]))"
proof -
  obtain s n sv s' where s: "system_reach 1 s" "room (nodes (cl s) 0)"
      "executeCommand_submit get_a (nodes (cl s) 0) (srv s 0) = (Inr (result 3), n, sv)"
      "(system_step 1)\<^sup>*\<^sup>* (called 0 get_a (result 3) n sv s) s'" "(0, get_a, result 3, ''VALUE 1'') \<in> answers s'"
    using run_two_calls by blast
  have small: "length (Command_encode get_a) + 20 < 2 ^ 32"
    by (simp add: Command_encode_eq get_a_def)
  have reach: "system_reach 1 s'"
    using steps_reach [OF s(4)] system_reach.step [OF s(1) system_step.Call [OF zero_less_one s(2) small s(3)]]
    by (simp add: called_def)
  have noerr: "\<not> is_error ''VALUE 1''" and one: "(1 :: nat) < 2 ^ 31"
    by (simp_all add: is_error_def)
  have at: "unat (sr_index (result 3)) = 3"
      "\<lparr>entry_term = sr_term (result 3), entry_command = Command_encode get_a\<rparr> = entry_of (Command_encode get_a)"
    by (simp_all add: result_def entry_of_def)
  from answers_linearizable [OF reach one] obtain L where
    L: "\<forall>i cmd r reply. (i, cmd, r, reply) \<in> answers s' \<longrightarrow> \<not> is_error reply \<longrightarrow>
         L (unat (sr_index r)) = \<lparr>entry_term = sr_term r, entry_command = Command_encode cmd\<rparr>
         \<and> reply = respond cmd (replay (map L [1..<unat (sr_index r)]))"
    by (elim exE conjE)
  have "L 3 = entry_of (Command_encode get_a) \<and> ''VALUE 1'' = respond get_a (replay (map L [1..<3]))"
    using L [rule_format, OF s(5) noerr] unfolding at by simp
  with reach s(5) show ?thesis by blast
qed

theorem answers_in_real_time_order_witness:
  "\<exists>(s :: System) (s' :: System). system_reach 1 s \<and> (0, set_a, result 2, ''OK'') \<in> answers s
     \<and> (0, get_a, result 3, ''VALUE 1'') \<in> answers s' \<and> sr_index (result 2) < sr_index (result 3)"
proof -
  obtain s n sv s' where s: "system_reach 1 s" "(0, set_a, result 2, ''OK'') \<in> answers s" "room (nodes (cl s) 0)"
      "executeCommand_submit get_a (nodes (cl s) 0) (srv s 0) = (Inr (result 3), n, sv)"
      "(system_step 1)\<^sup>*\<^sup>* (called 0 get_a (result 3) n sv s) s'" "(0, get_a, result 3, ''VALUE 1'') \<in> answers s'"
    using run_two_calls by blast
  have small: "length (Command_encode get_a) + 20 < 2 ^ 32"
    by (simp add: Command_encode_eq get_a_def)
  have noerr: "\<not> is_error ''VALUE 1''" "\<not> is_error ''OK''" and one: "(1 :: nat) < 2 ^ 31"
    by (simp_all add: is_error_def)
  have "sr_index (result 2) < sr_index (result 3)"
    by (rule answers_in_real_time_order [OF s(1) one s(2) noerr(2) zero_less_one s(3) small s(4)
        s(5) [unfolded called_def] s(6) noerr(1)])
  with s(1,2,6) show ?thesis by blast
qed

end
