(* ===== verification/Sockets.thy ===== *)
theory Sockets
  imports Net
begin

text \<open>
  Socket set-up (\<^verbatim>\<open>src/net.cpp\<close>: \<^verbatim>\<open>setNonBlocking\<close>, \<^verbatim>\<open>tcpConnect\<close>, \<^verbatim>\<open>tcpListen\<close>, \<^verbatim>\<open>tcpAccept\<close>, \<^verbatim>\<open>closeFd\<close>). The
  outcomes of the system calls are arguments; the results carry the calls that release or configure
  something, in order. \<open>nb\<close> is the platform's \<^verbatim>\<open>O_NONBLOCK\<close>. \<^verbatim>\<open>SO_NOSIGPIPE\<close> does not exist on Linux, where
  \<^verbatim>\<open>disableSigpipe\<close> does nothing.
\<close>

unbundle bit_operations_syntax

section \<open>Operations\<close>

datatype syscall = FreeAddrinfo | Close int | NoDelay int | ReuseAddr int

text \<open>\<^verbatim>\<open>getOk\<close> and \<^verbatim>\<open>setOk\<close>: whether the two calls of \<^verbatim>\<open>fcntl\<close> succeed. The second result are the flags now.\<close>

definition setNonBlocking :: "i32 \<Rightarrow> bool \<Rightarrow> bool \<Rightarrow> bool \<Rightarrow> i32 \<Rightarrow> bool \<times> i32" where
  "setNonBlocking nb getOk setOk nonBlocking flags =
     (if \<not> getOk then (False, flags)
      else let flags' = (if nonBlocking then flags OR nb else flags AND NOT nb)
           in if setOk then (True, flags') else (False, flags))"

record connect_outcome =
  resolved :: bool
  socket_fd :: int
  fcntl1 :: "bool \<times> bool"
  connect_rc :: int
  in_progress :: bool
  poll_rc :: int
  getsockopt_rc :: int
  so_error :: int
  fcntl2 :: "bool \<times> bool"

text \<open>The descriptor, the calls, and the flags of the socket when it returns (from \<open>fl\<close> at its creation).\<close>

definition tcpConnect :: "i32 \<Rightarrow> i32 \<Rightarrow> connect_outcome \<Rightarrow> int \<times> syscall list \<times> i32" where
  "tcpConnect nb fl x =
     (if \<not> resolved x then (-1, [], fl)
      else let fd = socket_fd x in
        if fd < 0 then (-1, [FreeAddrinfo], fl)
        else let fl = snd (setNonBlocking nb (fst (fcntl1 x)) (snd (fcntl1 x)) True fl) in
          if connect_rc x \<noteq> 0 \<and> \<not> in_progress x then (-1, [FreeAddrinfo, Close fd], fl)
          else if connect_rc x \<noteq> 0 \<and> poll_rc x \<le> 0 then (-1, [FreeAddrinfo, Close fd], fl)
          else if connect_rc x \<noteq> 0 \<and> (getsockopt_rc x \<noteq> 0 \<or> so_error x \<noteq> 0) then (-1, [FreeAddrinfo, Close fd], fl)
          else let fl = snd (setNonBlocking nb (fst (fcntl2 x)) (snd (fcntl2 x)) False fl)
            in (fd, [FreeAddrinfo, NoDelay fd], fl))"

record listen_outcome =
  listen_fd :: int
  bind_rc :: int
  listen_rc :: int

definition tcpListen :: "listen_outcome \<Rightarrow> int \<times> syscall list" where
  "tcpListen x =
     (let fd = listen_fd x in
      if fd < 0 then (-1, [])
      else if bind_rc x \<noteq> 0 \<or> listen_rc x \<noteq> 0 then (-1, [ReuseAddr fd, Close fd])
      else (fd, [ReuseAddr fd]))"

definition tcpAccept :: "int \<Rightarrow> int \<times> syscall list" where
  "tcpAccept accepted = (accepted, if accepted \<ge> 0 then [NoDelay accepted] else [])"

definition closeFd :: "int \<Rightarrow> syscall list" where
  "closeFd fd = (if fd \<ge> 0 then [Close fd] else [])"

section \<open>Resources\<close>

definition connected :: "connect_outcome \<Rightarrow> bool" where
  "connected x \<longleftrightarrow> resolved x \<and> 0 \<le> socket_fd x
     \<and> (connect_rc x = 0 \<or> in_progress x \<and> 0 < poll_rc x \<and> getsockopt_rc x = 0 \<and> so_error x = 0)"

lemma nonblocking_undone: "(a OR nb) AND NOT nb = a AND NOT (nb :: i32)"
  by (rule bit_eqI) (auto simp: bit_simps)

text \<open>
  C39: socket set-up leaks nothing and fails only when a system call fails. \<^verbatim>\<open>tcpConnect\<close> returns the
  socket exactly when the connection is established within the timeout, and -1 otherwise; it frees the
  resolved addresses exactly once, closes the socket exactly once if it does not return it and never
  otherwise, and a socket it returns has the flags it was created with, without \<^verbatim>\<open>O_NONBLOCK\<close>. The same for
  \<^verbatim>\<open>tcpListen\<close>.
\<close>

theorem sockets_no_leak:
  "fst (tcpConnect nb fl x) = (if connected x then socket_fd x else -1)
   \<and> count_list (fst (snd (tcpConnect nb fl x))) FreeAddrinfo = (if resolved x then 1 else 0)
   \<and> count_list (fst (snd (tcpConnect nb fl x))) (Close (socket_fd x))
       = (if resolved x \<and> 0 \<le> socket_fd x \<and> \<not> connected x then 1 else 0)
   \<and> (connected x \<and> fcntl2 x = (True, True) \<longrightarrow> snd (snd (tcpConnect nb fl x)) = fl AND NOT nb)
   \<and> fst (tcpListen y) = (if 0 \<le> listen_fd y \<and> bind_rc y = 0 \<and> listen_rc y = 0 then listen_fd y else -1)
   \<and> count_list (snd (tcpListen y)) (Close (listen_fd y)) = (if 0 \<le> listen_fd y \<and> fst (tcpListen y) < 0 then 1 else 0)"
proof (intro conjI)
  show "connected x \<and> fcntl2 x = (True, True) \<longrightarrow> snd (snd (tcpConnect nb fl x)) = fl AND NOT nb"
    by (auto simp: tcpConnect_def connected_def setNonBlocking_def Let_def nonblocking_undone)
qed (auto simp: tcpConnect_def tcpListen_def connected_def Let_def)

theorem sockets_no_leak_witness:
  "tcpConnect 0x800 2 \<lparr>resolved = True, socket_fd = 7, fcntl1 = (True, True), connect_rc = -1, in_progress = True,
     poll_rc = 1, getsockopt_rc = 0, so_error = 0, fcntl2 = (True, True)\<rparr> = (7, [FreeAddrinfo, NoDelay 7], 2)"
proof -
  let ?x = "\<lparr>resolved = True, socket_fd = 7, fcntl1 = (True, True), connect_rc = -1, in_progress = True,
     poll_rc = 1, getsockopt_rc = 0, so_error = 0, fcntl2 = (True, True)\<rparr>"
  have ok: "connected ?x \<and> fcntl2 ?x = (True, True)"
    by (simp add: connected_def)
  have "snd (snd (tcpConnect 0x800 2 ?x)) = 2 AND NOT 0x800" "fst (tcpConnect 0x800 2 ?x) = 7"
    using sockets_no_leak [where nb = "0x800" and fl = 2 and x = ?x] ok by simp_all
  moreover have "fst (snd (tcpConnect 0x800 2 ?x)) = [FreeAddrinfo, NoDelay 7]"
    by (simp add: tcpConnect_def)
  ultimately show ?thesis
    by (simp add: prod_eq_iff)
qed

end
