(* ===== verification/Executables.thy ===== *)
theory Executables
  imports Server Sockets "HOL-Library.Multiset"
begin

text \<open>
  The two programs: the server's command line and start-up (\<^verbatim>\<open>src/main.cpp\<close>) and the client
  (\<^verbatim>\<open>src/client_main.cpp\<close>). The client's connections are a list of the descriptors that its calls of
  \<^verbatim>\<open>tcpConnect\<close> return and the events of the calls of \<^verbatim>\<open>send\<close>, \<^verbatim>\<open>poll\<close> and \<^verbatim>\<open>recv\<close>, consumed in order.
\<close>

section \<open>Lists of addresses\<close>

definition find_from :: "char \<Rightarrow> string \<Rightarrow> nat \<Rightarrow> nat option" where
  "find_from c s pos =
     (let rem = drop pos s; pre = takeWhile (\<lambda>x. x \<noteq> c) rem
      in if length pre < length rem then Some (pos + length pre) else None)"

lemma find_from_ge: "find_from c s pos = Some i \<Longrightarrow> pos \<le> i \<and> i < length s"
  by (auto simp: find_from_def Let_def split: if_splits)

function parseAddrList_loop :: "string \<Rightarrow> nat \<Rightarrow> Address list \<Rightarrow> Address list" where
  "parseAddrList_loop csv pos out =
     (if pos > length csv then out
      else
        let comma = find_from (CHR '','') csv pos;
            item = (case comma of None \<Rightarrow> drop pos csv | Some i \<Rightarrow> take (i - pos) (drop pos csv))
        in case (if item \<noteq> [] then map_option (\<lambda>addr. out @ [addr]) (Address_parse item) else Some out) of
             None \<Rightarrow> []
           | Some out \<Rightarrow>
               (case comma of None \<Rightarrow> out | Some i \<Rightarrow> parseAddrList_loop csv (i + 1) out))"
  by pat_completeness auto
termination
  by (relation "measure (\<lambda>(csv, pos, out). length csv + 1 - pos)") (auto dest!: find_from_ge [OF sym])

declare parseAddrList_loop.simps [simp del]

definition parseAddrList :: "string \<Rightarrow> Address list" where
  "parseAddrList csv = parseAddrList_loop csv 0 []"

text \<open>The client has the same function under another name.\<close>

definition parseServers :: "string \<Rightarrow> Address list" where
  "parseServers csv = parseAddrList_loop csv 0 []"

section \<open>The server's command line\<close>

text \<open>\<^verbatim>\<open>strtoul\<close> and \<^verbatim>\<open>strtol\<close> with base 10, for 64-bit \<^verbatim>\<open>long\<close>.\<close>

definition isspace :: "char \<Rightarrow> bool" where
  "isspace c \<longleftrightarrow> c \<in> {CHR '' '', CHR 0x09, CHR 0x0A, CHR 0x0B, CHR 0x0C, CHR 0x0D}"

definition signed_digits :: "string \<Rightarrow> bool \<times> nat" where
  "signed_digits s =
     (let s = dropWhile isspace s;
          neg = (s \<noteq> [] \<and> hd s = CHR ''-'');
          s = (if s \<noteq> [] \<and> (hd s = CHR ''-'' \<or> hd s = CHR ''+'') then tl s else s)
      in (neg, decimal 0 (takeWhile digit s)))"

definition strtoul :: "string \<Rightarrow> u64" where
  "strtoul s = (let (neg, v) = signed_digits s in
     if v \<ge> 2 ^ 64 then -1 else if neg then - word_of_nat v else word_of_nat v)"

definition strtol :: "string \<Rightarrow> int" where
  "strtol s = (let (neg, v) = signed_digits s in
     if neg then max (- (2 ^ 63)) (- int v) else min (2 ^ 63 - 1) (int v))"

definition NodeConfig_new :: NodeConfig where
  "NodeConfig_new = \<lparr>cfg_id = 0, raftAddrs = [], clientAddrs = [], dataDir = [],
     cfg_raft = \<lparr>heartbeatInterval = 75, electionTimeoutMin = 300, electionTimeoutMax = 600, tickInterval = 15\<rparr>\<rparr>"

text \<open>The loop over the arguments; \<^term>\<open>None\<close>: usage and exit status 2. The flag is \<^verbatim>\<open>haveId\<close>.\<close>

fun main_args :: "string list \<Rightarrow> NodeConfig \<Rightarrow> bool \<Rightarrow> (NodeConfig \<times> bool) option" where
  "main_args [] cfg haveId = Some (cfg, haveId)"
| "main_args [arg] cfg haveId = None"
| "main_args (arg # nxt # args) cfg haveId =
     (if arg = ''--id'' then main_args args (cfg\<lparr>cfg_id := ucast (strtoul nxt)\<rparr>) True
      else if arg = ''--raft-peers'' then main_args args (cfg\<lparr>raftAddrs := parseAddrList nxt\<rparr>) haveId
      else if arg = ''--client-peers'' then main_args args (cfg\<lparr>clientAddrs := parseAddrList nxt\<rparr>) haveId
      else if arg = ''--data-dir'' then main_args args (cfg\<lparr>dataDir := nxt\<rparr>) haveId
      else if arg = ''--heartbeat-ms'' then
        main_args args (cfg\<lparr>cfg_raft := (cfg_raft cfg)\<lparr>heartbeatInterval := strtol nxt\<rparr>\<rparr>) haveId
      else if arg = ''--election-min-ms'' then
        main_args args (cfg\<lparr>cfg_raft := (cfg_raft cfg)\<lparr>electionTimeoutMin := strtol nxt\<rparr>\<rparr>) haveId
      else if arg = ''--election-max-ms'' then
        main_args args (cfg\<lparr>cfg_raft := (cfg_raft cfg)\<lparr>electionTimeoutMax := strtol nxt\<rparr>\<rparr>) haveId
      else None)"

definition main_config :: "string list \<Rightarrow> NodeConfig option" where
  "main_config args =
     (case main_args args NodeConfig_new False of
        None \<Rightarrow> None
      | Some (cfg, haveId) \<Rightarrow>
          if \<not> haveId \<or> raftAddrs cfg = [] \<or> dataDir cfg = []
             \<or> length (raftAddrs cfg) \<noteq> length (clientAddrs cfg)
             \<or> unat (cfg_id cfg) \<ge> length (raftAddrs cfg)
          then None else Some cfg)"

text \<open>\<^verbatim>\<open>main\<close> up to \<^verbatim>\<open>run\<close>: the exit status, or the node that starts to serve.\<close>

definition main_server :: "(string \<Rightarrow> Storage option) \<Rightarrow> (u16 \<Rightarrow> bool) \<Rightarrow> clock \<Rightarrow> string list \<Rightarrow> int + (RaftNode \<times> Server)" where
  "main_server load listens ck args =
     (case main_config args of
        None \<Rightarrow> Inl 2
      | Some cfg \<Rightarrow>
          let server = Server_new cfg in
          case Server_init (load (dataDir cfg)) listens server of
            None \<Rightarrow> Inl 1
          | Some n \<Rightarrow> Inr (Server_run ck n, server))"

text \<open>The handler of \<^verbatim>\<open>SIGINT\<close> and \<^verbatim>\<open>SIGTERM\<close>; the argument is \<^verbatim>\<open>g_server\<close>.\<close>

definition onSignal :: "(RaftNode \<times> Server) option \<Rightarrow> (RaftNode \<times> Server) option" where
  "onSignal g_server = map_option (\<lambda>(n, sv). let (raft, sv) = Server_stop (Some n) sv in (the raft, sv)) g_server"

section \<open>The client\<close>

definition kMaxRedirects :: nat where
  "kMaxRedirects = 8"

record Connection =
  cn_fd :: int
  cn_buffer :: string
  cn_addr :: Address

text \<open>
  \<open>dials\<close>, \<open>txs\<close> and \<open>rxs\<close> are what the next calls return; \<open>dialed\<close>, \<open>opened\<close>, \<open>closed\<close> and \<open>lines\<close> record the addresses
  that were tried, the descriptors obtained and closed, and the lines that were sent, with their descriptors.
\<close>

record World =
  dials :: "int list"
  txs :: "tx list"
  rxs :: "rx list"
  dialed :: "Address list"
  opened :: "int list"
  closed :: "int list"
  lines :: "(int \<times> string) list"

definition dial :: "Address \<Rightarrow> World \<Rightarrow> int \<times> World" where
  "dial a w =
     (let fd = (case dials w of [] \<Rightarrow> -1 | fd # _ \<Rightarrow> fd) in
      (fd, w\<lparr>dials := tl (dials w), dialed := dialed w @ [a], opened := opened w @ (if fd \<ge> 0 then [fd] else [])\<rparr>))"

definition hang_up :: "Connection \<Rightarrow> World \<Rightarrow> World" where
  "hang_up c w = w\<lparr>closed := closed w @ [cn_fd c]\<rparr>"

fun connect_loop :: "Address list \<Rightarrow> nat \<Rightarrow> nat list \<Rightarrow> World \<Rightarrow> Connection option \<times> World" where
  "connect_loop servers preferred [] w = (None, w)"
| "connect_loop servers preferred (i # is) w =
     (let addr = servers ! ((preferred + i) mod length servers); (fd, w) = dial addr w in
      if fd \<ge> 0 then (Some \<lparr>cn_fd = fd, cn_buffer = [], cn_addr = addr\<rparr>, w)
      else connect_loop servers preferred is w)"

definition connectAny :: "Address list \<Rightarrow> nat \<Rightarrow> World \<Rightarrow> Connection option \<times> World" where
  "connectAny servers preferred w = connect_loop servers preferred [0..<length servers] w"

text \<open>The first argument is the number of attempts that are left.\<close>

fun request_loop ::
    "nat \<Rightarrow> Address list \<Rightarrow> Connection option \<Rightarrow> string \<Rightarrow> World \<Rightarrow> string option \<times> Connection option \<times> World" where
  "request_loop 0 servers conn line w = (None, conn, w)"
| "request_loop (Suc left) servers conn line w =
     (case (case conn of None \<Rightarrow> connectAny servers 0 w | Some c \<Rightarrow> (Some c, w)) of
        (None, w) \<Rightarrow> (None, None, w)
      | (Some c, w) \<Rightarrow>
          let (ok, _, ts) = sendLine line (txs w);
              w = w\<lparr>txs := ts, lines := lines w @ [(cn_fd c, line)]\<rparr>
          in if \<not> ok then request_loop left servers None line (hang_up c w)
             else
               let (reply, buffer, es) = recvLine (cn_buffer c) (rxs w);
                   c = c\<lparr>cn_buffer := buffer\<rparr>;
                   w = w\<lparr>rxs := es\<rparr>
               in case reply of
                    None \<Rightarrow> request_loop left servers None line (hang_up c w)
                  | Some reply \<Rightarrow>
                      if take 9 reply = ''REDIRECT '' then
                        (let w = hang_up c w in
                         case Address_parse (drop 9 reply) of
                           None \<Rightarrow> request_loop left servers None line w
                         | Some target \<Rightarrow>
                             let (fd, w) = dial target w in
                             request_loop left servers
                               (if fd \<ge> 0 then Some \<lparr>cn_fd = fd, cn_buffer = [], cn_addr = target\<rparr> else None) line w)
                      else (Some reply, Some c, w))"

definition request :: "Address list \<Rightarrow> Connection option \<Rightarrow> string \<Rightarrow> World \<Rightarrow> string option \<times> Connection option \<times> World" where
  "request servers conn line w = request_loop kMaxRedirects servers conn line w"

text \<open>
  \<^verbatim>\<open>main\<close>: the exit status and the lines it prints. With no command on the command line it reads the lines
  \<open>input\<close>.
\<close>

fun join :: "char \<Rightarrow> string list \<Rightarrow> string" where
  "join c [] = []"
| "join c [s] = s"
| "join c (s # ss) = s @ c # join c ss"

fun client_loop :: "Address list \<Rightarrow> Connection option \<Rightarrow> string list \<Rightarrow> World \<Rightarrow> string list \<times> World" where
  "client_loop servers conn [] w = ([], case conn of None \<Rightarrow> w | Some c \<Rightarrow> hang_up c w)"
| "client_loop servers conn (line # input) w =
     (if line = [] then client_loop servers conn input w
      else if line = ''QUIT'' \<or> line = ''quit'' \<or> line = ''exit'' then ([], case conn of None \<Rightarrow> w | Some c \<Rightarrow> hang_up c w)
      else case request servers conn line w of
        (None, conn, w) \<Rightarrow> client_loop servers conn input w
      | (Some reply, conn, w) \<Rightarrow> let (out, w) = client_loop servers conn input w in (reply # out, w))"

definition main_client :: "string list \<Rightarrow> string list \<Rightarrow> World \<Rightarrow> int \<times> string list \<times> World" where
  "main_client args input w =
     (case args of
        [] \<Rightarrow> (2, [], w)
      | csv # words \<Rightarrow>
          let servers = parseServers csv in
          if servers = [] then (2, [], w)
          else if words \<noteq> [] then
            (case request servers None (join (CHR '' '') words) w of
               (None, conn, w) \<Rightarrow> (1, [], w)
             | (Some reply, conn, w) \<Rightarrow> (if take 5 reply = ''ERROR'' then 1 else 0, [reply], w))
          else let (out, w) = client_loop servers None input w in (0, out, w))"

section \<open>Configurations\<close>

text \<open>The parts of a string between separators.\<close>

fun split_on :: "char \<Rightarrow> string \<Rightarrow> string list" where
  "split_on c [] = [[]]"
| "split_on c (x # s) = (if x = c then [] # split_on c s else (x # hd (split_on c s)) # tl (split_on c s))"

definition addresses :: "string list \<Rightarrow> Address list option" where
  "addresses items = those (map Address_parse (filter (\<lambda>w. w \<noteq> []) items))"

lemma split_on_first:
  "split_on c s = takeWhile (\<lambda>x. x \<noteq> c) s #
     (if c \<in> set s then split_on c (drop (length (takeWhile (\<lambda>x. x \<noteq> c) s) + 1) s) else [])"
  by (induction s) auto

lemma split_on_none: "c \<notin> set s \<Longrightarrow> split_on c s = [s]"
  by (induction s) auto

lemma take_takeWhile_length: "take (length (takeWhile P s)) s = takeWhile P s"
  by (induction s) auto

lemma length_takeWhile_mem: "length (takeWhile (\<lambda>x. x \<noteq> c) s) < length s \<longleftrightarrow> c \<in> set s"
  by (induction s) auto

lemma parseAddrList_loop_split:
  assumes "pos \<le> length csv"
  shows "parseAddrList_loop csv pos out
    = (case addresses (split_on (CHR '','') (drop pos csv)) of None \<Rightarrow> [] | Some as \<Rightarrow> out @ as)"
  using assms
proof (induction "length csv - pos" arbitrary: pos out rule: less_induct)
  case less
  let ?c = "CHR '',''" and ?rem = "drop pos csv"
  let ?item = "takeWhile (\<lambda>x. x \<noteq> ?c) ?rem"
  show ?case
  proof (cases "?c \<in> set ?rem")
    case False
    then have none: "find_from ?c csv pos = None" "split_on ?c ?rem = [?rem]"
      by (simp_all add: find_from_def Let_def length_takeWhile_mem split_on_none)
    have "parseAddrList_loop csv pos out = (case (if ?rem \<noteq> [] then map_option (\<lambda>addr. out @ [addr]) (Address_parse ?rem)
        else Some out) of None \<Rightarrow> [] | Some out \<Rightarrow> out)"
      using less.prems none(1) by (subst parseAddrList_loop.simps) (simp add: Let_def split: option.split)
    then show ?thesis
      unfolding none(2) addresses_def by (simp split: option.split)
  next
    case True
    let ?i = "pos + length ?item"
    have find: "find_from ?c csv pos = Some ?i"
      using True by (simp add: find_from_def Let_def length_takeWhile_mem)
    have "?i < length csv"
      using find_from_ge [OF find] by simp
    then have i: "\<not> length csv < pos" "Suc ?i \<le> length csv"
      by simp_all
    have item: "take (?i - pos) ?rem = ?item"
      by (simp add: take_takeWhile_length)
    have IH: "parseAddrList_loop csv (?i + 1) out'
        = (case addresses (split_on ?c (drop (?i + 1) csv)) of None \<Rightarrow> [] | Some as \<Rightarrow> out' @ as)" for out'
      using less.prems i(2) by (intro less.hyps) simp_all
    have rest: "split_on ?c ?rem = ?item # split_on ?c (drop (?i + 1) csv)"
      using True by (subst split_on_first) (simp add: add.commute)
    show ?thesis
      using i(1) find item IH
      by (subst parseAddrList_loop.simps) (auto simp: rest addresses_def split: option.splits if_splits)
  qed
qed

lemma parseAddrList_split:
  "parseAddrList csv = (case addresses (split_on (CHR '','') csv) of None \<Rightarrow> [] | Some as \<Rightarrow> as)"
  by (simp add: parseAddrList_def parseAddrList_loop_split split: option.split)

lemma split_on_join:
  "ss \<noteq> [] \<Longrightarrow> list_all (\<lambda>s. c \<notin> set s) ss \<Longrightarrow> split_on c (join c ss) = ss"
proof (induction c ss rule: join.induct)
  case (3 c s s' ss)
  have "split_on c (s @ c # t) = s # split_on c t" if "c \<notin> set s" for t
    using that by (induction s) auto
  with 3 show ?case by simp
qed (auto intro: split_on_none)

definition addr_ok :: "Address \<Rightarrow> bool" where
  "addr_ok a \<longleftrightarrow> host a \<noteq> [] \<and> port a \<noteq> 0"

lemma those_map_Some: "list_all (\<lambda>x. f (g x) = Some x) xs \<Longrightarrow> those (map f (map g xs)) = Some xs"
  by (induction xs) auto

lemma those_list_all: "those xs = Some ys \<Longrightarrow> list_all (\<lambda>x. \<forall>y. x = Some y \<longrightarrow> P y) xs \<Longrightarrow> list_all P ys"
  by (induction xs arbitrary: ys) (auto split: option.splits)

lemma Address_str_nonempty: "Address_str a \<noteq> []"
  by (simp add: Address_str_def)

lemma comma_not_digit: "list_all digit s \<Longrightarrow> CHR '','' \<notin> set s"
  by (auto simp: list_all_iff digit_def)

lemma parseAddrList_join:
  assumes "as \<noteq> []" "list_all addr_ok as" "list_all (\<lambda>a. CHR '','' \<notin> set (host a)) as"
  shows "parseAddrList (join (CHR '','') (map Address_str as)) = as"
proof -
  have "list_all (\<lambda>s. CHR '','' \<notin> set s) (map Address_str as)"
    using assms(3) comma_not_digit to_string_spec by (auto simp: list_all_iff Address_str_def)
  then have "split_on (CHR '','') (join (CHR '','') (map Address_str as)) = map Address_str as"
    using assms(1) by (intro split_on_join) simp_all
  moreover have "filter (\<lambda>w. w \<noteq> []) (map Address_str as) = map Address_str as"
    by (simp add: filter_id_conv Address_str_nonempty)
  moreover have "those (map Address_parse (map Address_str as)) = Some as"
    using assms(2) by (intro those_map_Some) (auto simp: list_all_iff addr_ok_def Address_parse_str)
  ultimately show ?thesis
    by (simp add: parseAddrList_split addresses_def)
qed

lemma parseAddrList_ok: "list_all addr_ok (parseAddrList csv)"
proof (cases "addresses (split_on (CHR '','') csv)")
  case (Some as)
  then have "list_all addr_ok as"
    unfolding addresses_def by (rule those_list_all) (auto simp: list_all_iff addr_ok_def Address_parse_spec)
  with Some show ?thesis by (simp add: parseAddrList_split)
qed (simp add: parseAddrList_split)

lemma takeWhile_digits: "list_all digit s \<Longrightarrow> takeWhile digit s = s"
  by (induction s) auto

lemma signed_digits_to_string: "signed_digits (to_string n) = (False, n)"
proof -
  obtain d s where ds: "to_string n = d # s" "list_all digit (d # s)" "decimal 0 (d # s) = n"
    using to_string_spec [of n] by (cases "to_string n") auto
  then have "\<not> isspace d" "d \<noteq> CHR ''-''" "d \<noteq> CHR ''+''"
    by (auto simp: isspace_def digit_def)
  with ds show ?thesis
    by (simp add: signed_digits_def Let_def takeWhile_digits)
qed

lemma strtol_to_string_int:
  assumes "- (2 ^ 63) \<le> i" "i < 2 ^ 63"
  shows "strtol (to_string_int i) = i"
proof (cases "i < 0")
  case True
  have "signed_digits (to_string_int i) = (True, nat (- i))"
    using True to_string_spec [of "nat (- i)"]
    by (simp add: signed_digits_def to_string_int_def isspace_def Let_def takeWhile_digits)
  with True assms show ?thesis by (simp add: strtol_def)
next
  case False
  with assms show ?thesis
    by (simp add: strtol_def to_string_int_def signed_digits_to_string)
qed

definition config_ok :: "NodeConfig \<Rightarrow> bool" where
  "config_ok cfg \<longleftrightarrow> raftAddrs cfg \<noteq> [] \<and> length (clientAddrs cfg) = length (raftAddrs cfg)
     \<and> unat (cfg_id cfg) < length (raftAddrs cfg) \<and> dataDir cfg \<noteq> []
     \<and> list_all addr_ok (raftAddrs cfg) \<and> list_all addr_ok (clientAddrs cfg)"

definition long :: "int \<Rightarrow> bool" where
  "long i \<longleftrightarrow> - (2 ^ 63) \<le> i \<and> i < 2 ^ 63"

definition writable :: "NodeConfig \<Rightarrow> bool" where
  "writable cfg \<longleftrightarrow> list_all (\<lambda>a. CHR '','' \<notin> set (host a)) (raftAddrs cfg @ clientAddrs cfg)
     \<and> long (heartbeatInterval (cfg_raft cfg)) \<and> long (electionTimeoutMin (cfg_raft cfg))
     \<and> long (electionTimeoutMax (cfg_raft cfg)) \<and> tickInterval (cfg_raft cfg) = 15"

definition command_line :: "NodeConfig \<Rightarrow> string list" where
  "command_line cfg =
     [''--id'', to_string (unat (cfg_id cfg)),
      ''--raft-peers'', join (CHR '','') (map Address_str (raftAddrs cfg)),
      ''--client-peers'', join (CHR '','') (map Address_str (clientAddrs cfg)),
      ''--data-dir'', dataDir cfg,
      ''--heartbeat-ms'', to_string_int (heartbeatInterval (cfg_raft cfg)),
      ''--election-min-ms'', to_string_int (electionTimeoutMin (cfg_raft cfg)),
      ''--election-max-ms'', to_string_int (electionTimeoutMax (cfg_raft cfg))]"

definition addrs_ok :: "NodeConfig \<Rightarrow> bool" where
  "addrs_ok cfg \<longleftrightarrow> list_all addr_ok (raftAddrs cfg) \<and> list_all addr_ok (clientAddrs cfg)"

lemma addrs_ok_updates:
  "addrs_ok cfg \<Longrightarrow> addrs_ok (cfg\<lparr>cfg_id := i\<rparr>)" "addrs_ok cfg \<Longrightarrow> addrs_ok (cfg\<lparr>dataDir := d\<rparr>)"
  "addrs_ok cfg \<Longrightarrow> addrs_ok (cfg\<lparr>cfg_raft := r\<rparr>)" "addrs_ok cfg \<Longrightarrow> addrs_ok (cfg\<lparr>raftAddrs := parseAddrList s\<rparr>)"
  "addrs_ok cfg \<Longrightarrow> addrs_ok (cfg\<lparr>clientAddrs := parseAddrList s\<rparr>)"
  by (simp_all add: addrs_ok_def parseAddrList_ok)

lemma main_args_step:
  assumes "main_args (arg # nxt # args) cfg haveId = Some r" "addrs_ok cfg"
  obtains cfg2 haveId2 where "main_args args cfg2 haveId2 = Some r" "addrs_ok cfg2"
  using assms(1) that addrs_ok_updates [OF assms(2)] unfolding main_args.simps
  by (simp only: split: if_split_asm; blast)

lemma main_args_ok:
  assumes "main_args args cfg haveId = Some (cfg', haveId')" "addrs_ok cfg"
  shows "addrs_ok cfg'"
  using assms
proof (induction "length args" arbitrary: args cfg haveId rule: less_induct)
  case less
  show ?case
  proof (cases "(args, cfg, haveId)" rule: main_args.cases)
    case (3 arg nxt rem cfg haveId)
    with less.prems have "main_args (arg # nxt # rem) cfg haveId = Some (cfg', haveId')" "addrs_ok cfg"
      by (simp_all del: main_args.simps)
    then obtain cfg2 haveId2 where "main_args rem cfg2 haveId2 = Some (cfg', haveId')" "addrs_ok cfg2"
      by (rule main_args_step)
    then show ?thesis
      using 3 by (intro less.hyps) auto
  qed (use less.prems in auto)
qed

lemma main_config_ok:
  assumes "main_config args = Some cfg"
  shows "config_ok cfg"
proof -
  obtain haveId where "main_args args NodeConfig_new False = Some (cfg, haveId)"
    using assms by (auto simp: main_config_def split: option.splits if_splits)
  from main_args_ok [OF this] assms show ?thesis
    by (auto simp: main_config_def config_ok_def addrs_ok_def NodeConfig_new_def split: option.splits prod.splits if_splits)
qed

lemma id_roundtrip: "ucast (strtoul (to_string (unat (w :: u32)))) = w"
proof -
  have "unat w < 2 ^ LENGTH(32)"
    by (rule unsigned_less)
  then have "unat w < 2 ^ 64"
    by (rule less_le_trans) simp
  then show ?thesis
    by (simp add: strtoul_def signed_digits_to_string of_nat_unat) (rule bit_word_eqI, simp add: bit_simps)
qed

lemma main_config_command_line:
  assumes "config_ok cfg" "writable cfg"
  shows "main_config (command_line cfg) = Some cfg"
proof -
  have "parseAddrList (join (CHR '','') (map Address_str (raftAddrs cfg))) = raftAddrs cfg"
      "parseAddrList (join (CHR '','') (map Address_str (clientAddrs cfg))) = clientAddrs cfg"
    using assms by (intro parseAddrList_join; auto simp: config_ok_def writable_def)+
  then have "main_args (command_line cfg) NodeConfig_new False = Some (cfg, True)"
    using assms(2) by (cases cfg, cases "cfg_raft cfg")
      (simp add: command_line_def writable_def long_def id_roundtrip strtol_to_string_int NodeConfig_new_def)
  then show ?thesis
    using assms(1) by (auto simp: main_config_def config_ok_def)
qed

text \<open>
  C38: the command line. A configuration that \<^verbatim>\<open>main\<close> accepts gives every node one address of each kind,
  with a host and a port, has the node's own id among them and a data directory, so that every access to
  the address vectors by an id is in range; and every such configuration that is \<^term>\<open>writable\<close> (no
  comma in a host, times within \<^verbatim>\<open>long\<close>, the default tick interval) has a command line that \<^verbatim>\<open>main\<close> turns
  into exactly it.
\<close>

theorem command_line_roundtrip:
  "(main_config args = Some cfg \<longrightarrow> config_ok cfg)
   \<and> (config_ok cfg' \<and> writable cfg' \<longrightarrow> main_config (command_line cfg') = Some cfg')"
  using main_config_ok main_config_command_line by blast

theorem command_line_roundtrip_witness:
  "main_config [''--id'', ''1'', ''--raft-peers'', ''a:71,b:72'', ''--client-peers'', ''a:61,b:62'', ''--data-dir'', ''d'',
     ''--heartbeat-ms'', ''75'', ''--election-min-ms'', ''300'', ''--election-max-ms'', ''600'']
   = Some \<lparr>cfg_id = 1, raftAddrs = [\<lparr>host = ''a'', port = 71\<rparr>, \<lparr>host = ''b'', port = 72\<rparr>],
       clientAddrs = [\<lparr>host = ''a'', port = 61\<rparr>, \<lparr>host = ''b'', port = 62\<rparr>], dataDir = ''d'',
       cfg_raft = cfg_raft NodeConfig_new\<rparr>"
proof -
  let ?cfg = "\<lparr>cfg_id = 1, raftAddrs = [\<lparr>host = ''a'', port = 71\<rparr>, \<lparr>host = ''b'', port = 72\<rparr>],
       clientAddrs = [\<lparr>host = ''a'', port = 61\<rparr>, \<lparr>host = ''b'', port = 62\<rparr>], dataDir = ''d'',
       cfg_raft = cfg_raft NodeConfig_new\<rparr>"
  have ok: "config_ok ?cfg \<and> writable ?cfg"
    by (simp add: config_ok_def writable_def addr_ok_def long_def NodeConfig_new_def)
  have "command_line ?cfg = [''--id'', ''1'', ''--raft-peers'', ''a:71,b:72'', ''--client-peers'', ''a:61,b:62'', ''--data-dir'', ''d'',
     ''--heartbeat-ms'', ''75'', ''--election-min-ms'', ''300'', ''--election-max-ms'', ''600'']"
    by (simp add: command_line_def Address_str_def to_string.simps to_string_int_def NodeConfig_new_def char_of_eq_iff)
  then show ?thesis
    using command_line_roundtrip [of "[]" ?cfg ?cfg] ok by simp
qed

section \<open>Requests of the client\<close>

definition held :: "Connection option \<Rightarrow> int list" where
  "held conn = (case conn of None \<Rightarrow> [] | Some c \<Rightarrow> [cn_fd c])"

lemma held_simps [simp]: "held None = []" "held (Some c) = [cn_fd c]"
  by (simp_all add: held_def)

text \<open>
  What a part of a request does: the descriptors it opened are those it closed or holds, besides the one it
  started with; and it sent the line \<open>k\<close> times.
\<close>

definition accounts :: "nat \<Rightarrow> string \<Rightarrow> Connection option \<Rightarrow> World \<Rightarrow> Connection option \<Rightarrow> World \<Rightarrow> bool" where
  "accounts k line conn w conn' w' \<longleftrightarrow>
     mset (opened w') + mset (held conn) + mset (closed w) = mset (opened w) + mset (held conn') + mset (closed w')
     \<and> map snd (lines w') = map snd (lines w) @ replicate k line"

lemma accounts_refl: "accounts 0 line conn w conn w"
  by (simp add: accounts_def)

lemma accounts_trans:
  assumes "accounts j line a u b v" "accounts k line b v c w"
  shows "accounts (j + k) line a u c w"
proof -
  have eqs: "mset (opened w) + mset (held b) + mset (closed v) = mset (opened v) + mset (held c) + mset (closed w)"
      "mset (opened v) + mset (held a) + mset (closed u) = mset (opened u) + mset (held b) + mset (closed v)"
    using assms by (simp_all add: accounts_def)
  have "mset (opened w) + mset (held a) + mset (closed u) = mset (opened u) + mset (held c) + mset (closed w)"
  proof (rule multiset_eqI)
    fix x
    show "count (mset (opened w) + mset (held a) + mset (closed u)) x
        = count (mset (opened u) + mset (held c) + mset (closed w)) x"
      using eqs [THEN arg_cong, of "\<lambda>M. count M x"] unfolding count_union by linarith
  qed
  then show ?thesis
    using assms by (simp add: accounts_def replicate_add)
qed

lemma dial_accounts:
  "dial a w = (fd, w')
   \<Longrightarrow> accounts 0 line None w (if fd \<ge> 0 then Some \<lparr>cn_fd = fd, cn_buffer = b, cn_addr = a\<rparr> else None) w'"
  by (auto simp: accounts_def dial_def Let_def)

lemma hang_up_accounts: "accounts 0 line (Some c) w None (hang_up c w)"
  by (simp add: accounts_def hang_up_def)

lemma connectAny_accounts: "accounts 0 line None w (fst (connectAny servers p w)) (snd (connectAny servers p w))"
proof -
  have "accounts 0 line None w (fst (connect_loop servers p is w)) (snd (connect_loop servers p is w))" for "is"
  proof (induction "is" arbitrary: w)
    case (Cons i "is")
    let ?a = "servers ! ((p + i) mod length servers)"
    obtain fd w1 where d: "dial ?a w = (fd, w1)"
      by (cases "dial ?a w")
    show ?case
    proof (cases "fd \<ge> 0")
      case True
      with d show ?thesis
        using dial_accounts [OF d, of line "[]"] by simp
    next
      case False
      have "accounts 0 line None w None w1"
        using dial_accounts [OF d, of line "[]"] False by simp
      from accounts_trans [OF this Cons.IH] False d show ?thesis by simp
    qed
  qed (simp add: accounts_refl)
  then show ?thesis by (simp add: connectAny_def)
qed

text \<open>One attempt: the cluster is unreachable, or there is an answer, or the next attempt follows.\<close>

lemma sent_accounts:
  "accounts 1 line (Some c) w (Some (c\<lparr>cn_buffer := b\<rparr>)) (w\<lparr>txs := ts, lines := lines w @ [(cn_fd c, line)], rxs := es\<rparr>)"
  "accounts 1 line (Some c) w (Some c) (w\<lparr>txs := ts, lines := lines w @ [(cn_fd c, line)]\<rparr>)"
  by (simp_all add: accounts_def)

lemma attempt_cases:
  assumes "request_loop (Suc left) servers conn line w = (res, conn', w')"
  obtains (unreachable) "res = None" "accounts 0 line conn w conn' w'"
  | (answered) reply where "res = Some reply" "take 9 reply \<noteq> ''REDIRECT ''" "accounts 1 line conn w conn' w'"
  | (again) conn1 w1 where "accounts 1 line conn w conn1 w1" "request_loop left servers conn1 line w1 = (res, conn', w')"
proof -
  obtain co w0 where co: "(case conn of None \<Rightarrow> connectAny servers 0 w | Some c \<Rightarrow> (Some c, w)) = (co, w0)"
    by fastforce
  have ac0: "accounts 0 line conn w co w0"
    using co connectAny_accounts [of line w servers 0] by (cases conn) (auto simp: accounts_refl)
  note eq = assms [unfolded request_loop.simps co]
  show thesis
  proof (cases co)
    case None
    with eq ac0 show thesis by (intro unreachable) auto
  next
    case (Some c)
    note one = accounts_trans [OF ac0 [unfolded Some]]
    obtain ok x ts where send: "sendLine line (txs w0) = (ok, x, ts)"
      using prod_cases3 by blast
    let ?w1 = "w0\<lparr>txs := ts, lines := lines w0 @ [(cn_fd c, line)]\<rparr>"
    obtain reply b es where recv: "recvLine (cn_buffer c) (rxs w0) = (reply, b, es)"
      using prod_cases3 by blast
    let ?c = "c\<lparr>cn_buffer := b\<rparr>" and ?w2 = "?w1\<lparr>rxs := es\<rparr>"
    note two = one [OF sent_accounts(1) [where b = b and ts = ts and es = es]]
    note hung = accounts_trans [OF two hang_up_accounts]
    consider (unsent) "\<not> ok" | (lost) "ok" "reply = None"
      | (target) r where "ok" "reply = Some r" "take 9 r = ''REDIRECT ''"
      | (reply) r where "ok" "reply = Some r" "take 9 r \<noteq> ''REDIRECT ''"
      by blast
    then show thesis
    proof cases
      case unsent
      with eq Some send show thesis
        using accounts_trans [OF one [OF sent_accounts(2) [where ts = ts]] hang_up_accounts] by (intro again) auto
    next
      case lost
      with eq Some send recv hung show thesis by (intro again) auto
    next
      case (target r)
      show thesis
      proof (cases "Address_parse (drop 9 r)")
        case None
        with eq Some send recv hung target show thesis by (intro again) auto
      next
        case (Some a)
        obtain fd w3 where d: "dial a (hang_up ?c ?w2) = (fd, w3)"
          by (cases "dial a (hang_up ?c ?w2)")
        let ?co = "if fd \<ge> 0 then Some \<lparr>cn_fd = fd, cn_buffer = [], cn_addr = a\<rparr> else None"
        have "accounts 1 line conn w ?co w3"
          using accounts_trans [OF hung dial_accounts [OF d, of line "[]"]] by simp
        moreover have "request_loop left servers ?co line w3 = (res, conn', w')"
          using eq \<open>co = Some c\<close> send recv target Some d by simp
        ultimately show thesis by (rule again)
      qed
    next
      case (reply r)
      with eq Some send recv two show thesis by (intro answered) auto
    qed
  qed
qed

lemma request_loop_accounts:
  assumes "request_loop n servers conn line w = (res, conn', w')"
  shows "(\<exists>k\<le>n. accounts k line conn w conn' w') \<and> (\<forall>reply. res = Some reply \<longrightarrow> take 9 reply \<noteq> ''REDIRECT '')"
  using assms
proof (induction n arbitrary: conn w)
  case 0
  then show ?case by (auto simp: accounts_refl)
next
  case (Suc n)
  from Suc.prems show ?case
  proof (cases rule: attempt_cases)
    case (again conn1 w1)
    obtain k where "k \<le> n" "accounts k line conn1 w1 conn' w'"
      using Suc.IH [OF again(2)] by blast
    with accounts_trans [OF again(1)] have "1 + k \<le> Suc n" "accounts (1 + k) line conn w conn' w'"
      by auto
    with Suc.IH [OF again(2)] show ?thesis by blast
  next
    case (answered reply)
    then have "1 \<le> Suc n" "accounts 1 line conn w conn' w'" by simp_all
    with answered(1,2) show ?thesis by auto
  qed auto
qed

text \<open>
  C36: a request of the client. It sends its line at most \<^verbatim>\<open>kMaxRedirects\<close> times, never returns a redirect as the
  answer, and leaks no connection: the descriptors it opened, and the one it started with, are those it
  closed and the one it still holds, each once.
\<close>

theorem request_accounts:
  assumes "request servers conn line w = (res, conn', w')"
  shows "(\<forall>reply. res = Some reply \<longrightarrow> take 9 reply \<noteq> ''REDIRECT '')
    \<and> (\<exists>k\<le>8. map snd (lines w') = map snd (lines w) @ replicate k line)
    \<and> mset (opened w') + mset (held conn) + mset (closed w) = mset (opened w) + mset (held conn') + mset (closed w')"
  using request_loop_accounts [OF assms [unfolded request_def]] by (auto simp: accounts_def kMaxRedirects_def)

text \<open>A client that is redirected once.\<close>

definition world0 :: World where
  "world0 = \<lparr>dials = [5, 6], txs = [Sent 20, Sent 20],
     rxs = [Avail (''REDIRECT b:62'' @ [CHR 0x0A]), Avail (''PONG'' @ [CHR 0x0A])],
     dialed = [], opened = [], closed = [], lines = []\<rparr>"

lemma redirected_run:
  "request [\<lparr>host = ''a'', port = 61\<rparr>] None ''PING'' world0
   = (Some ''PONG'', Some \<lparr>cn_fd = 6, cn_buffer = [], cn_addr = \<lparr>host = ''b'', port = 62\<rparr>\<rparr>,
      world0\<lparr>dials := [], txs := [], rxs := [], dialed := [\<lparr>host = ''a'', port = 61\<rparr>, \<lparr>host = ''b'', port = 62\<rparr>],
        opened := [5, 6], closed := [5], lines := [(5, ''PING''), (6, ''PING'')]\<rparr>)"
proof -
  have "Address_str \<lparr>host = ''b'', port = 62\<rparr> = ''b:62''"
    by (simp add: Address_str_def to_string.simps char_of_eq_iff)
  then have "Address_parse ''b:62'' = Some \<lparr>host = ''b'', port = 62\<rparr>"
    using Address_parse_str [of "\<lparr>host = ''b'', port = 62\<rparr>"] by simp
  moreover have "recvLine [] (Avail (''REDIRECT b:62'' @ [CHR 0x0A]) # es) = (Some ''REDIRECT b:62'', [], es)"
      "recvLine [] (Avail (''PONG'' @ [CHR 0x0A]) # es) = (Some ''PONG'', [], es)" for es
    by (subst recvLine.simps, simp add: left_over_def kMaxFrameBytes_nat, subst recvLine.simps, simp)+
  moreover have "sendLine ''PING'' (Sent 20 # ts) = (True, ''PING'' @ [CHR 0x0A], ts)" for ts
    by (simp add: sendLine_def)
  moreover obtain n where n: "kMaxRedirects = Suc (Suc n)"
    using Suc_diff_Suc [of 0 8] Suc_diff_Suc [of 1 8] by (auto simp: kMaxRedirects_def)
  ultimately show ?thesis
    unfolding request_def n by (simp add: world0_def connectAny_def dial_def hang_up_def Let_def)
qed

theorem request_accounts_witness:
  "\<exists>conn w. request [\<lparr>host = ''a'', port = 61\<rparr>] None ''PING'' world0 = (Some ''PONG'', conn, w)
     \<and> mset (opened w) = mset (held conn) + mset (closed w)"
proof -
  let ?conn = "Some \<lparr>cn_fd = 6, cn_buffer = [], cn_addr = \<lparr>host = ''b'', port = 62\<rparr>\<rparr>"
  obtain w where w: "request [\<lparr>host = ''a'', port = 61\<rparr>] None ''PING'' world0 = (Some ''PONG'', ?conn, w)"
    using redirected_run by blast
  have "opened world0 = []" "closed world0 = []"
    by (simp_all add: world0_def)
  then have "mset (opened w) = mset (held ?conn) + mset (closed w)"
    using request_accounts [OF w] by simp
  with w show ?thesis by blast
qed

text \<open>
  A reply that is lost makes the client send the command again on a new connection: here a \<^verbatim>\<open>DEL\<close> that was
  executed and whose answer did not arrive in time is sent twice, and the answer is that of the second.
\<close>

lemma lost_reply_sent_again:
  "request [\<lparr>host = ''a'', port = 61\<rparr>] None ''DEL a''
     \<lparr>dials = [5, 6], txs = [Sent 20, Sent 20], rxs = [NotReady, Avail (''NOT_FOUND'' @ [CHR 0x0A])],
      dialed = [], opened = [], closed = [], lines = []\<rparr>
   = (Some ''NOT_FOUND'', Some \<lparr>cn_fd = 6, cn_buffer = [], cn_addr = \<lparr>host = ''a'', port = 61\<rparr>\<rparr>,
      \<lparr>dials = [], txs = [], rxs = [], dialed = [\<lparr>host = ''a'', port = 61\<rparr>, \<lparr>host = ''a'', port = 61\<rparr>],
       opened = [5, 6], closed = [5], lines = [(5, ''DEL a''), (6, ''DEL a'')]\<rparr>)"
proof -
  have "recvLine [] (Avail (''NOT_FOUND'' @ [CHR 0x0A]) # es) = (Some ''NOT_FOUND'', [], es)" for es
    by (subst recvLine.simps, simp add: left_over_def kMaxFrameBytes_nat, subst recvLine.simps, simp)
  moreover have "recvLine [] (NotReady # es) = (None, [], es)" for es
    by (simp add: recvLine.simps)
  moreover have "sendLine ''DEL a'' (Sent 20 # ts) = (True, ''DEL a'' @ [CHR 0x0A], ts)" for ts
    by (simp add: sendLine_def)
  moreover obtain n where n: "kMaxRedirects = Suc (Suc n)"
    using Suc_diff_Suc [of 0 8] Suc_diff_Suc [of 1 8] by (auto simp: kMaxRedirects_def)
  ultimately show ?thesis
    unfolding request_def n by (simp add: connectAny_def dial_def hang_up_def Let_def)
qed

section \<open>Redirects\<close>

lemma Address_str_last: "last (Address_str a) \<noteq> CHR 0x0D"
proof -
  have "to_string (unat (port a)) \<noteq> []" "list_all digit (to_string (unat (port a)))"
    using to_string_spec by blast+
  then have "digit (last (to_string (unat (port a))))"
    by (simp add: list_all_iff)
  then have "last (to_string (unat (port a))) \<noteq> CHR 0x0D"
    by (auto simp: digit_def)
  with \<open>to_string (unat (port a)) \<noteq> []\<close> show ?thesis
    by (simp add: Address_str_def)
qed

lemma to_string_length: "length (to_string k) \<le> Suc k"
proof (induction k rule: to_string.induct)
  case (1 k)
  then show ?case by (cases "k < 10") (simp_all add: to_string.simps [of k])
qed

lemma Address_str_length: "length (Address_str a) \<le> length (host a) + 65537"
proof -
  have "unat (port a) < 2 ^ LENGTH(16)"
    by (rule unsigned_less)
  with to_string_length [of "unat (port a)"] show ?thesis
    by (simp add: Address_str_def)
qed

lemma newline_not_digit: "list_all digit s \<Longrightarrow> CHR 0x0A \<notin> set s"
  by (auto simp: list_all_iff digit_def)

text \<open>
  C31: redirects lead to the leader. When a node that is not the leader, started with a command line that
  \<^verbatim>\<open>main\<close> accepted, answers a command and knows the leader, then a client that receives the answer closes the
  connection and makes its next attempt on the leader's client address, exactly as it stands in the
  configuration.
\<close>

theorem redirect_followed:
  assumes "main_config args = Some (sv_config sv)" "submit (Command_encode cmd) n = (r, n')" "\<not> sr_isLeader r"
    and "0 \<le> sint (sr_leaderHint r)" "sint (sr_leaderHint r) < int (length (clientAddrs (sv_config sv)))"
    and "sint (sr_leaderHint r) \<noteq> sint (cfg_id (sv_config sv))"
    and "a = clientAddrs (sv_config sv) ! nat (sint (sr_leaderHint r))" "CHR 0x0A \<notin> set (host a)" "length (host a) \<le> 1000"
    and "executeCommand others cmd (n, sv) = (reply, ns)" "sendLine reply ts = (True, out, ts')"
    and "sendLine line (txs w) = (True, x, ts1)" "cn_buffer c = []" "delivers (rxs w) (out @ rem)" "dials w = fd # fds"
  shows "\<exists>w'. request_loop (Suc left) servers (Some c) line w
      = request_loop left servers (if fd \<ge> 0 then Some \<lparr>cn_fd = fd, cn_buffer = [], cn_addr = a\<rparr> else None) line w'
    \<and> dialed w' = dialed w @ [a] \<and> dials w' = fds \<and> closed w' = closed w @ [cn_fd c]"
proof -
  have reply: "reply = ''REDIRECT '' @ Address_str a"
    using assms(2-7,10) by (simp add: executeCommand_def executeCommand_submit_def Let_def)
  have "addr_ok a"
    using main_config_ok [OF assms(1)] assms(4,5,7) by (auto simp: config_ok_def list_all_length)
  then have parse: "Address_parse (Address_str a) = Some a"
    by (simp add: Address_parse_str addr_ok_def)
  have "out = reply @ [CHR 0x0A]"
    using writeAll_complete assms(11) by (auto simp: sendLine_def)
  moreover have "CHR 0x0A \<notin> set reply"
    using assms(8) newline_not_digit to_string_spec [of "unat (port a)"] by (auto simp: reply Address_str_def)
  moreover have "length reply + 4096 \<le> 67108864"
    using assms(9) Address_str_length [of a] by (simp add: reply)
  ultimately obtain b es where "recvLine (cn_buffer c) (rxs w) = (Some (strip_cr reply), b, es)"
    using recvLine_complete [of "rxs w" "[]" reply rem] assms(13,14) by (auto simp: delivers_def)
  moreover have "strip_cr reply = reply"
    using Address_str_last [of a] Address_str_nonempty [of a] by (simp add: strip_cr_def reply)
  ultimately show ?thesis
    using assms(12,15) parse
    by (intro exI [of _ "w\<lparr>txs := ts1, lines := lines w @ [(cn_fd c, line)], rxs := es, closed := closed w @ [cn_fd c],
        dials := fds, dialed := dialed w @ [a], opened := opened w @ (if fd \<ge> 0 then [fd] else [])\<rparr>"])
      (simp add: reply dial_def hang_up_def Let_def)
qed

text \<open>A fresh follower that has heard of leader 0, and a client whose next descriptor is 6.\<close>

theorem redirect_followed_witness:
  "\<exists>(w :: World) w'. request_loop 8 [] (Some \<lparr>cn_fd = 5, cn_buffer = [], cn_addr = \<lparr>host = ''b'', port = 62\<rparr>\<rparr>) ''GET a'' w
      = request_loop 7 [] (Some \<lparr>cn_fd = 6, cn_buffer = [], cn_addr = \<lparr>host = ''a'', port = 61\<rparr>\<rparr>) ''GET a'' (w' :: World)
    \<and> dialed w' = [\<lparr>host = ''a'', port = 61\<rparr>]"
proof -
  let ?cfg = "\<lparr>cfg_id = 1, raftAddrs = [\<lparr>host = ''a'', port = 71\<rparr>, \<lparr>host = ''b'', port = 72\<rparr>],
       clientAddrs = [\<lparr>host = ''a'', port = 61\<rparr>, \<lparr>host = ''b'', port = 62\<rparr>], dataDir = ''d'',
       cfg_raft = cfg_raft NodeConfig_new\<rparr>"
  let ?sv = "Server_new ?cfg" and ?cmd = "\<lparr>cmd_op = Get_Op, cmd_key = ''a'', cmd_value = []\<rparr>"
  let ?n = "(RaftNode_new 1 2 fresh_Storage (cfg_raft NodeConfig_new))\<lparr>leaderHint := 0\<rparr>"
  let ?r = "\<lparr>sr_isLeader = False, sr_leaderHint = 0, sr_index = 0, sr_term = 0\<rparr>" and ?a = "\<lparr>host = ''a'', port = 61\<rparr>"
  let ?c = "\<lparr>cn_fd = 5, cn_buffer = [], cn_addr = \<lparr>host = ''b'', port = 62\<rparr>\<rparr>"
  let ?out = "''REDIRECT a:61'' @ [CHR 0x0A]"
  let ?w = "\<lparr>dials = [6], txs = [Sent 20], rxs = [Avail ?out], dialed = [], opened = [5], closed = [], lines = []\<rparr>"
  have str: "Address_str ?a = ''a:61''"
    by (simp add: Address_str_def to_string.simps char_of_eq_iff)
  have accepted: "main_config (command_line ?cfg) = Some (sv_config ?sv)"
    using main_config_command_line [of ?cfg]
    by (simp add: config_ok_def writable_def addr_ok_def long_def NodeConfig_new_def Server_new_def)
  have sub: "submit (Command_encode ?cmd) ?n = (?r, ?n)"
    by (simp add: submit_def RaftNode_new_def)
  have ex: "executeCommand id ?cmd (?n, ?sv) = (''REDIRECT a:61'', (?n, ?sv))"
    by (simp add: executeCommand_def executeCommand_submit_def sub Server_new_def str Let_def)
  have send: "sendLine ''REDIRECT a:61'' [Sent 20] = (True, ?out, [])" "sendLine ''GET a'' (txs ?w) = (True, ''GET a'' @ [CHR 0x0A], [])"
    by (simp_all add: sendLine_def)
  have "delivers (rxs ?w) (?out @ [])"
    by (simp add: delivers_def)
  note run = redirect_followed [OF accepted sub _ _ _ _ _ _ _ ex send(1) send(2) _ this, of ?a ?c 6 "[]" 7 "[]"]
  from run obtain w' where "request_loop (Suc 7) [] (Some ?c) ''GET a'' ?w
      = request_loop 7 [] (Some \<lparr>cn_fd = 6, cn_buffer = [], cn_addr = ?a\<rparr>) ''GET a'' w'" "dialed w' = dialed ?w @ [?a]"
    by (auto simp: Server_new_def)
  then show ?thesis
    by (intro exI [of _ ?w] exI [of _ w']) simp
qed

end
