(* ===== verification/Threads.thy ===== *)
theory Threads
  imports Prelude
begin

text \<open>
  The counting of detached threads, which \<^verbatim>\<open>RaftNode\<close> (\<^verbatim>\<open>spawnDetached\<close>, \<^verbatim>\<open>waitDetachedThreads\<close> of
  \<^verbatim>\<open>src/raft.cpp\<close>) and \<^verbatim>\<open>Server\<close> (the accept loops and the end of \<^verbatim>\<open>run\<close> in \<^verbatim>\<open>src/server.cpp\<close>) do in the same
  way: a thread that ends decrements an atomic counter, and the one that brings it to 0 locks a mutex
  and notifies a condition variable; the owner waits under that mutex for the counter to be 0. Every
  access to the counter, the mutex and the condition variable is a step of its own.
\<close>

section \<open>State and steps\<close>

text \<open>
  A thread runs its function, has brought the counter to 0 and is about to lock, holds the mutex, or is
  over. The owner has not called the wait, is about to test the condition with the mutex held, has
  found it false and still holds the mutex, sleeps, has been woken and needs the mutex, or has returned.
\<close>

datatype phase = Running | Last | Notifying | Over
datatype waiting = Idle | Testing | Dozing | Asleep | Woken | Returned

record Pool =
  inflight :: nat
  threads :: "phase list"
  owner :: waiting

definition mutex_free :: "Pool \<Rightarrow> bool" where
  "mutex_free p \<longleftrightarrow> owner p \<noteq> Testing \<and> owner p \<noteq> Dozing \<and> Notifying \<notin> set (threads p)"

definition spawnDetached :: "Pool \<Rightarrow> Pool" where
  "spawnDetached p = p\<lparr>inflight := inflight p + 1, threads := threads p @ [Running]\<rparr>"

text \<open>
  The accept loops of the server start a thread per connection until \<^verbatim>\<open>tcpAccept\<close>, whose results are the
  argument, fails.
\<close>

fun raftAcceptLoop :: "int list \<Rightarrow> Pool \<Rightarrow> Pool" where
  "raftAcceptLoop [] p = p"
| "raftAcceptLoop (fd # fds) p = (if fd < 0 then p else raftAcceptLoop fds (spawnDetached p))"

fun clientAcceptLoop :: "int list \<Rightarrow> Pool \<Rightarrow> Pool" where
  "clientAcceptLoop [] p = p"
| "clientAcceptLoop (fd # fds) p = (if fd < 0 then p else clientAcceptLoop fds (spawnDetached p))"

text \<open>What a thread does after its function: \<^verbatim>\<open>fetch_sub\<close>; the lock; \<^verbatim>\<open>notify_all\<close> and the unlock.\<close>

definition thread_end :: "nat \<Rightarrow> Pool \<Rightarrow> Pool" where
  "thread_end i p = p\<lparr>inflight := inflight p - 1, threads := (threads p)[i := if inflight p = 1 then Last else Over]\<rparr>"

definition thread_lock :: "nat \<Rightarrow> Pool \<Rightarrow> Pool" where
  "thread_lock i p = p\<lparr>threads := (threads p)[i := Notifying]\<rparr>"

definition thread_notify :: "nat \<Rightarrow> Pool \<Rightarrow> Pool" where
  "thread_notify i p =
     p\<lparr>threads := (threads p)[i := Over], owner := (if owner p = Asleep then Woken else owner p)\<rparr>"

text \<open>
  The wait: the lock; the test of the predicate, after which the owner returns or goes on to sleep;
  the call of \<^verbatim>\<open>wait\<close> on the condition variable, which gives the mutex back and sleeps. Threads take
  steps between the test and the sleep.
\<close>

definition wait_lock :: "Pool \<Rightarrow> Pool" where
  "wait_lock p = p\<lparr>owner := Testing\<rparr>"

definition wait_test :: "Pool \<Rightarrow> Pool" where
  "wait_test p = p\<lparr>owner := (if inflight p = 0 then Returned else Dozing)\<rparr>"

definition wait_sleep :: "Pool \<Rightarrow> Pool" where
  "wait_sleep p = p\<lparr>owner := Asleep\<rparr>"

text \<open>
  New threads start before the owner waits, or from threads that run (a vote sender that wins the
  election starts the replicators). A sleeper may wake up without being notified.
\<close>

inductive pool_step :: "Pool \<Rightarrow> Pool \<Rightarrow> bool" where
  Spawn: "owner p = Idle \<or> Running \<in> set (threads p) \<Longrightarrow> pool_step p (spawnDetached p)"
| End: "i < length (threads p) \<Longrightarrow> threads p ! i = Running \<Longrightarrow> pool_step p (thread_end i p)"
| Lock: "i < length (threads p) \<Longrightarrow> threads p ! i = Last \<Longrightarrow> mutex_free p \<Longrightarrow> pool_step p (thread_lock i p)"
| Notify: "i < length (threads p) \<Longrightarrow> threads p ! i = Notifying \<Longrightarrow> pool_step p (thread_notify i p)"
| Wait: "owner p = Idle \<or> owner p = Woken \<Longrightarrow> mutex_free p \<Longrightarrow> pool_step p (wait_lock p)"
| Test: "owner p = Testing \<Longrightarrow> pool_step p (wait_test p)"
| Sleep: "owner p = Dozing \<Longrightarrow> pool_step p (wait_sleep p)"
| Spurious: "owner p = Asleep \<Longrightarrow> pool_step p (p\<lparr>owner := Woken\<rparr>)"

inductive pool_reach :: "Pool \<Rightarrow> bool" where
  start: "pool_reach \<lparr>inflight = 0, threads = [], owner = Idle\<rparr>"
| step: "pool_reach p \<Longrightarrow> pool_step p p' \<Longrightarrow> pool_reach p'"

section \<open>The wait\<close>

definition pool_ok :: "Pool \<Rightarrow> bool" where
  "pool_ok p \<longleftrightarrow> inflight p = count_list (threads p) Running
     \<and> (owner p = Dozing \<or> owner p = Asleep \<longrightarrow> inflight p \<noteq> 0 \<or> Last \<in> set (threads p) \<or> Notifying \<in> set (threads p))
     \<and> (owner p = Returned \<longrightarrow> inflight p = 0)
     \<and> count_list (threads p) Notifying \<le> 1
     \<and> (owner p = Testing \<or> owner p = Dozing \<longrightarrow> Notifying \<notin> set (threads p))"

lemma count_list_update:
  assumes "i < length xs"
  shows "count_list (xs[i := y]) x + (if xs ! i = x then 1 else 0) = count_list xs x + (if y = x then 1 else 0)"
  using assms
proof (induction xs arbitrary: i)
  case (Cons a xs)
  show ?case
  proof (cases i)
    case (Suc j)
    with Cons.prems Cons.IH [of j] show ?thesis by (simp split: if_splits)
  qed simp
qed simp

lemma pool_end:
  assumes "pool_ok p" "i < length (threads p)" "threads p ! i = Running"
  shows "pool_ok (thread_end i p)"
proof -
  have "\<exists>y. threads (thread_end i p) = (threads p)[i := y] \<and> (y = Last \<or> y = Over \<and> inflight p \<noteq> 1)"
    by (cases "inflight p = 1") (auto simp: thread_end_def)
  then obtain y where y: "threads (thread_end i p) = (threads p)[i := y]" "y = Last \<or> y = Over \<and> inflight p \<noteq> 1"
    by blast
  have fields: "inflight (thread_end i p) = inflight p - 1" "owner (thread_end i p) = owner p"
    by (simp_all add: thread_end_def)
  have run: "count_list ((threads p)[i := y]) Running + 1 = inflight p"
    using count_list_update [OF assms(2), of y Running] y(2) assms(1,3) by (auto simp: pool_ok_def)
  have ntf: "count_list ((threads p)[i := y]) Notifying = count_list (threads p) Notifying"
    using count_list_update [OF assms(2), of y Notifying] y(2) assms(3) by auto
  have "inflight p - 1 \<noteq> 0 \<or> Last \<in> set ((threads p)[i := y])"
    using y(2) run assms(2) by (auto simp: set_update_memI)
  moreover have "owner p \<noteq> Returned"
    using assms(1) run by (auto simp: pool_ok_def)
  moreover have "owner p = Testing \<or> owner p = Dozing \<Longrightarrow> Notifying \<notin> set ((threads p)[i := y])"
    using assms(1) ntf by (simp add: pool_ok_def flip: count_list_0_iff)
  ultimately show ?thesis
    using assms(1) run ntf unfolding pool_ok_def y(1) fields by simp
qed

lemma pool_lock:
  assumes "pool_ok p" "i < length (threads p)" "threads p ! i = Last" "mutex_free p"
  shows "pool_ok (thread_lock i p)"
proof -
  have "count_list ((threads p)[i := Notifying]) Running = count_list (threads p) Running"
    using count_list_update [OF assms(2), of Notifying Running] assms(3) by simp
  moreover have "count_list ((threads p)[i := Notifying]) Notifying = 1"
    using count_list_update [OF assms(2), of Notifying Notifying] assms(3,4)
    by (simp add: mutex_free_def flip: count_list_0_iff)
  moreover have "Notifying \<in> set ((threads p)[i := Notifying])"
    using assms(2) by (simp add: set_update_memI)
  ultimately show ?thesis
    using assms(1,4) by (auto simp: pool_ok_def thread_lock_def mutex_free_def)
qed

lemma pool_notify:
  assumes "pool_ok p" "i < length (threads p)" "threads p ! i = Notifying"
  shows "pool_ok (thread_notify i p)"
proof -
  have run: "count_list ((threads p)[i := Over]) Running = inflight p"
    using count_list_update [OF assms(2), of Over Running] assms(1,3) by (simp add: pool_ok_def)
  have ntf: "count_list ((threads p)[i := Over]) Notifying = 0"
    using count_list_update [OF assms(2), of Over Notifying] assms(1,3) by (simp add: pool_ok_def)
  then have "Notifying \<notin> set ((threads p)[i := Over])"
    by (simp add: count_list_0_iff)
  moreover have "owner p \<noteq> Dozing"
    using assms nth_mem [OF assms(2)] by (auto simp: pool_ok_def)
  ultimately show ?thesis
    using run ntf assms(1) by (auto simp: pool_ok_def thread_notify_def)
qed

lemma pool_reach_ok: "pool_reach p \<Longrightarrow> pool_ok p"
proof (induction rule: pool_reach.induct)
  case start
  show ?case by (simp add: pool_ok_def)
next
  case (step p p')
  have ok: "pool_ok p" by (rule step.IH)
  from step.hyps(2) show ?case
  proof cases
    case Spawn
    have "owner p \<noteq> Returned"
      using ok Spawn(2) count_list_0_iff [of "threads p" Running] by (auto simp: pool_ok_def)
    with ok Spawn(1) show ?thesis
      by (simp add: pool_ok_def spawnDetached_def)
  next
    case (End i)
    then show ?thesis using pool_end [OF ok] by simp
  next
    case (Lock i)
    then show ?thesis using pool_lock [OF ok] by simp
  next
    case (Notify i)
    then show ?thesis using pool_notify [OF ok] by simp
  next
    case Sleep
    with ok show ?thesis by (auto simp: pool_ok_def wait_sleep_def)
  qed (use ok in \<open>simp_all add: pool_ok_def wait_lock_def wait_test_def mutex_free_def\<close>)
qed

lemma reach_to: "pool_reach p \<Longrightarrow> pool_step p q \<Longrightarrow> q = p' \<Longrightarrow> pool_reach p'"
  using pool_reach.step by blast

text \<open>The accept loops run before the owner waits.\<close>

lemma accept_loops_reach:
  assumes "pool_reach p" "owner p = Idle"
  shows "pool_reach (clientAcceptLoop fds (raftAcceptLoop fds' p))"
proof -
  have one: "pool_reach (spawnDetached p) \<and> owner (spawnDetached p) = Idle" if "pool_reach p" "owner p = Idle" for p
    using pool_reach.step [OF that(1) pool_step.Spawn] that(2) by (simp add: spawnDetached_def)
  have "pool_reach (raftAcceptLoop fds' p) \<and> owner (raftAcceptLoop fds' p) = Idle"
    using assms one by (induction fds' p rule: raftAcceptLoop.induct) auto
  moreover have "pool_reach (clientAcceptLoop fds p) \<and> owner (clientAcceptLoop fds p) = Idle"
    if "pool_reach p" "owner p = Idle" for p
    using that one by (induction fds p rule: clientAcceptLoop.induct) auto
  ultimately show ?thesis by blast
qed

text \<open>
  C33: the wait neither misses its wake-up nor returns while a thread works. In every interleaving the
  counter is the number of threads that run; when all threads are over the owner is neither asleep nor
  about to sleep (also when the last thread ended between its test and its sleep) and can return by its
  own steps; and when it has returned no thread runs its function any more.
\<close>

theorem wait_not_stranded:
  assumes "pool_reach p"
  shows "inflight p = count_list (threads p) Running
    \<and> (set (threads p) \<subseteq> {Over} \<longrightarrow> owner p \<noteq> Asleep \<and> owner p \<noteq> Dozing)
    \<and> (set (threads p) \<subseteq> {Over} \<longrightarrow> owner p \<noteq> Returned \<longrightarrow> owner (wait_test (wait_lock p)) = Returned \<and>
         (owner p \<noteq> Testing \<longrightarrow> pool_step p (wait_lock p)))
    \<and> (owner p = Returned \<longrightarrow> Running \<notin> set (threads p))"
proof -
  have ok: "pool_ok p"
    using assms by (rule pool_reach_ok)
  have quiet: "owner p \<noteq> Asleep \<and> owner p \<noteq> Dozing" "inflight p = 0" "Notifying \<notin> set (threads p)" if "set (threads p) \<subseteq> {Over}"
  proof -
    have none: "Running \<notin> set (threads p)" "Last \<notin> set (threads p)"
      using that by auto
    show "Notifying \<notin> set (threads p)"
      using that by auto
    with none ok show "owner p \<noteq> Asleep \<and> owner p \<noteq> Dozing" "inflight p = 0"
      by (auto simp: pool_ok_def count_list_0_iff)
  qed
  have "pool_step p (wait_lock p)" if "set (threads p) \<subseteq> {Over}" "owner p \<noteq> Returned" "owner p \<noteq> Testing"
    using quiet [OF that(1)] that(2,3) by (cases "owner p") (auto intro: pool_step.Wait simp: mutex_free_def)
  moreover have "Running \<notin> set (threads p)" if "owner p = Returned"
    using ok that by (simp add: pool_ok_def flip: count_list_0_iff)
  moreover have "owner (wait_test (wait_lock p)) = Returned" if "set (threads p) \<subseteq> {Over}"
    using quiet(2) [OF that] by (simp add: wait_test_def wait_lock_def)
  moreover have "inflight p = count_list (threads p) Running"
    using ok by (simp add: pool_ok_def)
  ultimately show ?thesis
    using quiet(1) by blast
qed

theorem wait_not_stranded_witness:
  "pool_reach \<lparr>inflight = 0, threads = [Over], owner = Woken\<rparr>
   \<and> pool_step \<lparr>inflight = 0, threads = [Over], owner = Woken\<rparr> \<lparr>inflight = 0, threads = [Over], owner = Testing\<rparr>"
proof -
  let ?p = "\<lparr>inflight = 0, threads = [Over], owner = Woken\<rparr>"
  note defs = spawnDetached_def thread_end_def thread_lock_def thread_notify_def wait_lock_def wait_test_def wait_sleep_def mutex_free_def
  have "pool_reach \<lparr>inflight = 1, threads = [Running], owner = Idle\<rparr>"
    by (rule reach_to [OF pool_reach.start pool_step.Spawn]) (simp_all add: defs)
  then have "pool_reach \<lparr>inflight = 1, threads = [Running], owner = Testing\<rparr>"
    by (rule reach_to [OF _ pool_step.Wait]) (simp_all add: defs)
  then have "pool_reach \<lparr>inflight = 1, threads = [Running], owner = Dozing\<rparr>"
    by (rule reach_to [OF _ pool_step.Test]) (simp_all add: defs)
  then have "pool_reach \<lparr>inflight = 0, threads = [Last], owner = Dozing\<rparr>"
    by (rule reach_to [OF _ pool_step.End [of 0]]) (simp_all add: defs)
  then have "pool_reach \<lparr>inflight = 0, threads = [Last], owner = Asleep\<rparr>"
    by (rule reach_to [OF _ pool_step.Sleep]) (simp_all add: defs)
  then have "pool_reach \<lparr>inflight = 0, threads = [Notifying], owner = Asleep\<rparr>"
    by (rule reach_to [OF _ pool_step.Lock [of 0]]) (simp_all add: defs)
  then have p: "pool_reach ?p"
    by (rule reach_to [OF _ pool_step.Notify [of 0]]) (simp_all add: defs)
  have "pool_step ?p (wait_lock ?p)"
    using wait_not_stranded [OF p] by simp
  with p show ?thesis by (simp add: wait_lock_def)
qed

section \<open>The last thread\<close>

text \<open>
  C32: the wait can return before the last thread is done with the mutex. In some interleaving the owner
  has returned, so that its mutex may already be destroyed, while the thread that brought the counter to 0
  has still to lock that mutex and does so as its next step.
\<close>

theorem wait_returns_early:
  "\<exists>p. pool_reach p \<and> owner p = Returned \<and> threads p ! 0 = Last \<and> pool_step p (thread_lock 0 p)"
proof -
  let ?p = "\<lparr>inflight = 0, threads = [Last], owner = Returned\<rparr>"
  note defs = spawnDetached_def thread_end_def thread_lock_def wait_lock_def wait_test_def mutex_free_def
  have "pool_reach \<lparr>inflight = 1, threads = [Running], owner = Idle\<rparr>"
    by (rule reach_to [OF pool_reach.start pool_step.Spawn]) (simp_all add: defs)
  then have "pool_reach \<lparr>inflight = 0, threads = [Last], owner = Idle\<rparr>"
    by (rule reach_to [OF _ pool_step.End [of 0]]) (simp_all add: defs)
  then have "pool_reach \<lparr>inflight = 0, threads = [Last], owner = Testing\<rparr>"
    by (rule reach_to [OF _ pool_step.Wait]) (simp_all add: defs)
  then have p: "pool_reach ?p"
    by (rule reach_to [OF _ pool_step.Test]) (simp_all add: defs)
  then show ?thesis
    using pool_step.Lock [of 0 ?p] by (intro exI [of _ ?p]) (simp add: mutex_free_def)
qed

end
